(* ===== verification/Prelude.thy ===== *)
theory Prelude
  imports Main "HOL-Library.Word"
begin

unbundle bit_operations_syntax

text \<open>
  What every component of the development shares.

  \<^item> \<open>usize\<close>: a machine word of the 64 bit target, held as the natural number it denotes.
    Arithmetic is the checked arithmetic of the development profile of the build
    (\<open>uadd\<close>, \<open>usub\<close>, \<open>umul\<close>): an operation that does not fit
    panics.  Shifts and complements are taken at width 64.
  \<^item> \<open>sys_err\<close>: the error codes of \<^verbatim>\<open>userland/sys/src/syserr.rs\<close>.
  \<^item> \<open>kresult\<close>: the outcome of a kernel function: a value, an error code
    (\<^verbatim>\<open>KResult\<close>), or a panic (a failed \<^verbatim>\<open>assert!\<close>, an \<^verbatim>\<open>unwrap\<close> of nothing,
    an arithmetic overflow, a division by zero, a slice index out of range).
  \<^item> the slice operations of the standard library that the kernel calls: binary search,
    insertion and removal at an index.
\<close>

named_theorems res_simps \<open>rewriting of the result monad and of checked arithmetic\<close>

subsection \<open>Error codes and results\<close>

datatype sys_err =
    SysOk | OkUnreach | OkTimeout | OutOfMem | InvlId | InvlPerm | InvlWeak | InvlArgs
  | InvlOp | InvlMemZone | InvlVirtAddr | InvlPhysAddr | InvlAlign | Overflow
  | OutOfCapacity | InvlBytecode | Obscured | InvlSyscall | InvlBuffer | Unknown

datatype 'a kresult = Ok 'a | Err sys_err | Panic

primrec rbind :: "'a kresult \<Rightarrow> ('a \<Rightarrow> 'b kresult) \<Rightarrow> 'b kresult" where
  "rbind (Ok x) f = f x"
| "rbind (Err e) f = Err e"
| "rbind Panic f = Panic"

definition ok_or :: "'a option \<Rightarrow> sys_err \<Rightarrow> 'a kresult" where
  "ok_or x e = (case x of None \<Rightarrow> Err e | Some v \<Rightarrow> Ok v)"

definition expect :: "'a option \<Rightarrow> 'a kresult" where
  "expect x = (case x of None \<Rightarrow> Panic | Some v \<Rightarrow> Ok v)"

definition assert_r :: "bool \<Rightarrow> unit kresult" where
  "assert_r b = (if b then Ok () else Panic)"

lemma rbind_cong [fundef_cong]:
  assumes "m = m'" and "\<And>x. m' = Ok x \<Longrightarrow> f x = g x"
  shows "rbind m f = rbind m' g"
  using assms by (cases m') auto

lemma rbind_Ok_iff [res_simps]: "rbind m f = Ok y \<longleftrightarrow> (\<exists>x. m = Ok x \<and> f x = Ok y)"
  by (cases m) auto

lemma rbind_Err_iff [res_simps]:
  "rbind m f = Err e \<longleftrightarrow> m = Err e \<or> (\<exists>x. m = Ok x \<and> f x = Err e)"
  by (cases m) auto

lemma rbind_Panic_iff [res_simps]:
  "rbind m f = Panic \<longleftrightarrow> m = Panic \<or> (\<exists>x. m = Ok x \<and> f x = Panic)"
  by (cases m) auto

lemma rbind_assoc: "rbind (rbind m f) g = rbind m (\<lambda>x. rbind (f x) g)"
  by (cases m) auto

lemma rbind_Ok_right [simp]: "rbind m Ok = m"
  by (cases m) auto

lemma ok_or_simps [simp]: "ok_or None e = Err e" "ok_or (Some x) e = Ok x"
  by (simp_all add: ok_or_def)

lemma ok_or_iffs [res_simps]:
  "ok_or x e = Ok v \<longleftrightarrow> x = Some v"
  "ok_or x e = Err e' \<longleftrightarrow> x = None \<and> e' = e"
  "ok_or x e \<noteq> Panic"
  by (auto simp: ok_or_def split: option.splits)

lemma expect_simps [simp]: "expect None = Panic" "expect (Some x) = Ok x"
  by (simp_all add: expect_def)

lemma expect_iffs [res_simps]:
  "expect x = Ok v \<longleftrightarrow> x = Some v"
  "expect x = Panic \<longleftrightarrow> x = None"
  "expect x \<noteq> Err e"
  by (auto simp: expect_def split: option.splits)

lemma assert_r_iffs [res_simps]:
  "assert_r b = Ok u \<longleftrightarrow> b"
  "assert_r b = Panic \<longleftrightarrow> \<not> b"
  "assert_r b \<noteq> Err e"
  by (auto simp: assert_r_def)

lemma assert_r_True [simp]: "assert_r True = Ok ()" "assert_r False = Panic"
  by (simp_all add: assert_r_def)

subsection \<open>Machine words as numbers\<close>

type_synonym usize = nat

abbreviation usize_limit :: nat where
  "usize_limit \<equiv> 2 ^ 64"

definition uadd :: "usize \<Rightarrow> usize \<Rightarrow> usize kresult" where
  "uadd a b = (if a + b < usize_limit then Ok (a + b) else Panic)"

definition usub :: "usize \<Rightarrow> usize \<Rightarrow> usize kresult" where
  "usub a b = (if b \<le> a then Ok (a - b) else Panic)"

definition umul :: "usize \<Rightarrow> usize \<Rightarrow> usize kresult" where
  "umul a b = (if a * b < usize_limit then Ok (a * b) else Panic)"

definition udiv :: "usize \<Rightarrow> usize \<Rightarrow> usize kresult" where
  "udiv a b = (if b = 0 then Panic else Ok (a div b))"

text \<open>The complement at width 64, through the word type.\<close>

definition unot :: "usize \<Rightarrow> usize" where
  "unot x = unat (NOT (word_of_nat x :: 64 word))"

text \<open>A left shift drops the bits that leave the word.\<close>

definition ushl :: "usize \<Rightarrow> nat \<Rightarrow> usize" where
  "ushl x k = take_bit 64 (push_bit k x)"

lemma uadd_iffs [res_simps]:
  "uadd a b = Ok c \<longleftrightarrow> a + b < usize_limit \<and> c = a + b"
  "uadd a b = Panic \<longleftrightarrow> usize_limit \<le> a + b"
  "uadd a b \<noteq> Err e"
  by (auto simp: uadd_def)

lemma usub_iffs [res_simps]:
  "usub a b = Ok c \<longleftrightarrow> b \<le> a \<and> c = a - b"
  "usub a b = Panic \<longleftrightarrow> a < b"
  "usub a b \<noteq> Err e"
  by (auto simp: usub_def)

lemma umul_iffs [res_simps]:
  "umul a b = Ok c \<longleftrightarrow> a * b < usize_limit \<and> c = a * b"
  "umul a b = Panic \<longleftrightarrow> usize_limit \<le> a * b"
  "umul a b \<noteq> Err e"
  by (auto simp: umul_def)

lemma udiv_iffs [res_simps]:
  "udiv a b = Ok c \<longleftrightarrow> b \<noteq> 0 \<and> c = a div b"
  "udiv a b = Panic \<longleftrightarrow> b = 0"
  "udiv a b \<noteq> Err e"
  by (auto simp: udiv_def)

text \<open>Wrapping subtraction, as an atomic counter does it, when nothing wraps.\<close>

lemma wrap_sub:
  assumes "b \<le> a" and "a < usize_limit"
  shows "(a + (usize_limit - b)) mod usize_limit = a - b"
proof -
  have "a + (usize_limit - b) = a - b + usize_limit" using assms by linarith
  moreover have "a - b < usize_limit" using assms(2) by linarith
  ultimately show ?thesis by (simp only: mod_add_self2 mod_less)
qed

lemma bit_unot: "bit (unot x) i \<longleftrightarrow> i < 64 \<and> \<not> bit x i"
  by (auto simp: unot_def bit_simps)

lemma bit_usize_bound: "(n :: nat) < usize_limit \<Longrightarrow> bit n i \<Longrightarrow> i < 64"
  by (metis bit_take_bit_iff take_bit_nat_eq_self)

subsection \<open>Comparison and binary search on slices\<close>

datatype ordering = Less | Equal | Greater

definition cmp :: "'a :: linorder \<Rightarrow> 'a \<Rightarrow> ordering" where
  "cmp a b = (if a < b then Less else if a = b then Equal else Greater)"

lemma cmp_iffs [simp]:
  "cmp a b = Less \<longleftrightarrow> a < b" "cmp a b = Equal \<longleftrightarrow> a = b" "cmp a b = Greater \<longleftrightarrow> b < a"
  by (auto simp: cmp_def)

text \<open>
  \<open>slice::binary_search_by\<close>: the index of an element the comparison calls \<open>Equal\<close>, or the
  index at which such an element could be inserted.
\<close>

datatype search_result = Found nat | NotFound nat

function bs_loop :: "('a \<Rightarrow> ordering) \<Rightarrow> 'a list \<Rightarrow> nat \<Rightarrow> nat \<Rightarrow> search_result" where
  "bs_loop f xs left right =
     (if left < right then
        let mid = left + (right - left) div 2 in
        (case f (xs ! mid) of
           Less \<Rightarrow> bs_loop f xs (Suc mid) right
         | Greater \<Rightarrow> bs_loop f xs left mid
         | Equal \<Rightarrow> Found mid)
      else NotFound left)"
  by pat_completeness auto
termination
  by (relation "measure (\<lambda>(f, xs, left, right). right - left)") auto

declare bs_loop.simps [simp del]

definition binary_search_by :: "('a \<Rightarrow> ordering) \<Rightarrow> 'a list \<Rightarrow> search_result" where
  "binary_search_by f xs = bs_loop f xs 0 (length xs)"

definition binary_search_by_key :: "('a \<Rightarrow> 'k :: linorder) \<Rightarrow> 'k \<Rightarrow> 'a list \<Rightarrow> search_result" where
  "binary_search_by_key key k xs = binary_search_by (\<lambda>x. cmp (key x) k) xs"

text \<open>The result of the search on a slice that is sorted by its (distinct) keys.\<close>

lemma bs_loop_sorted:
  assumes "sorted_wrt (<) (map key xs)" and "left \<le> right" and "right \<le> length xs"
    and "\<forall>j < left. key (xs ! j) < k" and "\<forall>j. right \<le> j \<and> j < length xs \<longrightarrow> k < key (xs ! j)"
  shows "case bs_loop (\<lambda>x. cmp (key x) k) xs left right of
      Found i \<Rightarrow> i < length xs \<and> key (xs ! i) = k
    | NotFound i \<Rightarrow> i \<le> length xs \<and> (\<forall>j < i. key (xs ! j) < k)
        \<and> (\<forall>j. i \<le> j \<and> j < length xs \<longrightarrow> k < key (xs ! j))"
  using assms
proof (induction "\<lambda>x. cmp (key x) k" xs left right rule: bs_loop.induct)
  case (1 xs left right)
  have mono: "key (xs ! i) < key (xs ! j)" if "i < j" "j < length xs" for i j
    using that "1.prems"(1) by (auto simp: sorted_wrt_map sorted_wrt_iff_nth_less)
  show ?case
  proof (cases "left < right")
    case False
    with "1.prems" show ?thesis by (subst bs_loop.simps) simp
  next
    case True
    define mid where "mid = left + (right - left) div 2"
    have mid: "left \<le> mid" "mid < right" "mid < length xs"
      using True "1.prems"(3) by (auto simp: mid_def)
    show ?thesis
    proof (cases "cmp (key (xs ! mid)) k")
      case Less
      then have "\<forall>j < Suc mid. key (xs ! j) < k"
        using mono [of _ mid] mid by (auto simp: less_Suc_eq intro: less_trans)
      moreover have "bs_loop (\<lambda>x. cmp (key x) k) xs left right =
          bs_loop (\<lambda>x. cmp (key x) k) xs (Suc mid) right"
        by (subst bs_loop.simps) (simp add: True Let_def mid_def [symmetric] Less del: cmp_iffs)
      ultimately show ?thesis using "1.hyps"(1) [OF True mid_def Less] mid "1.prems" by simp
    next
      case Equal
      then have "key (xs ! mid) = k" by simp
      with mid True Equal show ?thesis
        by (simp add: bs_loop.simps [of _ xs left right] Let_def mid_def [symmetric] cmp_def)
    next
      case Greater
      then have "\<forall>j. mid \<le> j \<and> j < length xs \<longrightarrow> k < key (xs ! j)"
        using mono [of mid] by (auto simp: order_le_less intro: less_trans)
      moreover have "bs_loop (\<lambda>x. cmp (key x) k) xs left right =
          bs_loop (\<lambda>x. cmp (key x) k) xs left mid"
        by (subst bs_loop.simps) (simp add: True Let_def mid_def [symmetric] Greater del: cmp_iffs)
      ultimately show ?thesis using "1.hyps"(2) [OF True mid_def Greater] mid "1.prems" by simp
    qed
  qed
qed

lemma binary_search_sorted:
  assumes "sorted_wrt (<) (map key xs)"
  shows "case binary_search_by_key key k xs of
      Found i \<Rightarrow> i < length xs \<and> key (xs ! i) = k
    | NotFound i \<Rightarrow> i \<le> length xs \<and> (\<forall>j < i. key (xs ! j) < k)
        \<and> (\<forall>j. i \<le> j \<and> j < length xs \<longrightarrow> k < key (xs ! j))"
  unfolding binary_search_by_key_def binary_search_by_def
  by (rule bs_loop_sorted) (use assms in auto)

lemma binary_search_Found:
  assumes "sorted_wrt (<) (map key xs)" and "binary_search_by_key key k xs = Found i"
  shows "i < length xs" and "key (xs ! i) = k"
  using binary_search_sorted [OF assms(1), of k] assms(2) by simp_all

lemma binary_search_NotFound:
  assumes "sorted_wrt (<) (map key xs)" and "binary_search_by_key key k xs = NotFound i"
  shows "i \<le> length xs" and "\<And>j. j < i \<Longrightarrow> key (xs ! j) < k"
    and "\<And>j. i \<le> j \<Longrightarrow> j < length xs \<Longrightarrow> k < key (xs ! j)"
  using binary_search_sorted [OF assms(1), of k] assms(2) by simp_all

lemma binary_search_complete:
  assumes "sorted_wrt (<) (map key xs)" and "i < length xs" and "key (xs ! i) = k"
  shows "binary_search_by_key key k xs = Found i"
proof (cases "binary_search_by_key key k xs")
  case (Found j)
  have "i = j"
    using binary_search_Found [OF assms(1) Found] assms
    by (metis sorted_wrt_map sorted_wrt_iff_nth_less linorder_neqE_nat order_less_irrefl)
  with Found show ?thesis by simp
next
  case (NotFound j)
  with binary_search_NotFound [OF assms(1) NotFound] assms(2,3) show ?thesis
    by (metis linorder_not_le order_less_irrefl)
qed

lemma binary_search_absent:
  assumes "sorted_wrt (<) (map key xs)" and "k \<notin> key ` set xs"
  obtains i where "binary_search_by_key key k xs = NotFound i"
proof (cases "binary_search_by_key key k xs")
  case (Found i)
  from binary_search_Found [OF assms(1) Found] have "k \<in> key ` set xs" by auto
  with assms(2) show ?thesis by blast
qed (use that in blast)

subsection \<open>Insertion and removal at an index\<close>

text \<open>\<open>Vec::insert\<close> and \<open>Vec::remove\<close>; both panic outside the range, which callers rule out.\<close>

definition vec_insert :: "nat \<Rightarrow> 'a \<Rightarrow> 'a list \<Rightarrow> 'a list" where
  "vec_insert i x xs = take i xs @ x # drop i xs"

definition vec_remove :: "nat \<Rightarrow> 'a list \<Rightarrow> 'a list" where
  "vec_remove i xs = take i xs @ drop (Suc i) xs"

lemma length_vec_insert [simp]: "length (vec_insert i x xs) = Suc (length xs)"
  by (simp add: vec_insert_def)

lemma length_vec_remove [simp]: "i < length xs \<Longrightarrow> length (vec_remove i xs) = length xs - 1"
  by (simp add: vec_remove_def)

lemma set_vec_insert [simp]: "set (vec_insert i x xs) = insert x (set xs)"
  by (metis (no_types, opaque_lifting) Un_insert_right append_take_drop_id list.simps(15) set_append
      vec_insert_def)

lemma set_vec_remove_subset: "set (vec_remove i xs) \<subseteq> set xs"
  by (auto simp: vec_remove_def dest: in_set_takeD in_set_dropD)

lemma vec_remove_insert [simp]: "i \<le> length xs \<Longrightarrow> vec_remove i (vec_insert i x xs) = xs"
  by (simp add: vec_remove_def vec_insert_def)

lemma vec_insert_remove: "i < length xs \<Longrightarrow> vec_insert i (xs ! i) (vec_remove i xs) = xs"
  by (simp add: vec_remove_def vec_insert_def id_take_nth_drop [symmetric])

lemma nth_vec_insert_same [simp]: "i \<le> length xs \<Longrightarrow> vec_insert i x xs ! i = x"
  by (simp add: vec_insert_def nth_append)

lemma sorted_wrt_vec_insert:
  assumes "sorted_wrt P xs" and "i \<le> length xs"
    and "\<And>j. j < i \<Longrightarrow> P (xs ! j) x"
    and "\<And>j. i \<le> j \<Longrightarrow> j < length xs \<Longrightarrow> P x (xs ! j)"
  shows "sorted_wrt P (vec_insert i x xs)"
proof -
  have "P y z" if "y \<in> set (take i xs)" "z \<in> set (drop i xs)" for y z
    using assms(1) that by (metis append_take_drop_id sorted_wrt_append)
  moreover have "P y x" if "y \<in> set (take i xs)" for y
    using that assms(3) by (auto simp: in_set_conv_nth)
  moreover have "P x z" if "z \<in> set (drop i xs)" for z
    using that assms(4) by (auto simp: in_set_conv_nth)
  moreover have "sorted_wrt P (take i xs)" "sorted_wrt P (drop i xs)"
    using assms(1) by (metis append_take_drop_id sorted_wrt_append)+
  ultimately show ?thesis by (auto simp: vec_insert_def sorted_wrt_append)
qed

lemma sorted_wrt_vec_remove:
  assumes "sorted_wrt P xs"
  shows "sorted_wrt P (vec_remove i xs)"
proof -
  have "sorted_wrt P (take i xs @ drop i xs)"
    using assms by simp
  then show ?thesis
    using set_drop_subset_set_drop [of i "Suc i" xs] sorted_wrt_drop [OF assms, of "Suc i"]
    by (auto simp: vec_remove_def sorted_wrt_append simp del: append_take_drop_id)
qed

end
