(* ===== verification/Key_Map.thy ===== *)
theory Key_Map
  imports Prelude
begin

text \<open>
  The contract of the kernel's maps, as their clients use it.  An insertion returns the new
  state and a result (no outcome at all would be an insertion that never returns), a removal
  the new state and the value removed.  \<open>key_map\<close> promises the effect of inserting a key that
  is absent, \<open>total_key_map\<close> that of replacing a stored value too.  The hash map meets the
  first contract only, the sorted vector map both.
\<close>

locale key_map =
  fixes inv :: "'m \<Rightarrow> bool" and lookup :: "'m \<Rightarrow> 'k \<Rightarrow> 'v option"
    and ins :: "'m \<Rightarrow> 'k \<Rightarrow> 'v \<Rightarrow> ('m \<times> 'v option kresult) option"
    and rem :: "'m \<Rightarrow> 'k \<Rightarrow> 'm \<times> 'v option"
  assumes ins_fresh: "inv m \<Longrightarrow> lookup m k = None \<Longrightarrow>
      \<exists>m' r. ins m k v = Some (m', r) \<and>
        (r = Err OutOfMem \<and> m' = m \<or> r = Ok None \<and> inv m' \<and> lookup m' = (lookup m)(k \<mapsto> v))"
    and rem_value: "inv m \<Longrightarrow> snd (rem m k) = lookup m k"
    and rem_lookup: "inv m \<Longrightarrow> lookup (fst (rem m k)) = (lookup m)(k := None)"
    and rem_inv: "inv m \<Longrightarrow> inv (fst (rem m k))"
begin

text \<open>An insertion of an absent key succeeds or fails for lack of memory; a failure changes nothing.\<close>

lemma ins_cases:
  assumes "inv m" and "lookup m k = None"
  obtains (ok) m' where "ins m k v = Some (m', Ok None)" "inv m'" "lookup m' = (lookup m)(k \<mapsto> v)"
    | (oom) "ins m k v = Some (m, Err OutOfMem)"
  using ins_fresh [OF assms, of v] by blast

lemma ins_inv:
  "inv m \<Longrightarrow> lookup m k = None \<Longrightarrow> ins m k v = Some (m', r) \<Longrightarrow> inv m'"
  using ins_fresh [of m k v] by auto

lemma ins_lookup_other:
  "inv m \<Longrightarrow> lookup m k = None \<Longrightarrow> ins m k v = Some (m', r) \<Longrightarrow> j \<noteq> k \<Longrightarrow> lookup m' j = lookup m j"
  using ins_fresh [of m k v] by auto

text \<open>Taking out what was put in gives the value back and restores the contents.\<close>

lemma ins_rem:
  assumes "inv m" and "lookup m k = None" and "ins m k v = Some (m', Ok r)"
  shows "snd (rem m' k) = Some v \<and> lookup (fst (rem m' k)) = lookup m"
proof -
  have m': "inv m'" "lookup m' = (lookup m)(k \<mapsto> v)" using ins_fresh [OF assms(1,2), of v] assms(3) by auto
  then show ?thesis using rem_value rem_lookup assms(2) by (simp add: fun_upd_idem)
qed

lemma rem_absent: "inv m \<Longrightarrow> lookup m k = None \<Longrightarrow> snd (rem m k) = None \<and> lookup (fst (rem m k)) = lookup m"
  by (simp add: rem_value rem_lookup fun_upd_idem)

lemma rem_twice: "inv m \<Longrightarrow> snd (rem (fst (rem m k)) k) = None"
  by (simp add: rem_value rem_inv rem_lookup)

end

locale total_key_map = key_map +
  assumes ins_replace: "inv m \<Longrightarrow> lookup m k = Some old \<Longrightarrow>
      \<exists>m'. ins m k v = Some (m', Ok (Some old)) \<and> inv m' \<and> lookup m' = (lookup m)(k \<mapsto> v)"
begin

text \<open>Without the condition on the key: the previous value is returned, failure changes nothing.\<close>

lemma ins_total:
  assumes "inv m"
  shows "ins m k v = Some (m, Err OutOfMem) \<or>
    (\<exists>m'. ins m k v = Some (m', Ok (lookup m k)) \<and> inv m' \<and> lookup m' = (lookup m)(k \<mapsto> v))"
  using ins_fresh [OF assms, of k v] ins_replace [OF assms, of k _ v]
  by (cases "lookup m k") auto

lemma ins_rem_total:
  "inv m \<Longrightarrow> ins m k v = Some (m', Ok r) \<Longrightarrow>
    r = lookup m k \<and> snd (rem m' k) = Some v \<and> lookup (fst (rem m' k)) = (lookup m)(k := None)"
  using ins_total [of m k v] rem_value [of m' k] rem_lookup [of m' k] by auto

end

end
