(* ===== verification/Hash_Map.thy ===== *)
theory Hash_Map
  imports Key_Map
begin

text \<open>
  The kernel's hash map, \<^verbatim>\<open>kernel/src/container/hash_map.rs\<close>: open addressing with linear
  probing and tombstones.

  \<^item> \<open>hash\<close> is the value of the SipHash hasher on a key (an external crate): any function.
  \<^item> \<open>grant c\<close> says whether the heap can provide an array of \<open>c\<close> cells.
  \<^item> \<open>insert\<close> calls \<open>try_rehash\<close>, which calls \<open>insert\<close> on the new table.  The model
    bounds the depth of that recursion; depth 2 is always enough (\<open>insert_depth_enough\<close>).
    \<open>None\<close> is the outcome of a probe that never ends.
  \<^item> the state is returned beside the result, so what an error leaves behind is explicit.

  The number of cells is bounded by the heap, so the products \<^verbatim>\<open>4 * len\<close> and \<^verbatim>\<open>3 * data.len()\<close>
  stay far below the width of a word and are taken in the natural numbers.
\<close>

subsection \<open>Data\<close>

datatype ('k, 'v) hm_cell = is_Empty: Empty | Occupied 'k 'v | Deleted

record ('k, 'v) hash_map =
  hm_data :: "('k, 'v) hm_cell list"
  hm_len :: nat

fun is_free :: "('k, 'v) hm_cell \<Rightarrow> bool" where
  "is_free (Occupied _ _) = False"
| "is_free Empty = True"
| "is_free Deleted = True"

fun cell_has_key :: "'k \<Rightarrow> ('k, 'v) hm_cell \<Rightarrow> bool" where
  "cell_has_key k (Occupied k' _) \<longleftrightarrow> k' = k"
| "cell_has_key k _ \<longleftrightarrow> False"

definition hm_new :: "('k, 'v) hash_map" where
  "hm_new = \<lparr>hm_data = [], hm_len = 0\<rparr>"

definition hm_try_with_capacity :: "(nat \<Rightarrow> bool) \<Rightarrow> nat \<Rightarrow> ('k, 'v) hash_map kresult" where
  "hm_try_with_capacity grant capacity =
     (if grant capacity then Ok \<lparr>hm_data = replicate capacity Empty, hm_len = 0\<rparr>
      else Err OutOfMem)"

definition hm_clear :: "('k, 'v) hash_map \<Rightarrow> ('k, 'v) hash_map" where
  "hm_clear m = m\<lparr>hm_data := []\<rparr>"

text \<open>The order of iteration: the occupied cells from the first to the last.\<close>

fun hm_cells_entries :: "('k, 'v) hm_cell list \<Rightarrow> ('k \<times> 'v) list" where
  "hm_cells_entries [] = []"
| "hm_cells_entries (Occupied k v # cs) = (k, v) # hm_cells_entries cs"
| "hm_cells_entries (Empty # cs) = hm_cells_entries cs"
| "hm_cells_entries (Deleted # cs) = hm_cells_entries cs"

definition hm_into_iter :: "('k, 'v) hash_map \<Rightarrow> ('k \<times> 'v) list" where
  "hm_into_iter m = hm_cells_entries (hm_data m)"

definition get_key_start_index :: "('k \<Rightarrow> nat) \<Rightarrow> ('k, 'v) hash_map \<Rightarrow> 'k \<Rightarrow> nat kresult" where
  "get_key_start_index hash m k =
     (if hm_data m = [] then Panic else Ok (hash k mod length (hm_data m)))"

subsection \<open>Insertion\<close>

text \<open>
  The probe of \<open>insert\<close>; after as many steps as there are cells it is back where it began, so
  running out of \<open>fuel\<close> there means that it never ends.
\<close>

fun hm_insert_loop ::
  "nat \<Rightarrow> ('k, 'v) hm_cell list \<Rightarrow> nat \<Rightarrow> 'k \<Rightarrow> 'v \<Rightarrow> (('k, 'v) hm_cell list \<times> 'v option) option" where
  "hm_insert_loop 0 data i k v = None"
| "hm_insert_loop (Suc fuel) data i k v =
     (if is_free (data ! i) then Some (data[i := Occupied k v], None)
      else case data ! i of
        Occupied old_key old_value \<Rightarrow>
          if old_key = k then Some (data[i := Occupied k v], Some old_value)
          else hm_insert_loop fuel data ((i + 1) mod length data) k v
      | _ \<Rightarrow> hm_insert_loop fuel data ((i + 1) mod length data) k v)"

type_synonym ('k, 'v, 'a) hm_outcome = "(('k, 'v) hash_map \<times> 'a kresult) option"

fun hm_reinsert ::
  "(('k, 'v) hash_map \<Rightarrow> 'k \<Rightarrow> 'v \<Rightarrow> ('k, 'v, 'v option) hm_outcome) \<Rightarrow> ('k \<times> 'v) list \<Rightarrow>
   ('k, 'v) hash_map \<Rightarrow> ('k, 'v, unit) hm_outcome" where
  "hm_reinsert ins [] m = Some (m, Ok ())"
| "hm_reinsert ins ((k, v) # es) m =
     (case ins m k v of
        None \<Rightarrow> None
      | Some (m', Ok _) \<Rightarrow> hm_reinsert ins es m'
      | Some (m', Err e) \<Rightarrow> Some (m', Err e)
      | Some (m', Panic) \<Rightarrow> Some (m', Panic))"

definition hm_try_rehash ::
  "(('k, 'v) hash_map \<Rightarrow> 'k \<Rightarrow> 'v \<Rightarrow> ('k, 'v, 'v option) hm_outcome) \<Rightarrow> (nat \<Rightarrow> bool) \<Rightarrow>
   ('k, 'v) hash_map \<Rightarrow> ('k, 'v, unit) hm_outcome" where
  "hm_try_rehash ins grant m =
     (if 3 * length (hm_data m) < 4 * hm_len m then
        (case hm_try_with_capacity grant (2 * length (hm_data m)) of
           Ok new_map \<Rightarrow> hm_reinsert ins (hm_into_iter m) new_map
         | Err e \<Rightarrow> Some (m, Err e) | Panic \<Rightarrow> Some (m, Panic))
      else if length (hm_data m) = 0 then
        (case hm_try_with_capacity grant 1 of
           Ok new_map \<Rightarrow> Some (new_map, Ok ())
         | Err e \<Rightarrow> Some (m, Err e) | Panic \<Rightarrow> Some (m, Panic))
      else Some (m, Ok ()))"

definition hm_probe_insert ::
  "('k \<Rightarrow> nat) \<Rightarrow> ('k, 'v) hash_map \<Rightarrow> 'k \<Rightarrow> 'v \<Rightarrow> ('k, 'v, 'v option) hm_outcome" where
  "hm_probe_insert hash m k v =
     (case get_key_start_index hash m k of
        Ok i \<Rightarrow>
          (case hm_insert_loop (length (hm_data m)) (hm_data m) i k v of
             None \<Rightarrow> None
           | Some (data, None) \<Rightarrow> Some (m\<lparr>hm_data := data, hm_len := hm_len m + 1\<rparr>, Ok None)
           | Some (data, Some old) \<Rightarrow> Some (m\<lparr>hm_data := data\<rparr>, Ok (Some old)))
      | Err e \<Rightarrow> Some (m, Err e)
      | Panic \<Rightarrow> Some (m, Panic))"

definition hm_insert_body ::
  "(('k, 'v) hash_map \<Rightarrow> 'k \<Rightarrow> 'v \<Rightarrow> ('k, 'v, 'v option) hm_outcome) \<Rightarrow> (nat \<Rightarrow> bool) \<Rightarrow>
   ('k \<Rightarrow> nat) \<Rightarrow> ('k, 'v) hash_map \<Rightarrow> 'k \<Rightarrow> 'v \<Rightarrow> ('k, 'v, 'v option) hm_outcome" where
  "hm_insert_body ins grant hash m k v =
     (case hm_try_rehash ins grant m of
        None \<Rightarrow> None
      | Some (m', Ok _) \<Rightarrow> hm_probe_insert hash m' k v
      | Some (m', Err e) \<Rightarrow> Some (m', Err e)
      | Some (m', Panic) \<Rightarrow> Some (m', Panic))"

primrec hm_insert_depth ::
  "(nat \<Rightarrow> bool) \<Rightarrow> ('k \<Rightarrow> nat) \<Rightarrow> nat \<Rightarrow>
   ('k, 'v) hash_map \<Rightarrow> 'k \<Rightarrow> 'v \<Rightarrow> ('k, 'v, 'v option) hm_outcome" where
  "hm_insert_depth grant hash 0 = (\<lambda>m k v. None)"
| "hm_insert_depth grant hash (Suc d) = hm_insert_body (hm_insert_depth grant hash d) grant hash"

definition hm_insert ::
  "(nat \<Rightarrow> bool) \<Rightarrow> ('k \<Rightarrow> nat) \<Rightarrow> ('k, 'v) hash_map \<Rightarrow> 'k \<Rightarrow> 'v \<Rightarrow> ('k, 'v, 'v option) hm_outcome"
where
  "hm_insert grant hash = hm_insert_depth grant hash 2"

subsection \<open>Lookup and removal\<close>

definition hm_distance :: "nat \<Rightarrow> nat \<Rightarrow> nat \<Rightarrow> nat" where
  "hm_distance n start_i i = (if i < start_i then start_i - i else start_i + n - i)"

lemma hm_distance_step:
  assumes "i < n" and "s < n" and "(i + 1) mod n \<noteq> s"
  shows "hm_distance n s i = Suc (hm_distance n s ((i + 1) mod n))"
  using assms by (cases "i + 1 = n") (auto simp: hm_distance_def)

lemma hm_distance_last:
  assumes "i < n" and "s < n" and "(i + 1) mod n = s"
  shows "hm_distance n s i = 1"
  using assms by (cases "i + 1 = n") (auto simp: hm_distance_def)

text \<open>
  The probe of \<open>get_index_of_key\<close> stops when it is back at \<open>start_i\<close>, so it always ends.  (The
  first test is false in every call: it states that the indices are those of a table.)
\<close>

function (sequential) hm_index_loop ::
  "('k, 'v) hm_cell list \<Rightarrow> nat \<Rightarrow> 'k \<Rightarrow> nat \<Rightarrow> nat option" where
  "hm_index_loop data start_i k i =
     (if \<not> (i < length data \<and> start_i < length data) then None
      else if is_Empty (data ! i) then None
      else if cell_has_key k (data ! i) then Some i
      else let i' = (i + 1) mod length data in
        if i' = start_i then None else hm_index_loop data start_i k i')"
  by pat_completeness auto

termination
  by (relation "measure (\<lambda>(data, s, k, i). hm_distance (length data) s i)")
    (auto simp: hm_distance_step)

declare hm_index_loop.simps [simp del]

definition get_index_of_key :: "('k \<Rightarrow> nat) \<Rightarrow> ('k, 'v) hash_map \<Rightarrow> 'k \<Rightarrow> nat option" where
  "get_index_of_key hash m k =
     (if hm_data m = [] then None
      else let i = hash k mod length (hm_data m) in hm_index_loop (hm_data m) i k i)"

definition hm_remove ::
  "('k \<Rightarrow> nat) \<Rightarrow> ('k, 'v) hash_map \<Rightarrow> 'k \<Rightarrow> ('k, 'v) hash_map \<times> 'v option" where
  "hm_remove hash m k =
     (case get_index_of_key hash m k of
        None \<Rightarrow> (m, None)
      | Some i \<Rightarrow>
          (m\<lparr>hm_data := (hm_data m)[i := Deleted]\<rparr>,
           case hm_data m ! i of Occupied _ v \<Rightarrow> Some v | _ \<Rightarrow> None))"

text \<open>\<open>get\<close> is unreachable code, hence a panic, on a cell that is not occupied.\<close>

definition hm_get :: "('k \<Rightarrow> nat) \<Rightarrow> ('k, 'v) hash_map \<Rightarrow> 'k \<Rightarrow> 'v option kresult" where
  "hm_get hash m k =
     (case get_index_of_key hash m k of
        None \<Rightarrow> Ok None
      | Some i \<Rightarrow> (case hm_data m ! i of Occupied _ v \<Rightarrow> Ok (Some v) | _ \<Rightarrow> Panic))"

text \<open>\<open>get_mut\<close> followed by a write of the value through the reference.\<close>

definition hm_update ::
  "('k \<Rightarrow> nat) \<Rightarrow> ('k, 'v) hash_map \<Rightarrow> 'k \<Rightarrow> ('v \<Rightarrow> 'v) \<Rightarrow> ('k, 'v) hash_map option kresult" where
  "hm_update hash m k f =
     (case get_index_of_key hash m k of
        None \<Rightarrow> Ok None
      | Some i \<Rightarrow>
          (case hm_data m ! i of
             Occupied k' v \<Rightarrow> Ok (Some (m\<lparr>hm_data := (hm_data m)[i := Occupied k' (f v)]\<rparr>))
           | _ \<Rightarrow> Panic))"

subsection \<open>The probe sequence\<close>

definition probe_seq :: "nat \<Rightarrow> nat \<Rightarrow> nat \<Rightarrow> nat list" where
  "probe_seq n s c = map (\<lambda>j. (s + j) mod n) [0 ..< c]"

lemma probe_seq_0 [simp]: "probe_seq n s 0 = []"
  by (simp add: probe_seq_def)

lemma probe_seq_Suc:
  assumes "s < n"
  shows "probe_seq n s (Suc c) = s # probe_seq n ((s + 1) mod n) c"
proof -
  have "map (\<lambda>j. (s + j) mod n) [0 ..< Suc c] = s mod n # map (\<lambda>j. (s + Suc j) mod n) [0 ..< c]"
    by (simp add: upt_conv_Cons map_Suc_upt [symmetric] comp_def del: upt_Suc)
  with assms show ?thesis by (simp add: probe_seq_def mod_add_left_eq)
qed

lemma set_probe_seq:
  assumes "s < n"
  shows "set (probe_seq n s n) = {..< n}"
proof -
  have "x \<in> (\<lambda>j. (s + j) mod n) ` {0 ..< n}" if "x < n" for x
    using that assms
    by (intro image_eqI [where x = "if s \<le> x then x - s else n + x - s"]) auto
  then show ?thesis using assms by (auto simp: probe_seq_def)
qed

lemma hm_insert_loop_find:
  assumes "i < length data"
  shows "hm_insert_loop c data i k v =
    (case find (\<lambda>x. is_free (data ! x) \<or> cell_has_key k (data ! x)) (probe_seq (length data) i c) of
       None \<Rightarrow> None
     | Some x \<Rightarrow> Some (data[x := Occupied k v], case data ! x of Occupied _ old \<Rightarrow> Some old | _ \<Rightarrow> None))"
  using assms
proof (induction c arbitrary: i)
  case (Suc c)
  have "(i + 1) mod length data < length data" using Suc.prems by (intro mod_less_divisor) linarith
  from Suc.IH [OF this] Suc.prems show ?case
    by (cases "data ! i") (simp_all add: probe_seq_Suc)
qed simp

lemma hm_index_loop_find:
  assumes "i < length data" and "s < length data"
  shows "hm_index_loop data s k i =
    (case find (\<lambda>x. is_Empty (data ! x) \<or> cell_has_key k (data ! x))
        (probe_seq (length data) i (hm_distance (length data) s i)) of
       None \<Rightarrow> None
     | Some x \<Rightarrow> if is_Empty (data ! x) then None else Some x)"
  using assms
proof (induction data s k i rule: hm_index_loop.induct)
  case (1 data s k i)
  let ?i = "(i + 1) mod length data"
  show ?case
  proof (cases "?i = s")
    case True
    with "1.prems" show ?thesis
      by (subst hm_index_loop.simps)
        (simp add: hm_distance_last [OF "1.prems" True] probe_seq_Suc numeral_eq_Suc One_nat_def)
  next
    case False
    have "?i < length data" using "1.prems"(1) by (intro mod_less_divisor) linarith
    with False 1 show ?thesis
      by (subst hm_index_loop.simps)
        (simp add: hm_distance_step [OF "1.prems" False] probe_seq_Suc Let_def)
  qed
qed

lemma get_index_of_key_find:
  assumes "0 < length (hm_data m)"
  shows "get_index_of_key hash m k =
    (case find (\<lambda>x. is_Empty (hm_data m ! x) \<or> cell_has_key k (hm_data m ! x))
        (probe_seq (length (hm_data m)) (hash k mod length (hm_data m)) (length (hm_data m))) of
       None \<Rightarrow> None
     | Some x \<Rightarrow> if is_Empty (hm_data m ! x) then None else Some x)"
  using assms
  by (simp add: get_index_of_key_def Let_def hm_index_loop_find hm_distance_def)

text \<open>What it takes for the search along a sequence to stop at a given element.\<close>

lemma find_takeWhile:
  assumes "x \<in> set xs" and "P x" and "\<forall>y \<in> set (takeWhile (\<lambda>y. y \<noteq> x) xs). \<not> P y"
  shows "find P xs = Some x"
  using assms
proof (induction xs)
  case (Cons a xs)
  then show ?case by (cases "a = x") simp_all
qed simp

lemma find_Some_takeWhile:
  "find P xs = Some x \<Longrightarrow> x \<in> set xs \<and> P x \<and> (\<forall>y \<in> set (takeWhile (\<lambda>y. y \<noteq> x) xs). \<not> P y)"
proof (induction xs)
  case (Cons a xs)
  then show ?case by (cases "P a"; cases "a = x") simp_all
qed simp

subsection \<open>Invariant and abstraction\<close>

text \<open>
  The abstract contents, the number of occupied cells, and the invariant: no key is stored
  twice, every key is reachable by its probe sequence without crossing an empty cell, and
  \<open>len\<close> is at least the number of entries (\<open>remove\<close> does not decrease it).
\<close>

definition hm_abs :: "('k, 'v) hash_map \<Rightarrow> 'k \<Rightarrow> 'v option" where
  "hm_abs m = map_of (hm_into_iter m)"

definition hm_path :: "('k \<Rightarrow> nat) \<Rightarrow> ('k, 'v) hm_cell list \<Rightarrow> 'k \<Rightarrow> nat \<Rightarrow> bool" where
  "hm_path hash data k i \<longleftrightarrow>
     (\<forall>x \<in> set (takeWhile (\<lambda>x. x \<noteq> i) (probe_seq (length data) (hash k mod length data) (length data))).
        \<not> is_Empty (data ! x))"

definition cells_ok :: "('k \<Rightarrow> nat) \<Rightarrow> ('k, 'v) hm_cell list \<Rightarrow> bool" where
  "cells_ok hash data \<longleftrightarrow>
     distinct (map fst (hm_cells_entries data)) \<and>
     (\<forall>i k v. i < length data \<longrightarrow> data ! i = Occupied k v \<longrightarrow> hm_path hash data k i)"

definition hm_inv :: "('k \<Rightarrow> nat) \<Rightarrow> ('k, 'v) hash_map \<Rightarrow> bool" where
  "hm_inv hash m \<longleftrightarrow>
     cells_ok hash (hm_data m) \<and> length (hm_into_iter m) \<le> hm_len m \<and>
     (hm_data m = [] \<longrightarrow> hm_len m = 0)"

lemma entries_append [simp]:
  "hm_cells_entries (xs @ ys) = hm_cells_entries xs @ hm_cells_entries ys"
  by (induction xs rule: hm_cells_entries.induct) auto

lemma entries_replicate_Empty [simp]: "hm_cells_entries (replicate n Empty) = []"
  by (induction n) auto

lemma set_entries: "(k, v) \<in> set (hm_cells_entries cs) \<longleftrightarrow> Occupied k v \<in> set cs"
  by (induction cs rule: hm_cells_entries.induct) auto

lemma length_entries: "length (hm_cells_entries cs) + length (filter is_free cs) = length cs"
  by (induction cs rule: hm_cells_entries.induct) auto

lemma entries_update:
  "i < length cs \<Longrightarrow> hm_cells_entries (cs[i := c]) =
     hm_cells_entries (take i cs) @ hm_cells_entries [c] @ hm_cells_entries (drop (Suc i) cs)"
  by (simp only: upd_conv_take_nth_drop entries_append) (metis append_Cons append_Nil entries_append)

lemmas entries_split = entries_update [of i cs "cs ! i" for i cs, unfolded list_update_id]

lemma map_of_insert_middle:
  assumes "k \<notin> fst ` set xs"
  shows "map_of (xs @ (k, v) # ys) = (map_of (xs @ ys))(k \<mapsto> v)"
  using assms by (induction xs) (auto simp: fun_upd_twist)

lemma map_of_remove_middle:
  assumes "k \<notin> fst ` set (xs @ ys)"
  shows "map_of (xs @ ys) = (map_of (xs @ (k, v) # ys))(k := None)"
proof -
  have "map_of (xs @ ys) k = None" using assms by (simp add: map_of_eq_None_iff del: map_of_append)
  moreover have "map_of (xs @ (k, v) # ys) = (map_of (xs @ ys))(k \<mapsto> v)"
    using assms by (intro map_of_insert_middle) auto
  ultimately show ?thesis by (metis fun_upd_triv fun_upd_upd)
qed

lemma hm_path_update:
  "\<not> is_Empty c \<Longrightarrow> hm_path hash data k j \<Longrightarrow> hm_path hash (data[i := c]) k j"
  by (cases "i < length data") (auto simp: hm_path_def nth_list_update list_update_beyond)

lemma cells_ok_fresh:
  assumes ok: "cells_ok hash data" and i: "i < length data" "is_free (data ! i)"
    and fresh: "k \<notin> fst ` set (hm_cells_entries data)" and path: "hm_path hash data k i"
  shows "cells_ok hash (data[i := Occupied k v])"
    and "map_of (hm_cells_entries (data[i := Occupied k v])) = (map_of (hm_cells_entries data))(k \<mapsto> v)"
    and "length (hm_cells_entries (data[i := Occupied k v])) = Suc (length (hm_cells_entries data))"
proof -
  let ?p = "hm_cells_entries (take i data)" and ?q = "hm_cells_entries (drop (Suc i) data)"
  have none: "hm_cells_entries [data ! i] = []" using i(2) by (cases "data ! i") auto
  have old: "hm_cells_entries data = ?p @ ?q" using entries_split [OF i(1)] none by simp
  have new: "hm_cells_entries (data[i := Occupied k v]) = ?p @ (k, v) # ?q"
    using entries_update [OF i(1)] by simp
  have k: "k \<notin> fst ` set ?p" "k \<notin> fst ` set ?q" using fresh unfolding old by auto
  show "map_of (hm_cells_entries (data[i := Occupied k v])) = (map_of (hm_cells_entries data))(k \<mapsto> v)"
    unfolding new old by (rule map_of_insert_middle [OF k(1)])
  show "length (hm_cells_entries (data[i := Occupied k v])) = Suc (length (hm_cells_entries data))"
    unfolding new old by simp
  have "distinct (map fst (?p @ (k, v) # ?q))"
    using ok k unfolding cells_ok_def old by auto
  moreover have "hm_path hash (data[i := Occupied k v]) k' j"
    if "j < length data" "data[i := Occupied k v] ! j = Occupied k' v'" for j k' v'
    using that ok path i(1)
    by (intro hm_path_update) (auto simp: cells_ok_def nth_list_update split: if_splits)
  ultimately show "cells_ok hash (data[i := Occupied k v])"
    by (auto simp: cells_ok_def new)
qed

lemma cells_ok_occupied:
  assumes ok: "cells_ok hash data" and i: "i < length data" "data ! i = Occupied k v"
  shows "cells_ok hash (data[i := Deleted])"
    and "map_of (hm_cells_entries (data[i := Deleted])) = (map_of (hm_cells_entries data))(k := None)"
    and "length (hm_cells_entries (data[i := Deleted])) = length (hm_cells_entries data) - 1"
    and "cells_ok hash (data[i := Occupied k v'])"
    and "map_of (hm_cells_entries (data[i := Occupied k v'])) = (map_of (hm_cells_entries data))(k \<mapsto> v')"
    and "length (hm_cells_entries (data[i := Occupied k v'])) = length (hm_cells_entries data)"
proof -
  let ?p = "hm_cells_entries (take i data)" and ?q = "hm_cells_entries (drop (Suc i) data)"
  have old: "hm_cells_entries data = ?p @ (k, v) # ?q" using entries_split [OF i(1)] i(2) by simp
  have del: "hm_cells_entries (data[i := Deleted]) = ?p @ ?q"
    using entries_update [OF i(1)] by simp
  have new: "hm_cells_entries (data[i := Occupied k v']) = ?p @ (k, v') # ?q"
    using entries_update [OF i(1)] by simp
  have dist: "distinct (map fst (?p @ (k, v) # ?q))" using ok unfolding cells_ok_def old by simp
  then have k: "k \<notin> fst ` set ?p" "k \<notin> fst ` set ?q" by auto
  show "map_of (hm_cells_entries (data[i := Deleted])) = (map_of (hm_cells_entries data))(k := None)"
    unfolding del old using k by (intro map_of_remove_middle) auto
  show "map_of (hm_cells_entries (data[i := Occupied k v'])) = (map_of (hm_cells_entries data))(k \<mapsto> v')"
    unfolding new old by (simp add: map_of_insert_middle [OF k(1)] del: map_of_append)
  show "length (hm_cells_entries (data[i := Deleted])) = length (hm_cells_entries data) - 1"
    and "length (hm_cells_entries (data[i := Occupied k v'])) = length (hm_cells_entries data)"
    unfolding del old new by simp_all
  have path: "hm_path hash (data[i := c]) k' j"
    if "\<not> is_Empty c" "\<And>k' w. c = Occupied k' w \<Longrightarrow> k' = k"
      and "j < length data" "data[i := c] ! j = Occupied k' w" for c j k' w
    using that ok i by (intro hm_path_update) (auto simp: cells_ok_def nth_list_update split: if_splits)
  show "cells_ok hash (data[i := Deleted])"
    unfolding cells_ok_def del using dist by (auto intro!: path)
  show "cells_ok hash (data[i := Occupied k v'])"
    unfolding cells_ok_def new using dist by (auto intro!: path)
qed

lemma hm_abs_Some_iff:
  assumes "cells_ok hash (hm_data m)"
  shows "hm_abs m k = Some v \<longleftrightarrow> (\<exists>i < length (hm_data m). hm_data m ! i = Occupied k v)"
proof -
  have "hm_abs m k = Some v \<longleftrightarrow> Occupied k v \<in> set (hm_data m)"
    using assms by (simp add: hm_abs_def hm_into_iter_def cells_ok_def map_of_eq_Some_iff set_entries)
  then show ?thesis by (simp add: in_set_conv_nth)
qed

lemma hm_abs_None_iff: "hm_abs m k = None \<longleftrightarrow> k \<notin> fst ` set (hm_cells_entries (hm_data m))"
  by (simp add: hm_abs_def hm_into_iter_def map_of_eq_None_iff)

lemma cell_has_key_iff: "cell_has_key k c \<longleftrightarrow> (\<exists>v. c = Occupied k v)"
  by (cases c) auto

text \<open>At most one cell holds a key.\<close>

lemma cells_ok_unique:
  assumes ok: "cells_ok hash data" and "i < length data" "j < length data"
    and "data ! i = Occupied k v" "data ! j = Occupied k w"
  shows "i = j"
proof (rule ccontr)
  assume "i \<noteq> j"
  from cells_ok_occupied(2) [OF ok assms(2,4)]
  have "map_of (hm_cells_entries (data[i := Deleted])) k = None" by simp
  moreover have "Occupied k w \<in> set (data[i := Deleted])"
    using assms(3,5) \<open>i \<noteq> j\<close> by (metis length_list_update nth_list_update_neq nth_mem)
  then have "(k, w) \<in> set (hm_cells_entries (data[i := Deleted]))" by (simp add: set_entries)
  ultimately show False by (force simp: map_of_eq_None_iff)
qed

lemma get_index_of_key_Some:
  assumes ok: "cells_ok hash (hm_data m)"
  shows "get_index_of_key hash m k = Some i \<longleftrightarrow>
    i < length (hm_data m) \<and> (\<exists>v. hm_data m ! i = Occupied k v)"
proof (cases "hm_data m = []")
  case True
  then show ?thesis by (simp add: get_index_of_key_def)
next
  case False
  let ?d = "hm_data m"
  let ?seq = "probe_seq (length ?d) (hash k mod length ?d) (length ?d)"
  let ?P = "\<lambda>x. is_Empty (?d ! x) \<or> cell_has_key k (?d ! x)"
  have n: "0 < length ?d" using False by simp
  have seq: "set ?seq = {..< length ?d}" using n by (simp add: set_probe_seq)
  note find = get_index_of_key_find [OF n, of hash k]
  show ?thesis
  proof
    assume "get_index_of_key hash m k = Some i"
    then have "find ?P ?seq = Some i" "\<not> is_Empty (?d ! i)"
      unfolding find by (auto split: option.splits if_splits)
    with find_Some_takeWhile [OF this(1)] seq
    show "i < length ?d \<and> (\<exists>v. ?d ! i = Occupied k v)" by (auto simp: cell_has_key_iff)
  next
    assume "i < length ?d \<and> (\<exists>v. ?d ! i = Occupied k v)"
    then obtain v where i: "i < length ?d" "?d ! i = Occupied k v" by blast
    then have path: "hm_path hash ?d k i" using ok by (auto simp: cells_ok_def)
    have "find ?P ?seq = Some i"
    proof (rule find_takeWhile)
      show "\<forall>y \<in> set (takeWhile (\<lambda>y. y \<noteq> i) ?seq). \<not> ?P y"
      proof
        fix y assume y: "y \<in> set (takeWhile (\<lambda>y. y \<noteq> i) ?seq)"
        then have "y \<noteq> i" "y < length ?d" using seq by (auto dest: set_takeWhileD)
        with cells_ok_unique [OF ok _ i(1) _ i(2)] have "\<not> cell_has_key k (?d ! y)"
          by (auto simp: cell_has_key_iff)
        with y path show "\<not> ?P y" by (auto simp: hm_path_def)
      qed
    qed (use i seq in auto)
    with i show "get_index_of_key hash m k = Some i" unfolding find by simp
  qed
qed

lemma get_index_of_key_None:
  assumes ok: "cells_ok hash (hm_data m)"
  shows "get_index_of_key hash m k = None \<longleftrightarrow> hm_abs m k = None"
  using get_index_of_key_Some [OF ok, of k] hm_abs_Some_iff [OF ok, of k]
  by (metis not_None_eq)

lemma hm_get_eq:
  assumes ok: "cells_ok hash (hm_data m)"
  shows "hm_get hash m k = Ok (hm_abs m k)"
proof (cases "get_index_of_key hash m k")
  case None
  with get_index_of_key_None [OF ok, of k] show ?thesis by (simp add: hm_get_def)
next
  case (Some i)
  with get_index_of_key_Some [OF ok, of k i] obtain v
    where i: "i < length (hm_data m)" "hm_data m ! i = Occupied k v" by blast
  then have "hm_abs m k = Some v" using hm_abs_Some_iff [OF ok] by blast
  with Some i show ?thesis by (simp add: hm_get_def)
qed

lemma hm_remove_eq:
  assumes inv: "hm_inv hash m"
  shows "snd (hm_remove hash m k) = hm_abs m k"
    and "hm_abs (fst (hm_remove hash m k)) = (hm_abs m)(k := None)"
    and "hm_inv hash (fst (hm_remove hash m k))"
proof -
  have ok: "cells_ok hash (hm_data m)" using inv by (simp add: hm_inv_def)
  have "snd (hm_remove hash m k) = hm_abs m k \<and>
    hm_abs (fst (hm_remove hash m k)) = (hm_abs m)(k := None) \<and>
    hm_inv hash (fst (hm_remove hash m k))"
  proof (cases "get_index_of_key hash m k")
    case None
    with get_index_of_key_None [OF ok, of k] inv show ?thesis by (simp add: hm_remove_def fun_upd_idem)
  next
    case (Some i)
    with get_index_of_key_Some [OF ok, of k i] obtain v
      where i: "i < length (hm_data m)" "hm_data m ! i = Occupied k v" by blast
    then have "hm_abs m k = Some v" using hm_abs_Some_iff [OF ok] by blast
    with Some i inv cells_ok_occupied(1-3) [OF ok i] show ?thesis
      by (auto simp: hm_remove_def hm_abs_def hm_into_iter_def hm_inv_def)
  qed
  then show "snd (hm_remove hash m k) = hm_abs m k"
    and "hm_abs (fst (hm_remove hash m k)) = (hm_abs m)(k := None)"
    and "hm_inv hash (fst (hm_remove hash m k))" by blast+
qed

lemma hm_update_eq:
  assumes inv: "hm_inv hash m"
  shows "\<exists>r. hm_update hash m k f = Ok r \<and>
    (case hm_abs m k of
       None \<Rightarrow> r = None
     | Some v \<Rightarrow> \<exists>m'. r = Some m' \<and> hm_inv hash m' \<and> hm_abs m' = (hm_abs m)(k \<mapsto> f v))"
proof -
  have ok: "cells_ok hash (hm_data m)" using inv by (simp add: hm_inv_def)
  show ?thesis
  proof (cases "get_index_of_key hash m k")
    case None
    with get_index_of_key_None [OF ok, of k] show ?thesis by (simp add: hm_update_def)
  next
    case (Some i)
    with get_index_of_key_Some [OF ok, of k i] obtain v
      where i: "i < length (hm_data m)" "hm_data m ! i = Occupied k v" by blast
    then have "hm_abs m k = Some v" using hm_abs_Some_iff [OF ok] by blast
    with Some i inv cells_ok_occupied(4-6) [OF ok i, of "f v"] show ?thesis
      by (auto simp: hm_update_def hm_abs_def hm_into_iter_def hm_inv_def)
  qed
qed

subsection \<open>Insertion\<close>

lemma hm_probe_insert_find:
  assumes "0 < length (hm_data m)"
  shows "hm_probe_insert hash m k v =
    (case find (\<lambda>x. is_free (hm_data m ! x) \<or> cell_has_key k (hm_data m ! x))
        (probe_seq (length (hm_data m)) (hash k mod length (hm_data m)) (length (hm_data m))) of
       None \<Rightarrow> None
     | Some x \<Rightarrow>
         (case hm_data m ! x of
            Occupied _ old \<Rightarrow> Some (m\<lparr>hm_data := (hm_data m)[x := Occupied k v]\<rparr>, Ok (Some old))
          | _ \<Rightarrow> Some (m\<lparr>hm_data := (hm_data m)[x := Occupied k v], hm_len := hm_len m + 1\<rparr>, Ok None)))"
  using assms
  by (auto simp: hm_probe_insert_def get_key_start_index_def hm_insert_loop_find
      split: option.splits hm_cell.splits)

lemma hm_probe_insert_fresh:
  assumes ok: "cells_ok hash (hm_data m)" and room: "length (hm_into_iter m) < length (hm_data m)"
    and fresh: "hm_abs m k = None"
  shows "\<exists>m'. hm_probe_insert hash m k v = Some (m', Ok None) \<and> cells_ok hash (hm_data m') \<and>
    hm_abs m' = (hm_abs m)(k \<mapsto> v) \<and> length (hm_into_iter m') = Suc (length (hm_into_iter m)) \<and>
    hm_len m' = Suc (hm_len m) \<and> length (hm_data m') = length (hm_data m)"
proof -
  let ?d = "hm_data m"
  let ?seq = "probe_seq (length ?d) (hash k mod length ?d) (length ?d)"
  let ?P = "\<lambda>x. is_free (?d ! x) \<or> cell_has_key k (?d ! x)"
  have n: "0 < length ?d" using room by linarith
  have seq: "set ?seq = {..< length ?d}" using n by (simp add: set_probe_seq)
  have "filter is_free ?d \<noteq> []"
    using room length_entries [of ?d] by (auto simp: hm_into_iter_def)
  then obtain c where "c \<in> set ?d" "is_free c" by (auto simp: filter_empty_conv)
  then obtain y where "y < length ?d" "is_free (?d ! y)" by (auto simp: in_set_conv_nth)
  then have "find ?P ?seq \<noteq> None" using seq by (auto simp: find_None_iff)
  then obtain x where x: "find ?P ?seq = Some x" by blast
  note fx = find_Some_takeWhile [OF x]
  have xn: "x < length ?d" using fx seq by auto
  have "\<not> cell_has_key k (?d ! x)"
    using fresh xn by (auto simp: cell_has_key_iff hm_abs_Some_iff [OF ok] simp flip: not_Some_eq)
  with fx have free: "is_free (?d ! x)" by blast
  have path: "hm_path hash ?d k x"
    unfolding hm_path_def using fx by (metis hm_cell.collapse(1) is_free.simps(2))
  let ?m = "m\<lparr>hm_data := ?d[x := Occupied k v], hm_len := hm_len m + 1\<rparr>"
  have "hm_probe_insert hash m k v = Some (?m, Ok None)"
    unfolding hm_probe_insert_find [OF n] x using free by (cases "?d ! x") auto
  with cells_ok_fresh [OF ok xn free _ path, of v] fresh show ?thesis
    by (intro exI [of _ ?m]) (simp add: hm_abs_None_iff, simp add: hm_abs_def hm_into_iter_def)
qed

text \<open>
  Replacing the value of a stored key is sound only in a table without tombstones: otherwise
  \<open>insert\<close> may take a free cell before the one that holds the key.
\<close>

lemma hm_probe_insert_replace:
  assumes ok: "cells_ok hash (hm_data m)" and "Deleted \<notin> set (hm_data m)"
    and old: "hm_abs m k = Some old"
  shows "\<exists>m'. hm_probe_insert hash m k v = Some (m', Ok (Some old)) \<and> cells_ok hash (hm_data m') \<and>
    hm_abs m' = (hm_abs m)(k \<mapsto> v) \<and> length (hm_into_iter m') = length (hm_into_iter m) \<and>
    hm_len m' = hm_len m \<and> length (hm_data m') = length (hm_data m)"
proof -
  let ?d = "hm_data m"
  let ?seq = "probe_seq (length ?d) (hash k mod length ?d) (length ?d)"
  let ?P = "\<lambda>x. is_free (?d ! x) \<or> cell_has_key k (?d ! x)"
  let ?Q = "\<lambda>x. is_Empty (?d ! x) \<or> cell_has_key k (?d ! x)"
  obtain i where i: "i < length ?d" "?d ! i = Occupied k old"
    using old hm_abs_Some_iff [OF ok] by blast
  then have n: "0 < length ?d" by linarith
  have seq: "set ?seq = {..< length ?d}" using n by (simp add: set_probe_seq)
  have same: "?P x \<longleftrightarrow> ?Q x" if "x < length ?d" for x
    using assms(2) nth_mem [OF that] by (cases "?d ! x") auto
  have "get_index_of_key hash m k = Some i" using get_index_of_key_Some [OF ok] i by blast
  then have "find ?Q ?seq = Some i"
    unfolding get_index_of_key_find [OF n] by (auto split: option.splits if_splits)
  moreover have "find ?P ?seq = find ?Q ?seq" using same seq by (intro find_cong) auto
  ultimately have "hm_probe_insert hash m k v =
      Some (m\<lparr>hm_data := ?d[i := Occupied k v]\<rparr>, Ok (Some old))"
    unfolding hm_probe_insert_find [OF n] using i by simp
  with cells_ok_occupied(4-6) [OF ok i, of v] show ?thesis
    by (simp add: hm_abs_def hm_into_iter_def)
qed

text \<open>While the table has room, \<open>insert\<close> only probes; filling a new table needs no other.\<close>

lemma hm_insert_body_no_rehash:
  assumes "0 < length (hm_data m)" and "4 * hm_len m \<le> 3 * length (hm_data m)"
  shows "hm_insert_body ins grant hash m k v = hm_probe_insert hash m k v"
  using assms by (simp add: hm_insert_body_def hm_try_rehash_def)

lemma hm_reinsert_fresh:
  assumes "cells_ok hash (hm_data m)" and "hm_len m = length (hm_into_iter m)"
    and "2 * (hm_len m + length es) \<le> length (hm_data m)"
    and "distinct (map fst es)" and "\<forall>k \<in> fst ` set es. hm_abs m k = None"
  shows "\<exists>m'. hm_reinsert (hm_insert_body ins grant hash) es m = Some (m', Ok ()) \<and>
    cells_ok hash (hm_data m') \<and> hm_len m' = length (hm_into_iter m') \<and>
    hm_len m' = hm_len m + length es \<and> length (hm_data m') = length (hm_data m) \<and>
    hm_abs m' = hm_abs m ++ map_of es"
  using assms
proof (induction es arbitrary: m)
  case (Cons e es)
  obtain k v where e: "e = (k, v)" by force
  have room: "length (hm_into_iter m) < length (hm_data m)" and n: "0 < length (hm_data m)"
    and low: "4 * hm_len m \<le> 3 * length (hm_data m)" and fresh: "hm_abs m k = None"
    using Cons.prems e by auto
  from hm_probe_insert_fresh [OF Cons.prems(1) room fresh, of v] obtain m1
    where m1: "hm_probe_insert hash m k v = Some (m1, Ok None)" "cells_ok hash (hm_data m1)"
      "hm_abs m1 = (hm_abs m)(k \<mapsto> v)" "length (hm_into_iter m1) = Suc (length (hm_into_iter m))"
      "hm_len m1 = Suc (hm_len m)" "length (hm_data m1) = length (hm_data m)"
    by blast
  have k: "k \<notin> fst ` set es" using Cons.prems(4) e by simp
  have "\<forall>k' \<in> fst ` set es. hm_abs m1 k' = None" using Cons.prems(5) k m1(3) e by auto
  moreover have "hm_len m1 = length (hm_into_iter m1)"
    "2 * (hm_len m1 + length es) \<le> length (hm_data m1)" "distinct (map fst es)"
    using m1(4-6) Cons.prems by simp_all
  ultimately obtain m2 where m2: "hm_reinsert (hm_insert_body ins grant hash) es m1 = Some (m2, Ok ())"
      "cells_ok hash (hm_data m2)" "hm_len m2 = length (hm_into_iter m2)"
      "hm_len m2 = hm_len m1 + length es" "length (hm_data m2) = length (hm_data m1)"
      "hm_abs m2 = hm_abs m1 ++ map_of es"
    using Cons.IH [OF m1(2)] by blast
  have "k \<notin> dom (map_of es)" using k by (simp add: dom_map_of_conv_image_fst)
  then have "hm_abs m2 = hm_abs m ++ map_of (e # es)"
    unfolding m2(6) m1(3) e
    by (intro ext) (auto simp: map_add_def domIff split: option.splits)
  moreover have "hm_reinsert (hm_insert_body ins grant hash) (e # es) m = Some (m2, Ok ())"
    using m1(1) m2(1) e by (simp add: hm_insert_body_no_rehash [OF n low])
  moreover have "hm_len m2 = hm_len m + length (e # es)" "length (hm_data m2) = length (hm_data m)"
    using m1(5,6) m2(4,5) by simp_all
  ultimately show ?case using m2(2,3) by blast
qed simp

lemma cells_ok_replicate [simp]: "cells_ok hash (replicate n Empty)"
  by (simp add: cells_ok_def)

lemma hm_try_rehash_ok:
  assumes inv: "hm_inv hash m"
  shows "\<exists>m' r. hm_try_rehash (hm_insert_body ins grant hash) grant m = Some (m', r) \<and>
    (r = Err OutOfMem \<and> m' = m \<and> \<not> grant (max 1 (2 * length (hm_data m))) \<or>
     r = Ok () \<and> hm_inv hash m' \<and> hm_abs m' = hm_abs m \<and> 0 < length (hm_data m') \<and>
     4 * hm_len m' \<le> 3 * length (hm_data m'))"
proof -
  let ?n = "length (hm_data m)"
  have ok: "cells_ok hash (hm_data m)" and len: "length (hm_into_iter m) \<le> hm_len m"
    using inv by (auto simp: hm_inv_def)
  consider "?n = 0" | "0 < ?n" "4 * hm_len m \<le> 3 * ?n" | "0 < ?n" "3 * ?n < 4 * hm_len m"
    by linarith
  then show ?thesis
  proof cases
    case 1
    with inv have "hm_len m = 0" "hm_abs m = Map.empty"
      by (simp_all add: hm_inv_def hm_abs_def hm_into_iter_def)
    with 1 show ?thesis
      by (simp add: hm_try_rehash_def hm_try_with_capacity_def hm_inv_def hm_into_iter_def hm_abs_def
          cells_ok_replicate [of hash 1, simplified] max_def)
  next
    case 2
    with inv show ?thesis by (simp add: hm_try_rehash_def)
  next
    case 3
    let ?new = "\<lparr>hm_data = replicate (2 * ?n) Empty, hm_len = 0\<rparr>"
    have "length (hm_into_iter m) \<le> ?n" using length_entries [of "hm_data m"]
      by (simp add: hm_into_iter_def)
    moreover have "distinct (map fst (hm_into_iter m))"
      using ok by (simp add: cells_ok_def hm_into_iter_def)
    moreover have "hm_abs ?new = Map.empty" "hm_into_iter ?new = []"
      by (simp_all add: hm_into_iter_def hm_abs_def)
    moreover note hm_reinsert_fresh [of hash ?new "hm_into_iter m" "ins" "grant"]
    ultimately have "\<exists>m'. hm_reinsert (hm_insert_body ins grant hash) (hm_into_iter m) ?new = Some (m', Ok ()) \<and>
        cells_ok hash (hm_data m') \<and> hm_len m' = length (hm_into_iter m') \<and>
        hm_len m' = length (hm_into_iter m) \<and>
        length (hm_data m') = 2 * ?n \<and> hm_abs m' = hm_abs m"
      by (simp add: hm_abs_def)
    then obtain m' where m': "hm_reinsert (hm_insert_body ins grant hash) (hm_into_iter m) ?new = Some (m', Ok ())"
        "cells_ok hash (hm_data m')" "hm_len m' = length (hm_into_iter m')"
        "hm_len m' = length (hm_into_iter m)" "length (hm_data m') = 2 * ?n"
        "hm_abs m' = hm_abs m"
      by blast
    moreover from this have "hm_inv hash m'" using 3(1) by (auto simp: hm_inv_def)
    moreover have "max 1 (2 * ?n) = 2 * ?n" "0 < 2 * ?n" using 3(1) by linarith+
    ultimately show ?thesis
      using 3 \<open>length (hm_into_iter m) \<le> ?n\<close>
      by (cases "grant (2 * ?n)") (simp_all add: hm_try_rehash_def hm_try_with_capacity_def flip: length_greater_0_conv)
  qed
qed

lemma hm_insert_fresh:
  assumes inv: "hm_inv hash m" and fresh: "hm_abs m k = None"
  shows "\<exists>m' r. hm_insert_depth grant hash (Suc (Suc d)) m k v = Some (m', r) \<and>
    (r = Err OutOfMem \<and> m' = m \<and> \<not> grant (max 1 (2 * length (hm_data m))) \<or>
     r = Ok None \<and> hm_inv hash m' \<and> hm_abs m' = (hm_abs m)(k \<mapsto> v))"
proof -
  let ?ins = "hm_insert_body (hm_insert_depth grant hash d) grant hash"
  from hm_try_rehash_ok [OF inv, of "hm_insert_depth grant hash d" grant] obtain m1 r1
    where m1: "hm_try_rehash ?ins grant m = Some (m1, r1)"
      and c: "r1 = Err OutOfMem \<and> m1 = m \<and> \<not> grant (max 1 (2 * length (hm_data m))) \<or>
        r1 = Ok () \<and> hm_inv hash m1 \<and> hm_abs m1 = hm_abs m \<and> 0 < length (hm_data m1) \<and>
        4 * hm_len m1 \<le> 3 * length (hm_data m1)"
    by blast
  from c show ?thesis
  proof
    assume e: "r1 = Ok () \<and> hm_inv hash m1 \<and> hm_abs m1 = hm_abs m \<and> 0 < length (hm_data m1) \<and>
        4 * hm_len m1 \<le> 3 * length (hm_data m1)"
    then have ok: "cells_ok hash (hm_data m1)" and fr: "hm_abs m1 k = None"
      and len: "length (hm_into_iter m1) \<le> hm_len m1"
      using fresh by (auto simp: hm_inv_def)
    have room: "length (hm_into_iter m1) < length (hm_data m1)" using e len by linarith
    from hm_probe_insert_fresh [OF ok room fr, of v] obtain m2
      where "hm_probe_insert hash m1 k v = Some (m2, Ok None)" "cells_ok hash (hm_data m2)"
        "hm_abs m2 = (hm_abs m1)(k \<mapsto> v)" "length (hm_into_iter m2) = Suc (length (hm_into_iter m1))"
        "hm_len m2 = Suc (hm_len m1)" "length (hm_data m2) = length (hm_data m1)"
      by blast
    with e len m1 show ?thesis by (auto simp: hm_insert_body_def hm_inv_def)
  qed (use m1 in \<open>simp add: hm_insert_body_def\<close>)
qed

text \<open>Any depth from 2 on gives the same insertion, whatever the table.\<close>

lemma hm_insert_eq: "hm_insert grant hash = hm_insert_depth grant hash (Suc (Suc 0))"
  by (simp add: hm_insert_def numeral_2_eq_2)

interpretation hm: key_map "hm_inv hash" hm_abs "hm_insert grant hash" "hm_remove hash"
proof
  fix m k v
  assume "hm_inv hash m" "hm_abs m k = None"
  from hm_insert_fresh [OF this, of grant 0 v]
  show "\<exists>m' r. hm_insert grant hash m k v = Some (m', r) \<and>
      (r = Err OutOfMem \<and> m' = m \<or> r = Ok None \<and> hm_inv hash m' \<and> hm_abs m' = (hm_abs m)(k \<mapsto> v))"
    unfolding hm_insert_eq by blast
qed (simp_all add: hm_remove_eq)

lemma hm_inv_new [simp]: "hm_inv hash hm_new" "hm_abs hm_new = Map.empty"
  by (simp_all add: hm_inv_def hm_new_def hm_into_iter_def cells_ok_def hm_abs_def)

lemma probe_seq_head:
  "0 < n \<Longrightarrow> probe_seq n (k mod n) n = k mod n # probe_seq n ((k mod n + 1) mod n) (n - 1)"
  using probe_seq_Suc [of "k mod n" n "n - 1"] by simp

subsection \<open>Properties\<close>

text \<open>
  C10. The hash map implements a partial map.  In a table that satisfies the invariant, \<open>get\<close>
  returns what the map stores and never reaches the unreachable branch; \<open>remove\<close> returns it
  and deletes exactly that key; inserting an absent key always returns, either having added
  exactly that binding or, only when the heap cannot provide the larger table, with
  \<open>OutOfMem\<close> and the map unchanged.  The invariant is kept in every case.
\<close>

theorem hash_map_refines_map:
  assumes "hm_inv hash m"
  shows "hm_get hash m k = Ok (hm_abs m k) \<and>
    snd (hm_remove hash m k) = hm_abs m k \<and>
    hm_abs (fst (hm_remove hash m k)) = (hm_abs m)(k := None) \<and>
    hm_inv hash (fst (hm_remove hash m k)) \<and>
    (hm_abs m k = None \<longrightarrow>
      (\<exists>m' r. hm_insert grant hash m k v = Some (m', r) \<and> hm_inv hash m' \<and>
        (r = Ok None \<and> hm_abs m' = (hm_abs m)(k \<mapsto> v) \<or>
         r = Err OutOfMem \<and> m' = m \<and> \<not> grant (max 1 (2 * length (hm_data m))))))"
proof (intro conjI impI)
  show "hm_get hash m k = Ok (hm_abs m k)" using assms by (intro hm_get_eq) (simp add: hm_inv_def)
  show "\<exists>m' r. hm_insert grant hash m k v = Some (m', r) \<and> hm_inv hash m' \<and>
        (r = Ok None \<and> hm_abs m' = (hm_abs m)(k \<mapsto> v) \<or>
         r = Err OutOfMem \<and> m' = m \<and> \<not> grant (max 1 (2 * length (hm_data m))))"
    if "hm_abs m k = None"
    using hm_insert_fresh [OF assms that, of grant 0 v] assms unfolding hm_insert_eq by blast
qed (rule hm.rem_value [OF assms] hm.rem_lookup [OF assms] hm.rem_inv [OF assms])+

theorem hash_map_refines_map_witness:
  "hm_get (\<lambda>k. k) (hm_new :: (nat, bool) hash_map) 3 = Ok None \<and>
   (\<exists>m'. hm_insert (\<lambda>c. True) (\<lambda>k. k) (hm_new :: (nat, bool) hash_map) 3 True = Some (m', Ok None) \<and>
      hm_abs m' = [3 \<mapsto> True])"
  using hash_map_refines_map [of "\<lambda>k. k" hm_new 3 "\<lambda>c. True" True] by auto

text \<open>
  C28. Replacing the value of a stored key is not reliable: when the first cell of the key's
  probe sequence is a tombstone, \<open>insert\<close> reuses it without looking further and the key is
  stored twice.  It reports no previous value, and removing the key afterwards brings the old
  value back.
\<close>

theorem insert_over_tombstone_resurrects:
  assumes inv: "hm_inv hash m" and old: "hm_abs m k = Some old"
    and tomb: "hm_data m ! (hash k mod length (hm_data m)) = Deleted"
    and room: "4 * hm_len m \<le> 3 * length (hm_data m)"
  shows "\<exists>m'. hm_insert grant hash m k v = Some (m', Ok None) \<and> hm_get hash m' k = Ok (Some v) \<and>
    snd (hm_remove hash m' k) = Some v \<and> hm_get hash (fst (hm_remove hash m' k)) k = Ok (Some old)"
proof -
  let ?d = "hm_data m" and ?s = "hash k mod length (hm_data m)"
  have ok: "cells_ok hash ?d" using inv by (simp add: hm_inv_def)
  have n: "0 < length ?d" using old hm_abs_Some_iff [OF ok] by fastforce
  define m1 where "m1 = m\<lparr>hm_data := ?d[?s := Occupied k v], hm_len := hm_len m + 1\<rparr>"
  define m2 where "m2 = m\<lparr>hm_len := hm_len m + 1\<rparr>"
  have data: "hm_data m1 = ?d[?s := Occupied k v]" "hm_data m2 = ?d" by (simp_all add: m1_def m2_def)
  have s: "?s < length ?d" and n1: "0 < length (hm_data m1)" using n by (simp_all add: data)
  have ins: "hm_insert grant hash m k v = Some (m1, Ok None)"
    using tomb unfolding hm_insert_eq hm_insert_depth.simps(2) hm_insert_body_no_rehash [OF n room]
      hm_probe_insert_find [OF n] by (simp add: probe_seq_head [OF n] m1_def)
  have idx: "get_index_of_key hash m1 k = Some ?s"
    unfolding get_index_of_key_find [OF n1] using s by (simp add: data probe_seq_head [OF n])
  have "m1\<lparr>hm_data := ?d\<rparr> = m2" by (simp add: m1_def m2_def)
  moreover have "?d[?s := Deleted] = ?d" using tomb by (metis list_update_id)
  ultimately have rem: "hm_remove hash m1 k = (m2, Some v)"
    using s by (simp add: hm_remove_def idx data)
  have "hm_abs m2 k = Some old" using old by (simp add: hm_abs_def hm_into_iter_def data)
  then have "hm_get hash m2 k = Ok (Some old)" using hm_get_eq [of hash m2 k] ok data by simp
  moreover have "hm_get hash m1 k = Ok (Some v)" using s by (simp add: hm_get_def idx data)
  ultimately show ?thesis using ins rem by simp
qed

definition tombstone_example :: "(nat, nat) hash_map" where
  "tombstone_example = \<lparr>hm_data = [Deleted, Occupied 7 1, Empty, Empty], hm_len = 2\<rparr>"

lemma tombstone_example_inv: "hm_inv (\<lambda>k. 0) tombstone_example"
proof -
  let ?d = "[Deleted, Occupied 7 1, Empty, Empty] :: (nat, nat) hm_cell list"
  have "probe_seq 4 0 4 = [0, 1, 2, 3]" by (simp add: probe_seq_def upt_rec)
  moreover have "length ?d = 4" by simp
  ultimately have "hm_path (\<lambda>k. 0) ?d 7 1" unfolding hm_path_def by (simp only: mod_0) simp
  moreover have "i = 1 \<and> k = 7" if "?d ! i = Occupied k v" "i < length ?d" for i k v
    using that by (auto simp: less_Suc_eq)
  ultimately have "cells_ok (\<lambda>k. 0) ?d" unfolding cells_ok_def by auto
  then show ?thesis by (simp add: hm_inv_def tombstone_example_def hm_into_iter_def)
qed

theorem insert_over_tombstone_resurrects_witness:
  "\<exists>m'. hm_insert (\<lambda>c. True) (\<lambda>k. 0) tombstone_example 7 5 = Some (m', Ok None) \<and>
    hm_get (\<lambda>k. 0) (fst (hm_remove (\<lambda>k. 0) m' 7)) 7 = Ok (Some 1)"
  using insert_over_tombstone_resurrects [OF tombstone_example_inv, of 7 1 "\<lambda>c. True" 5]
  by (auto simp: hm_abs_def hm_into_iter_def tombstone_example_def)

text \<open>
  \<open>clear\<close> empties the table but keeps \<open>len\<close>.  The next insertion into a cleared map that
  held anything doubles a table of no cells and then divides by its length: it panics.
\<close>

theorem insert_after_clear_panics:
  assumes "0 < hm_len m" and "grant 0"
  shows "\<exists>m'. hm_insert grant hash (hm_clear m) k v = Some (m', Panic)"
  using assms
  by (simp add: hm_insert_eq hm_insert_body_def hm_try_rehash_def hm_clear_def hm_into_iter_def
      hm_try_with_capacity_def hm_probe_insert_def get_key_start_index_def)

theorem insert_after_clear_panics_witness:
  "\<exists>m'. hm_insert (\<lambda>c. True) (\<lambda>k. 0) (hm_clear tombstone_example) 1 2 = Some (m', Panic)"
  using insert_after_clear_panics [of tombstone_example "\<lambda>c. True"]
  by (simp add: tombstone_example_def)

end
