(* ===== verification/Bit_Utils.thy ===== *)
theory Bit_Utils
  imports Prelude
begin

text \<open>
  \<^verbatim>\<open>userland/bit_utils/src/lib.rs\<close> and \<^verbatim>\<open>size.rs\<close>: alignment, bit extraction and binary
  logarithms on machine words, and the \<^verbatim>\<open>Size\<close> newtype.  The two instructions the code
  reaches through \<^verbatim>\<open>asm!\<close> are the functions \<open>bsf\<close> (index of the lowest set bit) and
  \<open>bsr\<close> (index of the highest one).  The lemmas give each function its arithmetic meaning.
\<close>

named_theorems bit_utils_eqs \<open>arithmetic meaning of the bit manipulation functions\<close>

definition PAGE_SIZE :: usize where
  "PAGE_SIZE = 4096"

definition LOWER_HALF_END :: usize where
  "LOWER_HALF_END = 0x7fffffffffff + 1"

definition HIGHER_HALF_START :: usize where
  "HIGHER_HALF_START = 0xffff800000000000"

definition KERNEL_RESERVED_START :: usize where
  "KERNEL_RESERVED_START = 0xffffff8000000000"

subsection \<open>Alignment\<close>

definition align_up :: "usize \<Rightarrow> usize \<Rightarrow> usize kresult" where
  "align_up addr align =
     rbind (uadd addr align) (\<lambda>s. rbind (usub s 1) (\<lambda>x. rbind (usub align 1) (\<lambda>m.
       Ok (x AND unot m))))"

definition align_down :: "usize \<Rightarrow> usize \<Rightarrow> usize kresult" where
  "align_down addr align = rbind (usub align 1) (\<lambda>m. Ok (addr AND unot m))"

fun bsf :: "nat \<Rightarrow> nat" where
  "bsf n = (if n = 0 \<or> odd n then 0 else Suc (bsf (n div 2)))"

declare bsf.simps [simp del]

definition align_of :: "usize \<Rightarrow> usize" where
  "align_of addr = (if addr = 0 then 2 ^ 63 else 2 ^ bsf addr)"

definition page_aligned :: "usize \<Rightarrow> bool" where
  "page_aligned addr \<longleftrightarrow> PAGE_SIZE \<le> align_of addr"

subsection \<open>Extracting bits\<close>

definition get_bits :: "usize \<Rightarrow> nat \<Rightarrow> nat \<Rightarrow> usize" where
  "get_bits n start end' =
     (if end' = 0 then 0 else
      let l = (if 63 < start then 63 else start);
          h = (if 64 < end' then 63 else end' - 1) in
      if h < l then 0 else
      let temp = (if h = 63 then usize_limit - 1 else 2 ^ (h + 1) - 1) in
      drop_bit l (temp AND n))"

definition get_bits_raw :: "usize \<Rightarrow> nat \<Rightarrow> nat \<Rightarrow> usize" where
  "get_bits_raw n start end' =
     (let l = (if 63 < start then 63 else start);
          h = (if 63 < end' then 63 else end') in
      if h \<le> l then 0 else
      let temp = (if h = 63 then usize_limit - 1 else 2 ^ (h + 1) - 1) in
      ushl (drop_bit l (temp AND n)) l)"

subsection \<open>Logarithms\<close>

fun bsr :: "nat \<Rightarrow> nat" where
  "bsr n = (if n < 2 then 0 else Suc (bsr (n div 2)))"

declare bsr.simps [simp del]

definition log2 :: "usize \<Rightarrow> nat" where
  "log2 n = (if n = 0 then 0 else bsr n)"

definition log2_up :: "usize \<Rightarrow> nat kresult" where
  "log2_up n = (if n = 1 then Ok 1 else rbind (align_up n (2 ^ log2 n)) (\<lambda>a. Ok (log2 a)))"

text \<open>
  The constant-evaluable version counts upwards.  The loop is run with fuel; \<open>None\<close> is
  a loop that has not stopped yet.
\<close>

fun log2_const_loop :: "nat \<Rightarrow> usize \<Rightarrow> nat \<Rightarrow> nat option" where
  "log2_const_loop 0 n out = None"
| "log2_const_loop (Suc fuel) n out =
     (if 0 < get_bits n out 64 then log2_const_loop fuel n (out + 1) else Some out)"

definition log2_const :: "nat \<Rightarrow> usize \<Rightarrow> nat option" where
  "log2_const fuel n =
     (if n = 0 then Some 0 else map_option (\<lambda>out. out - 1) (log2_const_loop fuel n 0))"

definition log2_up_const :: "nat \<Rightarrow> usize \<Rightarrow> nat option kresult" where
  "log2_up_const fuel n =
     (if n = 1 then Ok (Some 1) else
      case log2_const fuel n of
        None \<Rightarrow> Ok None
      | Some l \<Rightarrow> rbind (align_up n (2 ^ l)) (\<lambda>a. Ok (log2_const fuel a)))"

subsection \<open>Size\<close>

text \<open>\<^verbatim>\<open>Size\<close> is a newtype of \<^verbatim>\<open>usize\<close> that counts bytes; the derived arithmetic is that of \<^verbatim>\<open>usize\<close>.\<close>

type_synonym Size = usize

definition try_from_pages :: "usize \<Rightarrow> Size option" where
  "try_from_pages pages = (if pages * PAGE_SIZE < usize_limit then Some (pages * PAGE_SIZE) else None)"

definition from_pages :: "usize \<Rightarrow> Size kresult" where
  "from_pages pages = expect (try_from_pages pages)"

definition bytes_aligned :: "Size \<Rightarrow> usize kresult" where
  "bytes_aligned s = align_up s PAGE_SIZE"

definition as_aligned :: "Size \<Rightarrow> Size kresult" where
  "as_aligned s = bytes_aligned s"

definition pages :: "Size \<Rightarrow> usize option" where
  "pages s = (if page_aligned s then Some (s div PAGE_SIZE) else None)"

definition pages_rounded :: "Size \<Rightarrow> usize kresult" where
  "pages_rounded s = rbind (bytes_aligned s) (\<lambda>b. Ok (b div PAGE_SIZE))"

definition is_page_aligned :: "Size \<Rightarrow> bool" where
  "is_page_aligned s = page_aligned s"

subsection \<open>Arithmetic meaning\<close>

lemma exp_minus_1_mask: "2 ^ k - Suc 0 = mask k"
  by (simp add: mask_eq_exp_minus_1)

lemma bit_less_exp: "(a :: nat) < 2 ^ k \<Longrightarrow> bit a i \<Longrightarrow> i < k"
  by (metis bit_take_bit_iff take_bit_nat_eq_self)

text \<open>Fields that do not overlap: joining them is adding them.\<close>

lemma OR_shift_eq_add:
  assumes "a < 2 ^ k"
  shows "a OR 2 ^ k * b = a + 2 ^ k * (b :: nat)"
proof -
  have "a AND 2 ^ k * b = 0"
    using bit_less_exp [OF assms]
    by (intro bit_eqI) (force simp: bit_and_iff push_bit_eq_mult [symmetric] mult.commute bit_push_bit_iff)
  then show ?thesis by (simp add: disjunctive_add_eq_or)
qed

lemma and_unot_mask:
  assumes "a < usize_limit"
  shows "a AND unot (mask k) = a - a mod 2 ^ k"
proof -
  have "a AND unot (mask k) = push_bit k (drop_bit k a)"
  proof (rule bit_eqI)
    fix i
    show "bit (a AND unot (mask k)) i = bit (push_bit k (drop_bit k a)) i"
      using bit_usize_bound [OF assms, of i] by (auto simp: bit_simps bit_unot)
  qed
  also have "\<dots> = a - a mod 2 ^ k"
    by (simp add: push_bit_eq_mult drop_bit_eq_div minus_mod_eq_mult_div)
  finally show ?thesis .
qed

lemma align_down_eq [bit_utils_eqs]:
  assumes "a < usize_limit" and "k < 64"
  shows "align_down a (2 ^ k) = Ok (a - a mod 2 ^ k)"
proof -
  have "usub (2 ^ k) 1 = Ok (mask k)" by (simp add: usub_def exp_minus_1_mask)
  with assms show ?thesis by (simp add: align_down_def and_unot_mask)
qed

lemma align_up_eq [bit_utils_eqs]:
  assumes "k < 64" and "a + 2 ^ k < usize_limit"
  shows "align_up a (2 ^ k) = Ok ((a + 2 ^ k - 1) div 2 ^ k * 2 ^ k)"
proof -
  have "1 \<le> a + 2 ^ k" by (simp add: Suc_le_eq)
  then have "align_up a (2 ^ k) = Ok ((a + 2 ^ k - 1) AND unot (mask k))"
    using assms(2) by (simp add: align_up_def uadd_def usub_def exp_minus_1_mask)
  also have "(a + 2 ^ k - 1) AND unot (mask k) = (a + 2 ^ k - 1) - (a + 2 ^ k - 1) mod 2 ^ k"
    using assms by (intro and_unot_mask) auto
  finally show ?thesis by (simp add: minus_mod_eq_div_mult)
qed

lemma align_up_Panic: "usize_limit \<le> a + n \<Longrightarrow> align_up a n = Panic"
  by (simp add: align_up_def uadd_def)

lemma ceil_div_bounds:
  fixes a n :: nat
  assumes "0 < n"
  shows "a \<le> (a + n - 1) div n * n" and "(a + n - 1) div n * n < a + n"
    and "n dvd (a + n - 1) div n * n"
proof -
  have *: "(a + n - 1) div n * n + (a + n - 1) mod n = a + n - 1" by simp
  have "(a + n - 1) mod n < n" using assms by simp
  with * show "a \<le> (a + n - 1) div n * n" by linarith
  from * assms show "(a + n - 1) div n * n < a + n" by linarith
qed simp

lemma bsf_dvd: "n \<noteq> 0 \<Longrightarrow> 2 ^ k dvd n \<longleftrightarrow> k \<le> bsf n"
proof (induction n arbitrary: k rule: bsf.induct)
  case (1 n)
  show ?case
  proof (cases "odd n")
    case True
    then show ?thesis by (cases k) (auto simp: bsf.simps [of n] dest: dvd_mult_left)
  next
    case False
    then obtain m where m: "n = 2 * m" "m \<noteq> 0" using "1.prems" by auto
    show ?thesis
    proof (cases k)
      case (Suc j)
      with m "1.IH" [of j] "1.prems" False show ?thesis
        by (subst bsf.simps) simp
    qed simp
  qed
qed

text \<open>\<open>align_of\<close> is the largest power of two that divides a non-zero word.\<close>

lemma align_of_dvd:
  assumes "a < usize_limit" and "k \<le> 63"
  shows "2 ^ k \<le> align_of a \<longleftrightarrow> 2 ^ k dvd a"
proof (cases "a = 0")
  case True
  have "(2 :: nat) ^ k \<le> 2 ^ 63" using assms(2) by (rule power_increasing) simp
  with True show ?thesis by (simp add: align_of_def)
qed (simp add: align_of_def bsf_dvd)

lemma bsf_bound: "n \<noteq> 0 \<Longrightarrow> 2 ^ bsf n \<le> n"
  using bsf_dvd [of n "bsf n"] by (simp add: dvd_imp_le)

lemma align_of_power2: "\<exists>k. align_of a = 2 ^ k"
  unfolding align_of_def by (metis (full_types))

lemma align_of_dvd_self: "align_of a dvd a"
  by (auto simp: align_of_def bsf_dvd)

lemma page_aligned_iff: "a < usize_limit \<Longrightarrow> page_aligned a \<longleftrightarrow> PAGE_SIZE dvd a"
  using align_of_dvd [of a 12] by (simp add: page_aligned_def PAGE_SIZE_def)

lemma get_bits_eq [bit_utils_eqs]:
  assumes "l < h" and "h \<le> 64"
  shows "get_bits n l h = n mod 2 ^ h div 2 ^ l"
proof -
  have m: "(if h - 1 = 63 then usize_limit - 1 else 2 ^ (h - 1 + 1) - 1) = mask h"
  proof (cases "h = 64")
    case False
    with assms have "h - 1 \<noteq> 63" by linarith
    with assms show ?thesis by (simp add: mask_eq_exp_minus_1)
  qed (simp add: mask_eq_exp_minus_1)
  have "get_bits n l h = drop_bit l ((if h - 1 = 63 then usize_limit - 1 else 2 ^ (h - 1 + 1) - 1) AND n)"
    using assms by (auto simp: get_bits_def Let_def)
  also have "\<dots> = drop_bit l (take_bit h n)"
    unfolding m by (simp add: take_bit_eq_mask and.commute)
  finally show ?thesis by (simp add: drop_bit_eq_div take_bit_eq_mod)
qed

lemma bsr_bounds: "0 < n \<Longrightarrow> 2 ^ bsr n \<le> n \<and> n < 2 * 2 ^ bsr n"
proof (induction n rule: bsr.induct)
  case (1 n)
  show ?case
  proof (cases "n < 2")
    case True
    with "1.prems" have "n = 1" by simp
    then show ?thesis by (simp add: bsr.simps [of "Suc 0"])
  next
    case False
    with "1.IH" have "2 ^ bsr (n div 2) \<le> n div 2 \<and> n div 2 < 2 * 2 ^ bsr (n div 2)" by simp
    with False show ?thesis by (subst (1 2) bsr.simps) auto
  qed
qed

lemma log2_bounds: "0 < n \<Longrightarrow> 2 ^ log2 n \<le> n" "0 < n \<Longrightarrow> n < 2 ^ Suc (log2 n)"
  using bsr_bounds [of n] by (simp_all add: log2_def)

lemma log2_ge_iff:
  assumes "0 < n"
  shows "k \<le> log2 n \<longleftrightarrow> 2 ^ k \<le> n"
proof
  assume "k \<le> log2 n"
  then have "(2 :: nat) ^ k \<le> 2 ^ log2 n" by (rule power_increasing) simp
  with log2_bounds(1) [OF assms] show "2 ^ k \<le> n" by (rule le_trans [rotated])
next
  assume "2 ^ k \<le> n"
  then have "(2 :: nat) ^ k < 2 ^ Suc (log2 n)" using log2_bounds(2) [OF assms] by (rule le_less_trans)
  then show "k \<le> log2 n" by (simp only: power_strict_increasing_iff one_less_numeral_iff semiring_norm less_Suc_eq_le)
qed

lemma log2_unique:
  assumes "2 ^ k \<le> n" and "n < 2 ^ Suc k"
  shows "log2 n = k"
proof -
  have n: "0 < n" using assms(1) by (metis gr_zeroI not_less zero_less_numeral zero_less_power)
  have "\<not> Suc k \<le> log2 n" using log2_ge_iff [OF n, of "Suc k"] assms(2) by simp
  moreover have "k \<le> log2 n" using log2_ge_iff [OF n, of k] assms(1) by simp
  ultimately show ?thesis by simp
qed

lemma log2_power [simp]: "log2 (2 ^ k) = k"
  by (rule log2_unique) auto

lemma log2_mono: "0 < m \<Longrightarrow> m \<le> n \<Longrightarrow> log2 m \<le> log2 n"
  using log2_ge_iff [of n "log2 m"] log2_bounds(1) [of m] by simp

lemma log2_less: "n < 2 ^ k \<Longrightarrow> 0 < k \<Longrightarrow> log2 n < k"
  using log2_ge_iff [of n k] by (cases "n = 0") (auto simp: log2_def)

lemma log2_up_power2 [simp]: "2 ^ k + 2 ^ k < usize_limit \<Longrightarrow> 0 < k \<Longrightarrow> log2_up (2 ^ k) = Ok k"
proof -
  assume a: "2 ^ k + 2 ^ k < usize_limit" "0 < k"
  have "k < 64"
    using a(1) by (metis add_lessD1 power_strict_increasing_iff one_less_numeral_iff semiring_norm(76))
  moreover have "(2 ^ k + 2 ^ k - 1) div 2 ^ k = (1 :: nat)"
    by (rule div_nat_eqI) (auto simp: Suc_le_eq)
  ultimately have "align_up (2 ^ k) (2 ^ k) = Ok (2 ^ k)"
    using align_up_eq [OF _ a(1)] by simp
  moreover have "(2 :: nat) ^ k \<noteq> 1" using a(2) by simp
  ultimately show ?thesis by (simp add: log2_up_def del: One_nat_def)
qed

text \<open>Rounding up to a multiple of the largest power of two below \<open>n\<close> gives the next power.\<close>

lemma align_up_log2:
  assumes "2 ^ j < n" and "n < 2 ^ Suc j" and "n + 2 ^ j < usize_limit" and "j < 64"
  shows "align_up n (2 ^ j) = Ok (2 ^ Suc j)"
proof -
  have "(n + 2 ^ j - 1) div 2 ^ j = 2"
    using assms(1,2) by (intro div_nat_eqI) (auto simp: Suc_le_eq)
  with align_up_eq [OF assms(4,3)] show ?thesis by simp
qed

lemma log2_up_eq:
  assumes "2 \<le> n" and "n + 2 ^ log2 n < usize_limit"
  shows "\<exists>r. log2_up n = Ok r \<and> n \<le> 2 ^ r \<and> 2 ^ r < 2 * n"
proof -
  have n: "0 < n" using assms(1) by simp
  have j: "log2 n < 64"
    using log2_less [of n 64] assms(2) by simp
  show ?thesis
  proof (cases "n = 2 ^ log2 n")
    case True
    have "0 < log2 n" using log2_ge_iff [OF n, of 1] assms(1) by simp
    then have "log2_up n = Ok (log2 n)" using log2_up_power2 [of "log2 n"] True assms(2) by metis
    then show ?thesis using True n by (metis le_refl less_add_same_cancel1 mult_2)
  next
    case False
    then have "2 ^ log2 n < n" using log2_bounds(1) [OF n] by simp
    with log2_bounds(2) [OF n] assms(2) j have "align_up n (2 ^ log2 n) = Ok (2 ^ Suc (log2 n))"
      by (intro align_up_log2) auto
    then have "log2_up n = Ok (Suc (log2 n))"
      using assms(1) log2_power [of "Suc (log2 n)"] by (simp add: log2_up_def del: log2_power)
    moreover have "n \<le> 2 ^ Suc (log2 n)" using log2_bounds(2) [OF n] by simp
    moreover have "(2 :: nat) ^ Suc (log2 n) < 2 * n" using \<open>2 ^ log2 n < n\<close> by simp
    ultimately show ?thesis by blast
  qed
qed

lemma get_bits_upto_64_pos:
  assumes "n < usize_limit" and "i < 64"
  shows "0 < get_bits n i 64 \<longleftrightarrow> 2 ^ i \<le> n"
  using assms by (simp add: get_bits_eq div_greater_zero_iff)

lemma get_bits_at_64:
  assumes "n < usize_limit" and "64 \<le> i"
  shows "get_bits n i 64 = n div 2 ^ 63"
proof -
  have "(usize_limit - 1) AND n = take_bit 64 n"
    by (simp add: take_bit_eq_mask mask_eq_exp_minus_1 and.commute)
  also have "\<dots> = n" using assms(1) by (simp add: take_bit_nat_eq_self)
  finally show ?thesis using assms(2) by (simp add: get_bits_def Let_def drop_bit_eq_div)
qed

lemma log2_const_loop_eq:
  assumes "0 < n" and "n < 2 ^ 63" and "i \<le> Suc (log2 n)" and "Suc (log2 n) - i < fuel"
  shows "log2_const_loop fuel n i = Some (Suc (log2 n))"
  using assms(3,4)
proof (induction fuel arbitrary: i)
  case (Suc fuel)
  have l: "Suc (log2 n) < 64" using log2_less [of n 63] assms(2) by simp
  have "0 < get_bits n i 64 \<longleftrightarrow> i \<le> log2 n"
    using get_bits_upto_64_pos [of n i] log2_ge_iff [OF assms(1), of i] assms(2) Suc.prems(1) l by simp
  with Suc show ?case by (cases "i \<le> log2 n") auto
qed simp

lemma log2_const_loop_diverges:
  assumes "2 ^ 63 \<le> n" and "n < usize_limit"
  shows "log2_const_loop fuel n i = None"
proof (induction fuel arbitrary: i)
  case (Suc fuel)
  have "0 < get_bits n i 64"
  proof (cases "i < 64")
    case True
    then have "(2 :: nat) ^ i \<le> 2 ^ 63" by (intro power_increasing) auto
    with True assms show ?thesis by (simp add: get_bits_upto_64_pos)
  next
    case False
    with assms show ?thesis by (simp add: get_bits_at_64 div_greater_zero_iff)
  qed
  with Suc show ?case by simp
qed simp

subsection \<open>Properties\<close>

text \<open>
  C24. For a power of two \<open>2 ^ k\<close>, \<open>align_down\<close> returns the greatest multiple not above the
  address, and \<open>align_up\<close> the least multiple not below it, except that an address within
  one alignment of the end of the word panics instead of wrapping round to zero.
\<close>

theorem align_spec:
  assumes "a < usize_limit" and "k < 64"
  shows "(\<exists>d. align_down a (2 ^ k) = Ok d \<and> 2 ^ k dvd d \<and> d \<le> a \<and> a < d + 2 ^ k) \<and>
    (if a + 2 ^ k < usize_limit
     then \<exists>u. align_up a (2 ^ k) = Ok u \<and> 2 ^ k dvd u \<and> a \<le> u \<and> u < a + 2 ^ k
     else align_up a (2 ^ k) = Panic)"
proof -
  have "a - a mod 2 ^ k \<le> a \<and> a < a - a mod 2 ^ k + 2 ^ k"
    by (metis add_less_cancel_left diff_le_self le_add_diff_inverse2 mod_less_divisor mod_less_eq_dividend
        zero_less_numeral zero_less_power)
  moreover have "2 ^ k dvd a - a mod 2 ^ k" by (simp add: dvd_minus_mod)
  ultimately show ?thesis
    using align_down_eq [OF assms] align_up_eq [OF assms(2)] ceil_div_bounds [of "2 ^ k" a]
    by (auto simp: align_up_Panic not_less)
qed

theorem align_spec_witness:
  "(0x1234 :: nat) < usize_limit \<and> (12 :: nat) < 64 \<and>
   align_down 0x1234 (2 ^ 12) = Ok 0x1000 \<and> align_up 0x1234 (2 ^ 12) = Ok 0x2000"
proof -
  have "\<exists>d. align_down 0x1234 (2 ^ 12) = Ok d \<and> 2 ^ 12 dvd d \<and> d \<le> 0x1234 \<and> 0x1234 < d + 2 ^ 12"
    and "\<exists>u. align_up 0x1234 (2 ^ 12) = Ok u \<and> 2 ^ 12 dvd u \<and> 0x1234 \<le> u \<and> u < 0x1234 + 2 ^ 12"
    using align_spec [of "0x1234" 12] by simp_all
  then show ?thesis by auto
qed

text \<open>
  C26. \<open>log2_const\<close> returns the floor of the binary logarithm after at most 65 rounds for
  every word below \<open>2 ^ 63\<close>, and never stops when the top bit of the word is set:
  \<open>get_bits\<close> clamps a start position beyond 63 to 63, so the loop condition stays true.
\<close>

theorem log2_const_total:
  assumes "n < usize_limit"
  shows "(n < 2 ^ 63 \<and> 65 \<le> fuel \<longrightarrow> log2_const fuel n = Some (log2 n)) \<and>
    (2 ^ 63 \<le> n \<longrightarrow> log2_const fuel n = None)"
proof -
  have "log2_const fuel n = Some (log2 n)" if "n < 2 ^ 63" "65 \<le> fuel" "0 < n"
  proof -
    have "Suc (log2 n) - 0 < fuel" using log2_less [of n 63] that by simp
    then show ?thesis using log2_const_loop_eq [of n 0 fuel] that by (simp add: log2_const_def)
  qed
  moreover have "log2_const fuel n = None" if "2 ^ 63 \<le> n"
    using log2_const_loop_diverges [of n fuel 0] that assms by (simp add: log2_const_def)
  ultimately show ?thesis by (cases "n = 0") (simp_all add: log2_const_def log2_def)
qed

theorem log2_const_total_witness:
  "(5 :: nat) < usize_limit \<and> log2_const 65 5 = Some 2 \<and>
   (2 :: nat) ^ 63 < usize_limit \<and> log2_const 65 (2 ^ 63) = None"
proof -
  have "log2 5 = 2" by (rule log2_unique) simp_all
  then show ?thesis using log2_const_total [of 5 65] log2_const_total [of "2 ^ 63" 65] by simp
qed

end
