(* ===== verification/Cap_Id.thy ===== *)
theory Cap_Id
  imports Bit_Utils
begin

text \<open>
  Capability identifiers, \<^verbatim>\<open>userland/sys/src/cap.rs\<close> (shared by the kernel and user space), and
  the option words of the capability system calls, \<^verbatim>\<open>userland/sys/src/flags.rs\<close>.

  A \<open>CapId\<close> is one machine word: bits 0 to 3 are the permissions, bit 4 says whether the
  capability is weak, bits 5 to 9 hold the object type and the bits from 10 on a number that
  is unique within a capability space.  A \<open>CapFlags\<close> value is its \<open>bits()\<close>.
\<close>

subsection \<open>Permissions\<close>

type_synonym CapFlags = usize

definition CapFlags_READ :: CapFlags where "CapFlags_READ = 1"

definition CapFlags_PROD :: CapFlags where "CapFlags_PROD = 2"

definition CapFlags_WRITE :: CapFlags where "CapFlags_WRITE = 4"

definition CapFlags_UPGRADE :: CapFlags where "CapFlags_UPGRADE = 8"

text \<open>The operations that \<^verbatim>\<open>bitflags!\<close> derives: truncation to the declared bits, inclusion.\<close>

definition CapFlags_from_bits_truncate :: "usize \<Rightarrow> CapFlags" where
  "CapFlags_from_bits_truncate n = n AND (CapFlags_READ OR CapFlags_PROD OR CapFlags_WRITE OR CapFlags_UPGRADE)"

definition flags_contains :: "nat \<Rightarrow> nat \<Rightarrow> bool" where
  "flags_contains f g \<longleftrightarrow> f AND g = g"

subsection \<open>Object types\<close>

datatype CapType =
    CT_Thread | CT_ThreadGroup | CT_AddressSpace | CT_CapabilitySpace | CT_Memory | CT_Lock
  | CT_EventPool | CT_Channel | CT_Reply | CT_MessageCapacity | CT_Key | CT_Allocator
  | CT_DropCheck | CT_DropCheckReciever | CT_RootOom | CT_MmioAllocator | CT_PhysMem
  | CT_IntAllocator | CT_Interrupt

fun CapType_as_usize :: "CapType \<Rightarrow> usize" where
  "CapType_as_usize CT_Thread = 1"
| "CapType_as_usize CT_ThreadGroup = 2"
| "CapType_as_usize CT_AddressSpace = 3"
| "CapType_as_usize CT_CapabilitySpace = 4"
| "CapType_as_usize CT_Memory = 5"
| "CapType_as_usize CT_Lock = 6"
| "CapType_as_usize CT_EventPool = 7"
| "CapType_as_usize CT_Channel = 8"
| "CapType_as_usize CT_Reply = 9"
| "CapType_as_usize CT_MessageCapacity = 10"
| "CapType_as_usize CT_Key = 11"
| "CapType_as_usize CT_Allocator = 12"
| "CapType_as_usize CT_DropCheck = 13"
| "CapType_as_usize CT_DropCheckReciever = 14"
| "CapType_as_usize CT_RootOom = 15"
| "CapType_as_usize CT_MmioAllocator = 16"
| "CapType_as_usize CT_PhysMem = 17"
| "CapType_as_usize CT_IntAllocator = 18"
| "CapType_as_usize CT_Interrupt = 19"

definition CapType_from :: "usize \<Rightarrow> CapType option" where
  "CapType_from n =
     (if n = 1 then Some CT_Thread else if n = 2 then Some CT_ThreadGroup
      else if n = 3 then Some CT_AddressSpace else if n = 4 then Some CT_CapabilitySpace
      else if n = 5 then Some CT_Memory else if n = 6 then Some CT_Lock
      else if n = 7 then Some CT_EventPool else if n = 8 then Some CT_Channel
      else if n = 9 then Some CT_Reply else if n = 10 then Some CT_MessageCapacity
      else if n = 11 then Some CT_Key else if n = 12 then Some CT_Allocator
      else if n = 13 then Some CT_DropCheck else if n = 14 then Some CT_DropCheckReciever
      else if n = 15 then Some CT_RootOom else if n = 16 then Some CT_MmioAllocator
      else if n = 17 then Some CT_PhysMem else if n = 18 then Some CT_IntAllocator
      else if n = 19 then Some CT_Interrupt else None)"

subsection \<open>Identifiers\<close>

type_synonym CapId = usize

definition CapId_try_from :: "usize \<Rightarrow> CapId option" where
  "CapId_try_from n = (case CapType_from (get_bits n 5 10) of None \<Rightarrow> None | Some _ \<Rightarrow> Some n)"

definition CapId_new :: "CapType \<Rightarrow> CapFlags \<Rightarrow> bool \<Rightarrow> usize \<Rightarrow> CapId" where
  "CapId_new cap_type flags is_weak base_id =
     ((flags OR ushl (of_bool is_weak) 4) OR ushl (CapType_as_usize cap_type) 5) OR ushl base_id 10"

definition CapId_null_flags :: "CapFlags \<Rightarrow> bool \<Rightarrow> CapId" where
  "CapId_null_flags flags is_weak = flags OR ushl (of_bool is_weak) 4"

definition CapId_null :: CapId where
  "CapId_null = 0"

definition CapId_is_null :: "CapId \<Rightarrow> bool" where
  "CapId_is_null c \<longleftrightarrow> c = 0"

definition CapId_flags :: "CapId \<Rightarrow> CapFlags" where
  "CapId_flags c = CapFlags_from_bits_truncate c"

definition CapId_is_weak :: "CapId \<Rightarrow> bool" where
  "CapId_is_weak c \<longleftrightarrow> get_bits c 4 5 = 1"

definition CapId_cap_type :: "CapId \<Rightarrow> CapType kresult" where
  "CapId_cap_type c = expect (CapType_from (get_bits c 5 10))"

subsection \<open>Option words of the capability system calls\<close>

definition CapCloneFlags_from_bits_truncate :: "nat \<Rightarrow> nat" where
  "CapCloneFlags_from_bits_truncate n = n AND mask 9"

definition CapDestroyFlags_from_bits_truncate :: "nat \<Rightarrow> nat" where
  "CapDestroyFlags_from_bits_truncate n = n AND mask 1"

definition CHANGE_CAP_WEAKNESS :: nat where "CHANGE_CAP_WEAKNESS = 2 ^ 4"

definition MAKE_WEAK :: nat where "MAKE_WEAK = 2 ^ 5"

definition DESTROY_SRC_CAP :: nat where "DESTROY_SRC_CAP = 2 ^ 6"

definition SRC_CSPACE_SELF :: nat where "SRC_CSPACE_SELF = 2 ^ 7"

definition DST_CSPACE_SELF :: nat where "DST_CSPACE_SELF = 2 ^ 8"

definition CSPACE_SELF :: nat where "CSPACE_SELF = 1"

definition CapFlags_from_clone_flags :: "nat \<Rightarrow> CapFlags" where
  "CapFlags_from_clone_flags v =
     (let out = 0;
          out = (if flags_contains v 1 then out OR CapFlags_READ else out);
          out = (if flags_contains v 2 then out OR CapFlags_PROD else out);
          out = (if flags_contains v 4 then out OR CapFlags_WRITE else out)
      in if flags_contains v 8 then out OR CapFlags_UPGRADE else out)"

definition is_option_set :: "nat \<Rightarrow> nat \<Rightarrow> bool" where
  "is_option_set options b \<longleftrightarrow> options AND b \<noteq> 0"

definition options_weak_autodestroy :: "nat \<Rightarrow> bool" where
  "options_weak_autodestroy options = is_option_set options (2 ^ 31)"

subsection \<open>Facts\<close>

text \<open>The permission sets are the numbers below 16, closed under intersection.\<close>

lemma all_flags: "CapFlags_READ OR CapFlags_PROD OR CapFlags_WRITE OR CapFlags_UPGRADE = (15 :: nat)"
  by (simp add: CapFlags_READ_def CapFlags_PROD_def CapFlags_WRITE_def CapFlags_UPGRADE_def)

lemma flags_truncate_eq: "CapFlags_from_bits_truncate n = n mod 16"
proof -
  have "CapFlags_from_bits_truncate n = n AND mask 4"
    by (simp add: CapFlags_from_bits_truncate_def all_flags mask_eq_exp_minus_1)
  then show ?thesis by (simp add: take_bit_eq_mask [symmetric] take_bit_eq_mod)
qed

lemma flags_contains_refl [simp]: "flags_contains f f"
  by (simp add: flags_contains_def)

lemma flags_contains_trans: "flags_contains f g \<Longrightarrow> flags_contains g h \<Longrightarrow> flags_contains f h"
  by (metis and.assoc flags_contains_def)

lemma flags_contains_and [simp]: "flags_contains f (f AND g)" "flags_contains g (f AND g)"
  by (simp_all add: flags_contains_def and.assoc [symmetric], simp add: and.left_commute and.commute)

lemma flags_contains_bit: "flags_contains f g \<longleftrightarrow> (\<forall>i. bit g i \<longrightarrow> bit f i)"
  by (auto simp: flags_contains_def bit_eq_iff bit_and_iff)

lemma and_less_flags:
  assumes "a < 16"
  shows "a AND b < (16 :: nat)"
proof -
  have "take_bit 4 (a AND b) = a AND take_bit 4 b"
    using assms take_bit_nat_eq_self [of a 4] by simp
  also have "\<dots> = a AND b"
    using assms take_bit_nat_eq_self [of a 4]
    by (simp add: bit_eq_iff bit_and_iff bit_take_bit_iff) (metis bit_take_bit_iff)
  finally show ?thesis using take_bit_nat_less_exp [of 4 "a AND b"] by simp
qed

lemma ushl_eq: "x * 2 ^ k < usize_limit \<Longrightarrow> ushl x k = 2 ^ k * x"
  by (simp add: ushl_def push_bit_eq_mult take_bit_nat_eq_self mult.commute)

lemma CapType_as_usize_bounds: "0 < CapType_as_usize t" "CapType_as_usize t < 20"
  by (cases t; simp)+

lemma CapType_from_as_usize [simp]: "CapType_from (CapType_as_usize t) = Some t"
  by (cases t) (simp_all add: CapType_from_def)

lemma CapType_as_usize_inj: "CapType_as_usize t = CapType_as_usize u \<Longrightarrow> t = u"
  by (metis CapType_from_as_usize option.inject)

lemma CapType_from_Some_iff: "CapType_from n = Some t \<longleftrightarrow> n = CapType_as_usize t"
proof
  assume "CapType_from n = Some t"
  then show "n = CapType_as_usize t" by (auto simp: CapType_from_def split: if_splits)
qed simp

definition cap_id_wf :: "CapFlags \<Rightarrow> usize \<Rightarrow> bool" where
  "cap_id_wf flags base_id \<longleftrightarrow> flags < 16 \<and> base_id < 2 ^ 54"

lemma CapId_null_flags_eq:
  assumes "flags < 16"
  shows "CapId_null_flags flags w = flags + 16 * of_bool w"
proof -
  have "ushl (of_bool w) 4 = 2 ^ 4 * of_bool w" by (rule ushl_eq) simp
  with assms OR_shift_eq_add [of flags 4 "of_bool w"] show ?thesis
    by (simp add: CapId_null_flags_def)
qed

lemma CapId_new_eq:
  assumes "cap_id_wf flags base"
  shows "CapId_new t flags w base = flags + 16 * of_bool w + 32 * CapType_as_usize t + 1024 * base"
proof -
  let ?n = "flags + 16 * of_bool w" and ?t = "CapType_as_usize t"
  have fl: "flags < 16" and b: "base < 2 ^ 54" using assms by (simp_all add: cap_id_wf_def)
  have t: "?t < 20" by (rule CapType_as_usize_bounds)
  have n: "?n < 2 ^ 5" using fl by (cases w) simp_all
  have m: "?n + 2 ^ 5 * ?t < 2 ^ 10" using n t by simp
  have "ushl ?t 5 = 2 ^ 5 * ?t" and "ushl base 10 = 2 ^ 10 * base"
    using t b by (intro ushl_eq; simp)+
  moreover have "flags OR ushl (of_bool w) 4 = ?n"
    using CapId_null_flags_eq [OF fl] by (simp add: CapId_null_flags_def)
  ultimately have "CapId_new t flags w base = (?n OR 2 ^ 5 * ?t) OR 2 ^ 10 * base"
    by (simp only: CapId_new_def)
  also have "\<dots> = ?n + 2 ^ 5 * ?t + 2 ^ 10 * base"
    by (simp only: OR_shift_eq_add [OF n] OR_shift_eq_add [OF m])
  finally show ?thesis by simp
qed

lemma CapId_flags_less [simp]: "CapId_flags c < 16"
  by (simp add: CapId_flags_def flags_truncate_eq)

lemma get_bits_5_10: "get_bits c 5 10 = c mod 1024 div 32"
  by (subst get_bits_eq) simp_all

lemma get_bits_4_5: "get_bits c 4 5 = c mod 32 div 16"
  by (subst get_bits_eq) simp_all

named_theorems cap_id_simps \<open>the fields of a capability identifier\<close>

lemma CapId_null_flags_fields [cap_id_simps]:
  assumes "flags < 16"
  shows "CapId_flags (CapId_null_flags flags w) = flags"
    and "CapId_is_weak (CapId_null_flags flags w) = w"
  using assms by (cases w; simp add: CapId_null_flags_eq CapId_flags_def flags_truncate_eq
      CapId_is_weak_def get_bits_4_5)+

lemma CapId_new_fields [cap_id_simps]:
  assumes "cap_id_wf flags base"
  shows "CapId_flags (CapId_new t flags w base) = flags"
    and "CapId_is_weak (CapId_new t flags w base) = w"
    and "CapId_cap_type (CapId_new t flags w base) = Ok t"
    and "CapId_try_from (CapId_new t flags w base) = Some (CapId_new t flags w base)"
    and "CapId_new t flags w base div 1024 = base"
proof -
  let ?c = "flags + 16 * of_bool w + 32 * CapType_as_usize t + 1024 * base"
  have fl: "flags < 16" using assms by (simp add: cap_id_wf_def)
  have t: "CapType_as_usize t < 20" by (rule CapType_as_usize_bounds)
  have n: "flags + 16 * of_bool w < 32" using fl by (cases w) simp_all
  have "?c mod 16 = flags"
    using fl mod_mult_self2 [of flags 16 "of_bool w + 2 * CapType_as_usize t + 64 * base"]
    by (simp add: algebra_simps)
  then show "CapId_flags (CapId_new t flags w base) = flags"
    by (simp add: CapId_new_eq [OF assms] CapId_flags_def flags_truncate_eq)
  have m: "?c mod 1024 = flags + 16 * of_bool w + 32 * CapType_as_usize t" using n t by simp
  have "?c mod 1024 div 32 = CapType_as_usize t" using n unfolding m by simp
  then have bits: "get_bits (CapId_new t flags w base) 5 10 = CapType_as_usize t"
    by (simp add: CapId_new_eq [OF assms] get_bits_5_10)
  then show "CapId_cap_type (CapId_new t flags w base) = Ok t"
    and "CapId_try_from (CapId_new t flags w base) = Some (CapId_new t flags w base)"
    by (simp_all add: CapId_cap_type_def CapId_try_from_def)
  have "?c mod 32 = flags + 16 * of_bool w"
    using n mod_mult_self2 [of "flags + 16 * of_bool w" 32 "CapType_as_usize t + 32 * base"]
    by (simp add: algebra_simps)
  then show "CapId_is_weak (CapId_new t flags w base) = w"
    using fl by (cases w) (simp_all add: CapId_new_eq [OF assms] CapId_is_weak_def get_bits_4_5)
  show "CapId_new t flags w base div 1024 = base"
    using n t by (simp add: CapId_new_eq [OF assms])
qed

lemma CapId_new_less: "cap_id_wf flags base \<Longrightarrow> CapId_new t flags w base < usize_limit"
  using CapType_as_usize_bounds(2) [of t] by (cases w) (auto simp: CapId_new_eq cap_id_wf_def)

lemma CapId_try_from_iff:
  "CapId_try_from n = Some c \<longleftrightarrow> c = n \<and> (\<exists>t. CapId_cap_type n = Ok t)"
  by (auto simp: CapId_try_from_def CapId_cap_type_def res_simps split: option.splits)

subsection \<open>Properties\<close>

text \<open>
  C22. Packing a capability identifier loses nothing: as long as the number is below \<open>2 ^ 54\<close>,
  the identifier fits a machine word, is accepted by \<open>try_from\<close>, its fields can be read back,
  and two identifiers are equal only if type, permissions, strength and number all are.
\<close>

theorem CapId_new_faithful:
  assumes "cap_id_wf flags base" and "cap_id_wf flags' base'"
  shows "CapId_new t flags w base < usize_limit \<and>
    CapId_try_from (CapId_new t flags w base) = Some (CapId_new t flags w base) \<and>
    CapId_cap_type (CapId_new t flags w base) = Ok t \<and>
    CapId_flags (CapId_new t flags w base) = flags \<and>
    (CapId_is_weak (CapId_new t flags w base) \<longleftrightarrow> w) \<and>
    (CapId_new t flags w base = CapId_new t' flags' w' base' \<longrightarrow>
       t = t' \<and> flags = flags' \<and> w = w' \<and> base = base')"
  using CapId_new_less [OF assms(1)] CapId_new_fields [OF assms(1)] CapId_new_fields [OF assms(2)]
  by (metis kresult.inject(1))

theorem CapId_new_faithful_witness:
  "CapId_flags (CapId_new CT_Memory 5 True 3) = 5 \<and> CapId_cap_type (CapId_new CT_Memory 5 True 3) = Ok CT_Memory \<and>
   CapId_new CT_Memory 5 True 3 \<noteq> CapId_new CT_Memory 5 True 4"
  using CapId_new_faithful [of 5 3 5 4 CT_Memory True CT_Memory True] by (simp add: cap_id_wf_def)

end
