(* ===== verification/Capability_Space.thy ===== *)
theory Capability_Space
  imports Hash_Map Cap_Id
begin

text \<open>
  Capabilities and capability spaces, \<^verbatim>\<open>kernel/src/cap/mod.rs\<close> and
  \<^verbatim>\<open>kernel/src/cap/capability_space.rs\<close>, with the system calls \<open>cap_clone\<close> and \<open>cap_destroy\<close> of
  \<^verbatim>\<open>kernel/src/syscall/cap.rs\<close>.

  \<^item> A kernel object is named by a number (the address of its \<open>Arc\<close>).  The capability spaces
    are kernel objects too: a store maps their names to their states, so that the source and
    the destination of a clone may be one and the same space.
  \<^item> The methods that \<^verbatim>\<open>generate_cap_methods!\<close> generates once for each object type take the type
    as an argument, and the sixteen maps are one function of the type.
  \<^item> \<open>alive\<close> says of an object whether a weak reference to it can be upgraded at the time of
    the call, \<open>hash\<close> and \<open>grant\<close> are those of the hash map.  The state is returned beside the
    result; \<open>None\<close> stands for a call that never returns.
\<close>

subsection \<open>Capabilities\<close>

type_synonym object_id = nat

datatype capability = Strong object_id CapId | Weak object_id CapId

fun cap_object :: "capability \<Rightarrow> object_id" where
  "cap_object (Strong obj _) = obj"
| "cap_object (Weak obj _) = obj"

fun cap_id :: "capability \<Rightarrow> CapId" where
  "cap_id (Strong _ i) = i"
| "cap_id (Weak _ i) = i"

fun set_id :: "capability \<Rightarrow> CapId \<Rightarrow> capability" where
  "set_id (Strong obj _) i = Strong obj i"
| "set_id (Weak obj _) i = Weak obj i"

definition cap_flags :: "capability \<Rightarrow> CapFlags" where
  "cap_flags c = CapId_flags (cap_id c)"

fun cap_is_weak :: "capability \<Rightarrow> bool" where
  "cap_is_weak (Strong _ _) = False"
| "cap_is_weak (Weak _ _) = True"

text \<open>\<open>StrongCapability::new_flags\<close> and \<open>WeakCapability::new_flags\<close>.\<close>

definition Strong_new_flags :: "object_id \<Rightarrow> CapFlags \<Rightarrow> capability" where
  "Strong_new_flags obj flags = Strong obj (CapId_null_flags flags False)"

definition Weak_new_flags :: "object_id \<Rightarrow> CapFlags \<Rightarrow> capability" where
  "Weak_new_flags obj flags = Weak obj (CapId_null_flags flags True)"

text \<open>\<open>downgrade\<close> and \<open>upgrade\<close> keep the identifier.\<close>

definition downgrade :: "object_id \<Rightarrow> CapId \<Rightarrow> capability" where
  "downgrade obj i = Weak obj i"

definition upgrade :: "(object_id \<Rightarrow> bool) \<Rightarrow> object_id \<Rightarrow> CapId \<Rightarrow> capability option" where
  "upgrade alive obj i = (if alive obj then Some (Strong obj i) else None)"

subsection \<open>Capability spaces\<close>

record CapabilityEntry =
  ce_visible :: bool
  ce_capability :: capability

type_synonym InnerCapMap = "(CapId, CapabilityEntry) hash_map"

record CapabilitySpace =
  cs_next_id :: usize
  cs_map :: "CapType \<Rightarrow> InnerCapMap"

definition cs_new :: CapabilitySpace where
  "cs_new = \<lparr>cs_next_id = 0, cs_map = (\<lambda>t. hm_new)\<rparr>"

definition cs_set_map :: "CapabilitySpace \<Rightarrow> CapType \<Rightarrow> InnerCapMap \<Rightarrow> CapabilitySpace" where
  "cs_set_map cs t m = cs\<lparr>cs_map := (cs_map cs)(t := m)\<rparr>"

type_synonym cap_env = "(nat \<Rightarrow> bool) \<times> (CapId \<Rightarrow> nat) \<times> (object_id \<Rightarrow> bool)"

abbreviation env_grant :: "cap_env \<Rightarrow> nat \<Rightarrow> bool" where "env_grant env \<equiv> fst env"

abbreviation env_hash :: "cap_env \<Rightarrow> CapId \<Rightarrow> nat" where "env_hash env \<equiv> fst (snd env)"

abbreviation env_alive :: "cap_env \<Rightarrow> object_id \<Rightarrow> bool" where "env_alive env \<equiv> snd (snd env)"

definition cs_insert_inner ::
  "cap_env \<Rightarrow> CapType \<Rightarrow> CapabilitySpace \<Rightarrow> capability \<Rightarrow> bool \<Rightarrow> (CapabilitySpace \<times> CapId kresult) option"
where
  "cs_insert_inner env t cs cap visible =
     (let next_id = cs_next_id cs;
          cs = cs\<lparr>cs_next_id := (next_id + 1) mod usize_limit\<rparr>;
          new_id = CapId_new t (cap_flags cap) (cap_is_weak cap) next_id;
          cap = set_id cap new_id
      in case hm_insert (env_grant env) (env_hash env) (cs_map cs t) new_id
                \<lparr>ce_visible = visible, ce_capability = cap\<rparr> of
           None \<Rightarrow> None
         | Some (m, Ok _) \<Rightarrow> Some (cs_set_map cs t m, Ok new_id)
         | Some (m, Err e) \<Rightarrow> Some (cs_set_map cs t m, Err e)
         | Some (m, Panic) \<Rightarrow> Some (cs_set_map cs t m, Panic))"

definition cs_insert ::
  "cap_env \<Rightarrow> CapType \<Rightarrow> CapabilitySpace \<Rightarrow> capability \<Rightarrow> (CapabilitySpace \<times> CapId kresult) option" where
  "cs_insert env t cs cap = cs_insert_inner env t cs cap True"

definition cs_insert_invisible ::
  "cap_env \<Rightarrow> CapType \<Rightarrow> CapabilitySpace \<Rightarrow> capability \<Rightarrow> (CapabilitySpace \<times> CapId kresult) option" where
  "cs_insert_invisible env t cs cap = cs_insert_inner env t cs cap False"

definition cs_make_visible ::
  "cap_env \<Rightarrow> CapType \<Rightarrow> CapabilitySpace \<Rightarrow> CapId \<Rightarrow> CapabilitySpace \<times> unit kresult" where
  "cs_make_visible env t cs i =
     (case hm_update (env_hash env) (cs_map cs t) i (\<lambda>e. e\<lparr>ce_visible := True\<rparr>) of
        Ok (Some m) \<Rightarrow> (cs_set_map cs t m, Ok ())
      | Ok None \<Rightarrow> (cs, Err InvlId)
      | Err e \<Rightarrow> (cs, Err e)
      | Panic \<Rightarrow> (cs, Panic))"

definition cs_remove ::
  "cap_env \<Rightarrow> CapType \<Rightarrow> CapabilitySpace \<Rightarrow> CapId \<Rightarrow> CapabilitySpace \<times> capability kresult" where
  "cs_remove env t cs i =
     (case hm_remove (env_hash env) (cs_map cs t) i of
        (m, r) \<Rightarrow> (cs_set_map cs t m, rbind (ok_or r InvlId) (\<lambda>e. Ok (ce_capability e))))"

definition cs_get_with_perms ::
  "cap_env \<Rightarrow> CapType \<Rightarrow> CapabilitySpace \<Rightarrow> usize \<Rightarrow> CapFlags \<Rightarrow> bool \<Rightarrow>
   CapabilitySpace \<times> capability kresult" where
  "cs_get_with_perms env t cs n required_perms weak_auto_destroy =
     (case rbind (ok_or (CapId_try_from n) InvlId)
             (\<lambda>i. rbind (hm_get (env_hash env) (cs_map cs t) i) (\<lambda>r. ok_or r InvlId)) of
        Err e \<Rightarrow> (cs, Err e)
      | Panic \<Rightarrow> (cs, Panic)
      | Ok entry \<Rightarrow>
          if \<not> ce_visible entry then (cs, Err InvlId)
          else if \<not> flags_contains (cap_flags (ce_capability entry)) required_perms then (cs, Err InvlPerm)
          else
            (case ce_capability entry of
               Strong obj i \<Rightarrow> (cs, Ok (Strong obj i))
             | Weak obj i \<Rightarrow>
                 (case upgrade (env_alive env) obj i of
                    Some cap \<Rightarrow> (cs, Ok cap)
                  | None \<Rightarrow>
                      (if weak_auto_destroy
                       then cs_set_map cs t (fst (hm_remove (env_hash env) (cs_map cs t) n)) else cs,
                       Err InvlWeak))))"

definition cs_get :: "cap_env \<Rightarrow> CapType \<Rightarrow> CapabilitySpace \<Rightarrow> CapId \<Rightarrow> capability kresult" where
  "cs_get env t cs i =
     rbind (hm_get (env_hash env) (cs_map cs t) i)
       (\<lambda>r. rbind (ok_or r InvlId) (\<lambda>e. Ok (ce_capability e)))"

subsection \<open>Cloning\<close>

datatype CapCloneWeakness = KeepSame | MakeStrong | MakeWeak

type_synonym cspaces = "object_id \<Rightarrow> CapabilitySpace"

text \<open>The capability to insert, or nothing when a dead weak reference would have to be upgraded.\<close>

definition clone_capability ::
  "cap_env \<Rightarrow> capability \<Rightarrow> CapFlags \<Rightarrow> CapCloneWeakness \<Rightarrow> capability option" where
  "clone_capability env cap new_perms cap_weakness =
     (let make_strong_cap =
            (case cap_weakness of
               KeepSame \<Rightarrow> \<not> cap_is_weak cap | MakeStrong \<Rightarrow> True | MakeWeak \<Rightarrow> False);
          new_flags_capid = CapId_null_flags (cap_flags cap AND new_perms) (\<not> make_strong_cap)
      in case cap of
           Strong obj _ \<Rightarrow>
             Some (if make_strong_cap then Strong obj new_flags_capid else downgrade obj new_flags_capid)
         | Weak obj _ \<Rightarrow>
             if make_strong_cap then upgrade (env_alive env) obj new_flags_capid
             else Some (Weak obj new_flags_capid))"

definition cs_clone ::
  "cap_env \<Rightarrow> CapType \<Rightarrow> cspaces \<Rightarrow> object_id \<Rightarrow> object_id \<Rightarrow> CapId \<Rightarrow> CapFlags \<Rightarrow> CapCloneWeakness \<Rightarrow>
   bool \<Rightarrow> bool \<Rightarrow> (cspaces \<times> CapId kresult) option" where
  "cs_clone env t \<sigma> dst src i new_perms cap_weakness destroy_old_cap weak_auto_destroy =
     (case cs_get env t (\<sigma> src) i of
        Err e \<Rightarrow> Some (\<sigma>, Err e)
      | Panic \<Rightarrow> Some (\<sigma>, Panic)
      | Ok capability \<Rightarrow>
          (case clone_capability env capability new_perms cap_weakness of
             None \<Rightarrow>
               if weak_auto_destroy then
                 (case cs_remove env t (\<sigma> src) i of
                    (cs, Ok _) \<Rightarrow> Some (\<sigma>(src := cs), Err InvlWeak)
                  | (cs, _) \<Rightarrow> Some (\<sigma>(src := cs), Panic))
               else Some (\<sigma>, Err InvlWeak)
           | Some new_capability \<Rightarrow>
               (case cs_insert env t (\<sigma> dst) new_capability of
                  None \<Rightarrow> None
                | Some (cs, Err e) \<Rightarrow> Some (\<sigma>(dst := cs), Err e)
                | Some (cs, Panic) \<Rightarrow> Some (\<sigma>(dst := cs), Panic)
                | Some (cs, Ok new_cap_id) \<Rightarrow>
                    let \<sigma>' = \<sigma>(dst := cs) in
                    Some (if destroy_old_cap then \<sigma>'(src := fst (cs_remove env t (\<sigma>' src) i)) else \<sigma>',
                          Ok new_cap_id))))"

text \<open>The types that the \<^verbatim>\<open>todo!()\<close> arms of the type dispatch leave out.\<close>

definition cap_type_supported :: "CapType \<Rightarrow> bool" where
  "cap_type_supported t \<longleftrightarrow> t \<noteq> CT_Lock \<and> t \<noteq> CT_MessageCapacity \<and> t \<noteq> CT_RootOom"

definition cs_cap_clone ::
  "cap_env \<Rightarrow> cspaces \<Rightarrow> object_id \<Rightarrow> object_id \<Rightarrow> CapId \<Rightarrow> CapFlags \<Rightarrow> CapCloneWeakness \<Rightarrow>
   bool \<Rightarrow> bool \<Rightarrow> (cspaces \<times> CapId kresult) option" where
  "cs_cap_clone env \<sigma> dst src i new_perms cap_weakness destroy_src_cap weak_auto_destroy =
     (case CapId_cap_type i of
        Ok t \<Rightarrow>
          if cap_type_supported t
          then cs_clone env t \<sigma> dst src i new_perms cap_weakness destroy_src_cap weak_auto_destroy
          else Some (\<sigma>, Panic)
      | Err e \<Rightarrow> Some (\<sigma>, Err e)
      | Panic \<Rightarrow> Some (\<sigma>, Panic))"

subsection \<open>System calls\<close>

text \<open>
  \<open>cur\<close> is the capability space of the calling thread.  The first of the two definitions is
  the choice of a capability space that both system calls make: the current one, or the one
  that a capability with write permission names.
\<close>

definition select_cspace ::
  "cap_env \<Rightarrow> cspaces \<Rightarrow> object_id \<Rightarrow> bool \<Rightarrow> usize \<Rightarrow> bool \<Rightarrow> cspaces \<times> object_id kresult" where
  "select_cspace env \<sigma> cur self process_id weak_auto_destroy =
     (if self then (\<sigma>, Ok cur)
      else case cs_get_with_perms env CT_CapabilitySpace (\<sigma> cur) process_id CapFlags_WRITE weak_auto_destroy of
        (cs, r) \<Rightarrow> (\<sigma>(cur := cs), rbind r (\<lambda>cap. Ok (cap_object cap))))"

definition sys_cap_clone ::
  "cap_env \<Rightarrow> cspaces \<Rightarrow> object_id \<Rightarrow> nat \<Rightarrow> usize \<Rightarrow> usize \<Rightarrow> usize \<Rightarrow> (cspaces \<times> usize kresult) option"
where
  "sys_cap_clone env \<sigma> cur options dst_process_id src_process_id n =
     (let weak_auto_destroy = options_weak_autodestroy options;
          flags = CapCloneFlags_from_bits_truncate options;
          new_cap_perms = CapFlags_from_clone_flags flags;
          cap_weakness =
            (if flags_contains flags CHANGE_CAP_WEAKNESS then
               (if flags_contains flags MAKE_WEAK then MakeWeak else MakeStrong)
             else KeepSame)
      in case CapId_try_from n of
           None \<Rightarrow> Some (\<sigma>, Err InvlId)
         | Some old_cap \<Rightarrow>
             (case select_cspace env \<sigma> cur (flags_contains flags SRC_CSPACE_SELF) src_process_id weak_auto_destroy of
                (\<sigma>, Err e) \<Rightarrow> Some (\<sigma>, Err e)
              | (\<sigma>, Panic) \<Rightarrow> Some (\<sigma>, Panic)
              | (\<sigma>, Ok src) \<Rightarrow>
                  (case select_cspace env \<sigma> cur (flags_contains flags DST_CSPACE_SELF) dst_process_id weak_auto_destroy of
                     (\<sigma>, Err e) \<Rightarrow> Some (\<sigma>, Err e)
                   | (\<sigma>, Panic) \<Rightarrow> Some (\<sigma>, Panic)
                   | (\<sigma>, Ok dst) \<Rightarrow>
                       cs_cap_clone env \<sigma> dst src old_cap new_cap_perms cap_weakness
                         (flags_contains flags DESTROY_SRC_CAP) weak_auto_destroy)))"

definition sys_cap_destroy ::
  "cap_env \<Rightarrow> cspaces \<Rightarrow> object_id \<Rightarrow> nat \<Rightarrow> usize \<Rightarrow> usize \<Rightarrow> cspaces \<times> unit kresult" where
  "sys_cap_destroy env \<sigma> cur options process_id n =
     (let weak_auto_destroy = options_weak_autodestroy options;
          flags = CapDestroyFlags_from_bits_truncate options
      in case CapId_try_from n of
           None \<Rightarrow> (\<sigma>, Err InvlId)
         | Some i \<Rightarrow>
             (case select_cspace env \<sigma> cur (flags_contains flags CSPACE_SELF) process_id weak_auto_destroy of
                (\<sigma>, Err e) \<Rightarrow> (\<sigma>, Err e)
              | (\<sigma>, Panic) \<Rightarrow> (\<sigma>, Panic)
              | (\<sigma>, Ok target) \<Rightarrow>
                  (case CapId_cap_type i of
                     Ok t \<Rightarrow>
                       if cap_type_supported t then
                         (case cs_remove env t (\<sigma> target) i of
                            (cs, r) \<Rightarrow> (\<sigma>(target := cs), rbind r (\<lambda>_. Ok ())))
                       else (\<sigma>, Panic)
                   | Err e \<Rightarrow> (\<sigma>, Err e)
                   | Panic \<Rightarrow> (\<sigma>, Panic))))"

subsection \<open>Contents and invariant\<close>

definition cs_entry :: "CapabilitySpace \<Rightarrow> CapType \<Rightarrow> CapId \<Rightarrow> CapabilityEntry option" where
  "cs_entry cs t = hm_abs (cs_map cs t)"

text \<open>
  An entry is filed under the identifier that its capability carries; the identifier spells
  out the type, permissions and strength of the capability, and its number was handed out
  before the next one.
\<close>

definition entry_ok :: "usize \<Rightarrow> CapType \<Rightarrow> CapId \<Rightarrow> CapabilityEntry \<Rightarrow> bool" where
  "entry_ok next_id t i e \<longleftrightarrow>
     cap_id (ce_capability e) = i \<and>
     (\<exists>base < next_id. i = CapId_new t (cap_flags (ce_capability e)) (cap_is_weak (ce_capability e)) base)"

definition cs_inv :: "cap_env \<Rightarrow> CapabilitySpace \<Rightarrow> bool" where
  "cs_inv env cs \<longleftrightarrow>
     cs_next_id cs \<le> 2 ^ 54 \<and>
     (\<forall>t. hm_inv (env_hash env) (cs_map cs t) \<and>
       (\<forall>i e. cs_entry cs t i = Some e \<longrightarrow> entry_ok (cs_next_id cs) t i e))"

lemma cs_invD:
  assumes "cs_inv env cs"
  shows "cs_next_id cs \<le> 2 ^ 54" and "hm_inv (env_hash env) (cs_map cs t)"
    and "cs_entry cs t i = Some e \<Longrightarrow> entry_ok (cs_next_id cs) t i e"
  using assms by (simp_all add: cs_inv_def)

lemma cs_inv_new: "cs_inv env cs_new"
  by (simp add: cs_inv_def cs_new_def cs_entry_def)

lemma entry_ok_mono: "entry_ok n t i e \<Longrightarrow> n \<le> n' \<Longrightarrow> entry_ok n' t i e"
  by (auto simp: entry_ok_def intro: less_le_trans)

lemma cap_flags_less [simp]: "cap_flags c < 16"
  by (simp add: cap_flags_def)

lemma set_id_simps [simp]:
  "cap_id (set_id c i) = i" "cap_object (set_id c i) = cap_object c"
  "cap_is_weak (set_id c i) = cap_is_weak c"
  by (cases c; simp)+

lemma cs_entry_set_map [simp]:
  "cs_entry (cs_set_map cs t m) = (cs_entry cs)(t := hm_abs m)"
  "cs_next_id (cs_set_map cs t m) = cs_next_id cs"
  by (auto simp: cs_entry_def cs_set_map_def fun_eq_iff)

lemma cs_entry_next [simp]: "cs_entry (cs\<lparr>cs_next_id := n\<rparr>) = cs_entry cs"
  by (simp add: cs_entry_def fun_eq_iff)

text \<open>Identifiers that have not been handed out are not in use.\<close>

lemma fresh_id:
  assumes inv: "cs_inv env cs" and nxt: "cs_next_id cs < 2 ^ 54"
  shows "cs_entry cs t (CapId_new u (cap_flags c) w (cs_next_id cs)) = None"
proof (rule ccontr)
  let ?i = "CapId_new u (cap_flags c) w (cs_next_id cs)"
  assume "cs_entry cs t ?i \<noteq> None"
  then obtain e where "cs_entry cs t ?i = Some e" by blast
  from cs_invD(3) [OF inv this] obtain b where b: "b < cs_next_id cs"
      "?i = CapId_new t (cap_flags (ce_capability e)) (cap_is_weak (ce_capability e)) b"
    by (auto simp: entry_ok_def)
  have "?i div 1024 = cs_next_id cs"
    using nxt by (intro CapId_new_fields(5)) (simp add: cap_id_wf_def)
  moreover have "?i div 1024 = b"
    using nxt b(1) unfolding b(2) by (intro CapId_new_fields(5)) (simp add: cap_id_wf_def)
  ultimately show False using b(1) by simp
qed

lemma cs_inv_set_map:
  assumes "cs_inv env cs" and "hm_inv (env_hash env) m"
    and "\<And>i e. hm_abs m i = Some e \<Longrightarrow> entry_ok (cs_next_id cs) t i e"
  shows "cs_inv env (cs_set_map cs t m)"
  using assms by (auto simp: cs_inv_def cs_set_map_def cs_entry_def)

lemma cs_inv_bump:
  assumes "cs_inv env cs" and "cs_next_id cs < 2 ^ 54"
  shows "cs_inv env (cs\<lparr>cs_next_id := cs_next_id cs + 1\<rparr>)"
  using assms entry_ok_mono [OF _ le_add1 [of "cs_next_id cs" 1]]
  by (auto simp: cs_inv_def cs_entry_def)

lemma cs_insert_inner_spec:
  fixes t :: CapType and c :: capability
  assumes inv: "cs_inv env cs" and nxt: "cs_next_id cs < 2 ^ 54"
  defines "i \<equiv> CapId_new t (cap_flags c) (cap_is_weak c) (cs_next_id cs)"
  shows "\<exists>cs' r. cs_insert_inner env t cs c visible = Some (cs', r) \<and> cs_inv env cs' \<and>
    cs_next_id cs' = cs_next_id cs + 1 \<and>
    (r = Ok i \<and> cs_entry cs' = (cs_entry cs)(t := (cs_entry cs t)(i \<mapsto>
        \<lparr>ce_visible = visible, ce_capability = set_id c i\<rparr>)) \<or>
     r = Err OutOfMem \<and> cs_entry cs' = cs_entry cs)"
proof -
  let ?e = "\<lparr>ce_visible = visible, ce_capability = set_id c i\<rparr>"
  let ?cs = "cs\<lparr>cs_next_id := cs_next_id cs + 1\<rparr>"
  have hm: "hm_inv (env_hash env) (cs_map cs t)" by (rule cs_invD(2) [OF inv])
  have fr: "hm_abs (cs_map cs t) i = None"
    using fresh_id [OF inv nxt, of t t c "cap_is_weak c"] by (simp add: i_def cs_entry_def)
  have wf: "cap_id_wf (cap_flags c) (cs_next_id cs)" using nxt by (simp add: cap_id_wf_def)
  have "cap_flags (set_id c i) = CapId_flags i" by (simp add: cap_flags_def)
  then have flags: "cap_flags (set_id c i) = cap_flags c"
    unfolding i_def CapId_new_fields(1) [OF wf] .
  have eok: "entry_ok (cs_next_id cs + 1) t i ?e"
    unfolding entry_ok_def using flags by (intro conjI exI [of _ "cs_next_id cs"]) (simp_all add: i_def)
  have old: "entry_ok (cs_next_id cs + 1) t j e" if "hm_abs (cs_map cs t) j = Some e" for j e
    using cs_invD(3) [OF cs_inv_bump [OF inv nxt], of t j e] that by (simp add: cs_entry_def)
  have run: "cs_insert_inner env t cs c visible =
      (case hm_insert (env_grant env) (env_hash env) (cs_map cs t) i ?e of
         None \<Rightarrow> None
       | Some (m, Ok _) \<Rightarrow> Some (cs_set_map ?cs t m, Ok i)
       | Some (m, Err e) \<Rightarrow> Some (cs_set_map ?cs t m, Err e)
       | Some (m, Panic) \<Rightarrow> Some (cs_set_map ?cs t m, Panic))"
  proof -
    have "(cs_next_id cs + 1) mod usize_limit = cs_next_id cs + 1" using nxt by simp
    then show ?thesis unfolding cs_insert_inner_def Let_def i_def [symmetric]
      by (simp only:) simp
  qed
  show ?thesis
  proof (cases rule: hm.ins_cases [OF hm fr, of "env_grant env" ?e])
    case (1 m')
    have "cs_inv env (cs_set_map ?cs t m')"
      using 1(2,3) eok old
      by (intro cs_inv_set_map [OF cs_inv_bump [OF inv nxt]]) (auto split: if_splits)
    with 1 run show ?thesis by (auto simp: cs_entry_def)
  next
    case 2
    have "cs_inv env (cs_set_map ?cs t (cs_map cs t))"
      using hm old by (intro cs_inv_set_map [OF cs_inv_bump [OF inv nxt]]) auto
    moreover have "(cs_entry cs)(t := hm_abs (cs_map cs t)) = cs_entry cs"
      by (simp add: cs_entry_def fun_eq_iff)
    ultimately show ?thesis using 2 run by simp
  qed
qed

lemma cs_get_eq:
  assumes "cs_inv env cs"
  shows "cs_get env t cs i = (case cs_entry cs t i of None \<Rightarrow> Err InvlId | Some e \<Rightarrow> Ok (ce_capability e))"
proof -
  have "hm_get (env_hash env) (cs_map cs t) i = Ok (cs_entry cs t i)"
    using cs_invD(2) [OF assms, of t] by (simp add: cs_entry_def hm_get_eq hm_inv_def)
  then show ?thesis by (simp add: cs_get_def split: option.split)
qed

lemma cs_remove_spec:
  assumes inv: "cs_inv env cs"
  shows "cs_entry (fst (cs_remove env t cs i)) = (cs_entry cs)(t := (cs_entry cs t)(i := None))"
    and "cs_inv env (fst (cs_remove env t cs i))"
    and "cs_next_id (fst (cs_remove env t cs i)) = cs_next_id cs"
    and "snd (cs_remove env t cs i) =
      (case cs_entry cs t i of None \<Rightarrow> Err InvlId | Some e \<Rightarrow> Ok (ce_capability e))"
proof -
  have hm: "hm_inv (env_hash env) (cs_map cs t)" by (rule cs_invD(2) [OF inv])
  let ?m = "fst (hm_remove (env_hash env) (cs_map cs t) i)"
  have fst: "fst (cs_remove env t cs i) = cs_set_map cs t ?m"
    by (simp add: cs_remove_def split: prod.split)
  have abs: "hm_abs ?m = (cs_entry cs t)(i := None)"
    using hm.rem_lookup [OF hm] by (simp add: cs_entry_def)
  show "cs_entry (fst (cs_remove env t cs i)) = (cs_entry cs)(t := (cs_entry cs t)(i := None))"
    and "cs_next_id (fst (cs_remove env t cs i)) = cs_next_id cs"
    by (simp_all add: fst abs)
  show "cs_inv env (fst (cs_remove env t cs i))"
    unfolding fst using hm.rem_inv [OF hm] abs cs_invD(3) [OF inv]
    by (intro cs_inv_set_map [OF inv]) (auto split: if_splits)
  show "snd (cs_remove env t cs i) =
      (case cs_entry cs t i of None \<Rightarrow> Err InvlId | Some e \<Rightarrow> Ok (ce_capability e))"
    using hm.rem_value [OF hm, of i] by (auto simp: cs_remove_def cs_entry_def split: prod.split option.split)
qed

lemma cs_make_visible_spec:
  assumes inv: "cs_inv env cs"
  shows "case cs_entry cs t i of
      None \<Rightarrow> cs_make_visible env t cs i = (cs, Err InvlId)
    | Some e \<Rightarrow> \<exists>cs'. cs_make_visible env t cs i = (cs', Ok ()) \<and> cs_inv env cs' \<and>
        cs_entry cs' = (cs_entry cs)(t := (cs_entry cs t)(i \<mapsto> e\<lparr>ce_visible := True\<rparr>))"
proof -
  have hm: "hm_inv (env_hash env) (cs_map cs t)" by (rule cs_invD(2) [OF inv])
  note up = hm_update_eq [OF hm, of i "\<lambda>e. e\<lparr>ce_visible := True\<rparr>"]
  show ?thesis
  proof (cases "cs_entry cs t i")
    case None
    with up show ?thesis by (auto simp: cs_make_visible_def cs_entry_def)
  next
    case (Some e)
    with up obtain m' where m': "hm_update (env_hash env) (cs_map cs t) i (\<lambda>e. e\<lparr>ce_visible := True\<rparr>) = Ok (Some m')"
        "hm_inv (env_hash env) m'" "hm_abs m' = (cs_entry cs t)(i \<mapsto> e\<lparr>ce_visible := True\<rparr>)"
      by (auto simp: cs_entry_def)
    have "entry_ok (cs_next_id cs) t i (e\<lparr>ce_visible := True\<rparr>)"
      using cs_invD(3) [OF inv Some] by (simp add: entry_ok_def)
    then have "cs_inv env (cs_set_map cs t m')"
      using m'(2,3) cs_invD(3) [OF inv] by (intro cs_inv_set_map [OF inv]) (auto split: if_splits)
    with Some m' show ?thesis by (simp add: cs_make_visible_def)
  qed
qed

lemma entry_try_from:
  assumes "cs_inv env cs" and "cs_entry cs t i = Some e"
  shows "CapId_try_from i = Some i" and "CapId_cap_type i = Ok t"
    and "CapId_is_weak i = cap_is_weak (ce_capability e)"
proof -
  from cs_invD(3) [OF assms] obtain b where b: "b < cs_next_id cs"
      "i = CapId_new t (cap_flags (ce_capability e)) (cap_is_weak (ce_capability e)) b"
    by (auto simp: entry_ok_def)
  then have "cap_id_wf (cap_flags (ce_capability e)) b"
    using cs_invD(1) [OF assms(1)] by (simp add: cap_id_wf_def)
  from CapId_new_fields [OF this] b(2)
  show "CapId_try_from i = Some i" "CapId_cap_type i = Ok t"
    "CapId_is_weak i = cap_is_weak (ce_capability e)" by metis+
qed

lemma cs_get_with_perms_eq:
  assumes inv: "cs_inv env cs"
  shows "cs_get_with_perms env t cs n perms weak_auto_destroy =
    (case cs_entry cs t n of
       None \<Rightarrow> (cs, Err InvlId)
     | Some e \<Rightarrow>
         if \<not> ce_visible e then (cs, Err InvlId)
         else if \<not> flags_contains (cap_flags (ce_capability e)) perms then (cs, Err InvlPerm)
         else if cap_is_weak (ce_capability e) \<and> \<not> env_alive env (cap_object (ce_capability e))
           then (if weak_auto_destroy then fst (cs_remove env t cs n) else cs, Err InvlWeak)
         else (cs, Ok (Strong (cap_object (ce_capability e)) n)))"
proof -
  have get: "hm_get (env_hash env) (cs_map cs t) i = Ok (cs_entry cs t i)" for i
    using cs_invD(2) [OF inv, of t] by (simp add: cs_entry_def hm_get_eq hm_inv_def)
  show ?thesis
  proof (cases "cs_entry cs t n")
    case None
    moreover have "CapId_try_from n = None \<or> CapId_try_from n = Some n"
      by (simp add: CapId_try_from_def split: option.split)
    ultimately show ?thesis by (auto simp: cs_get_with_perms_def get)
  next
    case (Some e)
    have "cap_id (ce_capability e) = n" using cs_invD(3) [OF inv Some] by (simp add: entry_ok_def)
    with Some entry_try_from(1) [OF inv Some] show ?thesis
      by (cases "ce_capability e")
        (simp_all add: cs_get_with_perms_def get upgrade_def cs_remove_def split_def)
  qed
qed

subsection \<open>The effect of the operations on all capability spaces\<close>

type_synonym contents = "object_id \<Rightarrow> CapType \<Rightarrow> CapId \<Rightarrow> CapabilityEntry option"

definition entries :: "cspaces \<Rightarrow> contents" where
  "entries \<sigma> c = cs_entry (\<sigma> c)"

definition ent_upd :: "contents \<Rightarrow> object_id \<Rightarrow> CapType \<Rightarrow> CapId \<Rightarrow> CapabilityEntry option \<Rightarrow> contents" where
  "ent_upd E c t i x = E(c := (E c)(t := (E c t)(i := x)))"

definition all_inv :: "cap_env \<Rightarrow> cspaces \<Rightarrow> bool" where
  "all_inv env \<sigma> \<longleftrightarrow> (\<forall>c. cs_inv env (\<sigma> c))"

lemma ent_upd_apply:
  "ent_upd E c t i x c' t' i' = (if c' = c \<and> t' = t \<and> i' = i then x else E c' t' i')"
  by (simp add: ent_upd_def)

lemma all_invD: "all_inv env \<sigma> \<Longrightarrow> cs_inv env (\<sigma> c)"
  by (simp add: all_inv_def)

lemma all_inv_upd: "all_inv env \<sigma> \<Longrightarrow> cs_inv env cs \<Longrightarrow> all_inv env (\<sigma>(c := cs))"
  by (simp add: all_inv_def)

lemma entries_upd: "entries (\<sigma>(c := cs)) = (entries \<sigma>)(c := cs_entry cs)"
  by (simp add: entries_def fun_eq_iff)

lemma entries_remove:
  assumes "all_inv env \<sigma>"
  shows "entries (\<sigma>(c := fst (cs_remove env t (\<sigma> c) i))) = ent_upd (entries \<sigma>) c t i None"
    and "all_inv env (\<sigma>(c := fst (cs_remove env t (\<sigma> c) i)))"
  using cs_remove_spec [OF all_invD [OF assms, of c], of t i] assms
  by (simp_all add: entries_upd ent_upd_def entries_def all_inv_upd)

text \<open>What a clone makes of a capability: the same object, no more permissions.\<close>

lemma clone_capability_spec:
  assumes "clone_capability env c perms w = Some nc"
  shows "cap_object nc = cap_object c" and "cap_flags nc = cap_flags c AND perms"
    and "cap_is_weak nc \<longleftrightarrow> (case w of KeepSame \<Rightarrow> cap_is_weak c | MakeStrong \<Rightarrow> False | MakeWeak \<Rightarrow> True)"
  using assms
  by (auto simp: clone_capability_def Let_def downgrade_def upgrade_def cap_flags_def [of nc]
      and_less_flags cap_id_simps split: capability.splits if_splits CapCloneWeakness.splits)

lemma clone_capability_None_iff:
  "clone_capability env c perms w = None \<longleftrightarrow>
     cap_is_weak c \<and> w = MakeStrong \<and> \<not> env_alive env (cap_object c)"
  by (cases c; cases w) (auto simp: clone_capability_def Let_def upgrade_def downgrade_def)

lemma cs_insert_spec:
  fixes t :: CapType and c :: capability
  assumes inv: "all_inv env \<sigma>" and nxt: "cs_next_id (\<sigma> d) < 2 ^ 54"
  defines "j \<equiv> CapId_new t (cap_flags c) (cap_is_weak c) (cs_next_id (\<sigma> d))"
  obtains (ok) cs where "cs_insert env t (\<sigma> d) c = Some (cs, Ok j)" "all_inv env (\<sigma>(d := cs))"
      "entries (\<sigma>(d := cs)) = ent_upd (entries \<sigma>) d t j (Some \<lparr>ce_visible = True, ce_capability = set_id c j\<rparr>)"
    | (oom) cs where "cs_insert env t (\<sigma> d) c = Some (cs, Err OutOfMem)" "all_inv env (\<sigma>(d := cs))"
      "entries (\<sigma>(d := cs)) = entries \<sigma>"
proof -
  from cs_insert_inner_spec [OF all_invD [OF inv] nxt, of t c True] obtain cs r
    where *: "cs_insert_inner env t (\<sigma> d) c True = Some (cs, r)" "cs_inv env cs"
      and r: "r = Ok j \<and> cs_entry cs = (cs_entry (\<sigma> d))(t := (cs_entry (\<sigma> d) t)(j \<mapsto>
        \<lparr>ce_visible = True, ce_capability = set_id c j\<rparr>)) \<or>
        r = Err OutOfMem \<and> cs_entry cs = cs_entry (\<sigma> d)"
    unfolding j_def by blast
  have all: "all_inv env (\<sigma>(d := cs))" using inv *(2) by (rule all_inv_upd)
  from r show ?thesis
  proof
    assume "r = Ok j \<and> cs_entry cs = (cs_entry (\<sigma> d))(t := (cs_entry (\<sigma> d) t)(j \<mapsto>
        \<lparr>ce_visible = True, ce_capability = set_id c j\<rparr>))"
    with *(1) all show ?thesis
      by (intro ok [of cs]) (simp_all add: cs_insert_def entries_upd ent_upd_def entries_def)
  next
    assume "r = Err OutOfMem \<and> cs_entry cs = cs_entry (\<sigma> d)"
    with *(1) all show ?thesis
      by (intro oom [of cs]) (simp_all add: cs_insert_def entries_upd entries_def fun_eq_iff)
  qed
qed

text \<open>The outcomes of a clone, one after the other.\<close>

lemma cs_clone_cases:
  assumes inv: "all_inv env \<sigma>" and nxt: "cs_next_id (\<sigma> dst) < 2 ^ 54"
  obtains (missing) "entries \<sigma> src t i = None"
      "cs_clone env t \<sigma> dst src i perms w destroy wad = Some (\<sigma>, Err InvlId)"
    | (dead) e \<sigma>' where "entries \<sigma> src t i = Some e" "w = MakeStrong" "cap_is_weak (ce_capability e)"
      "\<not> env_alive env (cap_object (ce_capability e))"
      "cs_clone env t \<sigma> dst src i perms w destroy wad = Some (\<sigma>', Err InvlWeak)"
      "all_inv env \<sigma>'" "entries \<sigma>' = (if wad then ent_upd (entries \<sigma>) src t i None else entries \<sigma>)"
    | (oom) e \<sigma>' where "entries \<sigma> src t i = Some e"
      "cs_clone env t \<sigma> dst src i perms w destroy wad = Some (\<sigma>', Err OutOfMem)"
      "all_inv env \<sigma>'" "entries \<sigma>' = entries \<sigma>"
    | (cloned) e nc j \<sigma>' where "entries \<sigma> src t i = Some e"
      "clone_capability env (ce_capability e) perms w = Some nc"
      "j = CapId_new t (cap_flags nc) (cap_is_weak nc) (cs_next_id (\<sigma> dst))" "entries \<sigma> dst t j = None"
      "cs_clone env t \<sigma> dst src i perms w destroy wad = Some (\<sigma>', Ok j)" "all_inv env \<sigma>'"
      "entries \<sigma>' = (let E = ent_upd (entries \<sigma>) dst t j (Some \<lparr>ce_visible = True, ce_capability = set_id nc j\<rparr>)
         in if destroy then ent_upd E src t i None else E)"
proof (cases "entries \<sigma> src t i")
  case None
  with cs_get_eq [OF all_invD [OF inv]] show ?thesis
    by (intro missing) (simp_all add: cs_clone_def entries_def)
next
  case (Some e)
  have get: "cs_get env t (\<sigma> src) i = Ok (ce_capability e)"
    using Some cs_get_eq [OF all_invD [OF inv]] by (simp add: entries_def)
  show ?thesis
  proof (cases "clone_capability env (ce_capability e) perms w")
    case None
    have rem: "snd (cs_remove env t (\<sigma> src) i) = Ok (ce_capability e)"
      using Some cs_remove_spec(4) [OF all_invD [OF inv]] by (simp add: entries_def)
    let ?\<sigma> = "if wad then \<sigma>(src := fst (cs_remove env t (\<sigma> src) i)) else \<sigma>"
    have "cs_clone env t \<sigma> dst src i perms w destroy wad = Some (?\<sigma>, Err InvlWeak)"
      using get None rem by (cases "cs_remove env t (\<sigma> src) i") (simp add: cs_clone_def)
    with Some None entries_remove [OF inv, of src t i] inv show ?thesis
      by (intro dead [of e ?\<sigma>]) (simp_all add: clone_capability_None_iff)
  next
    case clone: (Some nc)
    let ?j = "CapId_new t (cap_flags nc) (cap_is_weak nc) (cs_next_id (\<sigma> dst))"
    have fresh: "entries \<sigma> dst t ?j = None"
      unfolding entries_def by (rule fresh_id [OF all_invD [OF inv] nxt])
    show ?thesis
    proof (cases rule: cs_insert_spec [OF inv nxt, of t nc])
      case (1 cs)
      let ?\<sigma> = "\<sigma>(dst := cs)"
      let ?\<tau> = "if destroy then ?\<sigma>(src := fst (cs_remove env t (?\<sigma> src) i)) else ?\<sigma>"
      have "cs_clone env t \<sigma> dst src i perms w destroy wad = Some (?\<tau>, Ok ?j)"
        using get clone 1(1) by (simp add: cs_clone_def Let_def)
      moreover have "all_inv env ?\<tau>" using 1(2) entries_remove(2) [OF 1(2), of src t i] by simp
      moreover note entries_remove(1) [OF 1(2), of src t i]
      ultimately show ?thesis
        using Some clone fresh 1(3) by (intro cloned [of e nc ?j ?\<tau>]) (simp_all add: Let_def)
    next
      case (2 cs)
      with Some get clone show ?thesis
        by (intro oom [of e "\<sigma>(dst := cs)"]) (simp_all add: cs_clone_def)
    qed
  qed
qed

subsection \<open>System calls: integrity and confinement\<close>

text \<open>
  The spaces a caller may change: its own, and those that it holds a visible capability to
  with write permission.
\<close>

definition may_write :: "cspaces \<Rightarrow> object_id \<Rightarrow> object_id \<Rightarrow> bool" where
  "may_write \<sigma> cur c \<longleftrightarrow> c = cur \<or>
     (\<exists>n e. entries \<sigma> cur CT_CapabilitySpace n = Some e \<and> ce_visible e \<and>
        flags_contains (cap_flags (ce_capability e)) CapFlags_WRITE \<and> cap_object (ce_capability e) = c)"

definition confined :: "cspaces \<Rightarrow> object_id \<Rightarrow> cspaces \<Rightarrow> bool" where
  "confined \<sigma> cur \<sigma>' \<longleftrightarrow> (\<forall>c. \<not> may_write \<sigma> cur c \<longrightarrow> \<sigma>' c = \<sigma> c)"

text \<open>
  Every capability of the second contents stems from one of the first: the same type and
  object, and permissions included in that one's.
\<close>

definition stems_from :: "contents \<Rightarrow> CapType \<Rightarrow> capability \<Rightarrow> bool" where
  "stems_from E t cap \<longleftrightarrow>
     (\<exists>c0 i0 e0. E c0 t i0 = Some e0 \<and> cap_object cap = cap_object (ce_capability e0) \<and>
        flags_contains (cap_flags (ce_capability e0)) (cap_flags cap))"

definition derives :: "contents \<Rightarrow> contents \<Rightarrow> bool" where
  "derives E E' \<longleftrightarrow>
     (\<forall>c t i e. E' c t i = Some e \<longrightarrow> stems_from E t (ce_capability e))"

lemma stems_from_entry: "E c t i = Some e \<Longrightarrow> stems_from E t (ce_capability e)"
  unfolding stems_from_def using flags_contains_refl by blast

lemma derives_refl [simp]: "derives E E"
  by (auto simp: derives_def stems_from_entry)

lemma derives_trans:
  assumes "derives E F" and "derives F G"
  shows "derives E G"
  unfolding derives_def
proof (intro allI impI)
  fix c t i e
  assume "G c t i = Some e"
  with assms(2) have "stems_from F t (ce_capability e)" by (simp add: derives_def)
  then obtain c0 i0 e0 where e0: "F c0 t i0 = Some e0"
      "cap_object (ce_capability e) = cap_object (ce_capability e0)"
      "flags_contains (cap_flags (ce_capability e0)) (cap_flags (ce_capability e))"
    by (auto simp: stems_from_def)
  with assms(1) have "stems_from E t (ce_capability e0)" by (simp add: derives_def)
  with e0(2,3) show "stems_from E t (ce_capability e)"
    by (auto simp: stems_from_def intro: flags_contains_trans)
qed

lemma derives_remove: "derives E F \<Longrightarrow> derives E (ent_upd F c t i None)"
  unfolding derives_def by (simp add: ent_upd_apply)

lemma derives_clone:
  assumes "E src t i = Some e" and "clone_capability env (ce_capability e) perms w = Some nc"
    and "j = CapId_new t (cap_flags nc) (cap_is_weak nc) b" and "b < 2 ^ 54"
  shows "derives E (ent_upd E dst t j (Some \<lparr>ce_visible = True, ce_capability = set_id nc j\<rparr>))"
proof -
  note nc = clone_capability_spec [OF assms(2)]
  have "cap_flags (set_id nc j) = CapId_flags j" by (simp add: cap_flags_def)
  also have "\<dots> = cap_flags nc"
    unfolding assms(3) using assms(4) by (intro CapId_new_fields(1)) (simp add: cap_id_wf_def)
  finally have "flags_contains (cap_flags (ce_capability e)) (cap_flags (set_id nc j))"
    using nc(2) by simp
  moreover have "cap_object (set_id nc j) = cap_object (ce_capability e)" using nc(1) by simp
  ultimately have "stems_from E t (set_id nc j)" using assms(1) by (auto simp: stems_from_def)
  then show ?thesis
    by (auto simp: derives_def ent_upd_apply stems_from_entry split: if_splits)
qed

lemma select_cspace_spec:
  assumes inv: "all_inv env \<sigma>"
  obtains (ok) c where "select_cspace env \<sigma> cur self n wad = (\<sigma>, Ok c)" "may_write \<sigma> cur c"
    | (err) \<sigma>' x where "select_cspace env \<sigma> cur self n wad = (\<sigma>', Err x)" "all_inv env \<sigma>'"
      "confined \<sigma> cur \<sigma>'" "derives (entries \<sigma>) (entries \<sigma>')"
proof (cases "self \<or> snd (cs_get_with_perms env CT_CapabilitySpace (\<sigma> cur) n CapFlags_WRITE wad) \<in> range Ok")
  case True
  show ?thesis
  proof (cases self)
    case True
    then show ?thesis by (intro ok [of cur]) (simp_all add: select_cspace_def may_write_def)
  next
    case False
    with True obtain e where e: "cs_entry (\<sigma> cur) CT_CapabilitySpace n = Some e" "ce_visible e"
        "flags_contains (cap_flags (ce_capability e)) CapFlags_WRITE"
        "cs_get_with_perms env CT_CapabilitySpace (\<sigma> cur) n CapFlags_WRITE wad =
           (\<sigma> cur, Ok (Strong (cap_object (ce_capability e)) n))"
      by (auto simp: cs_get_with_perms_eq [OF all_invD [OF inv]] split: option.splits if_splits)
    then have "may_write \<sigma> cur (cap_object (ce_capability e))"
      by (auto simp: may_write_def entries_def)
    with e(4) False show ?thesis
      by (intro ok [of "cap_object (ce_capability e)"]) (simp_all add: select_cspace_def)
  qed
next
  case False
  let ?cs = "fst (cs_get_with_perms env CT_CapabilitySpace (\<sigma> cur) n CapFlags_WRITE wad)"
  from False obtain x where x: "select_cspace env \<sigma> cur self n wad = (\<sigma>(cur := ?cs), Err x)"
    by (auto simp: select_cspace_def cs_get_with_perms_eq [OF all_invD [OF inv]]
        split: option.splits if_splits)
  have "?cs = \<sigma> cur \<or> ?cs = fst (cs_remove env CT_CapabilitySpace (\<sigma> cur) n)"
    by (auto simp: cs_get_with_perms_eq [OF all_invD [OF inv]] split: option.splits)
  with entries_remove [OF inv, of cur CT_CapabilitySpace n] inv
  have "all_inv env (\<sigma>(cur := ?cs))" "derives (entries \<sigma>) (entries (\<sigma>(cur := ?cs)))"
    by (auto simp: derives_remove)
  moreover have "confined \<sigma> cur (\<sigma>(cur := ?cs))" by (simp add: confined_def may_write_def)
  ultimately show ?thesis using x by (intro err)
qed

lemma cs_clone_derives:
  assumes inv: "all_inv env \<sigma>" and nxt: "cs_next_id (\<sigma> dst) < 2 ^ 54"
  shows "\<exists>\<sigma>' r. cs_clone env t \<sigma> dst src i perms w destroy wad = Some (\<sigma>', r) \<and> r \<noteq> Panic \<and>
    all_inv env \<sigma>' \<and> derives (entries \<sigma>) (entries \<sigma>')"
proof (cases rule: cs_clone_cases [OF inv nxt, of src t i perms w destroy wad])
  case 1
  with inv show ?thesis by auto
next
  case (2 e \<sigma>')
  then show ?thesis by (auto simp: derives_remove)
next
  case (3 e \<sigma>')
  then show ?thesis by auto
next
  case (4 e nc j \<sigma>')
  from derives_clone [where E = "entries \<sigma>", OF 4(1,2,3) nxt, of dst] 4(5,6,7) show ?thesis
    by (auto simp: Let_def derives_remove)
qed

lemma cs_clone_confined:
  assumes "cs_clone env t \<sigma> dst src i perms w destroy wad = Some (\<sigma>', r)" and "c \<noteq> dst" and "c \<noteq> src"
  shows "\<sigma>' c = \<sigma> c"
  using assms by (auto simp: cs_clone_def Let_def split: kresult.splits option.splits if_splits prod.splits)

lemma sys_cap_clone_effect:
  assumes inv: "all_inv env \<sigma>" and nxt: "\<forall>c. cs_next_id (\<sigma> c) < 2 ^ 54"
  shows "\<exists>\<sigma>' r. sys_cap_clone env \<sigma> cur options d s n = Some (\<sigma>', r) \<and> all_inv env \<sigma>' \<and>
    confined \<sigma> cur \<sigma>' \<and> derives (entries \<sigma>) (entries \<sigma>')"
proof (cases "CapId_try_from n")
  case None
  with inv show ?thesis by (simp add: sys_cap_clone_def confined_def Let_def)
next
  case (Some i)
  let ?f = "CapCloneFlags_from_bits_truncate options" and ?wad = "options_weak_autodestroy options"
  show ?thesis
  proof (cases rule: select_cspace_spec [OF inv, of cur "flags_contains ?f SRC_CSPACE_SELF" s ?wad])
    case src: (1 sc)
    show ?thesis
    proof (cases rule: select_cspace_spec [OF inv, of cur "flags_contains ?f DST_CSPACE_SELF" d ?wad])
      case dst: (1 dc)
      obtain t where t: "CapId_cap_type i = Ok t" using Some by (auto simp: CapId_try_from_iff)
      show ?thesis
      proof (cases "cap_type_supported t")
        case True
        let ?w = "if flags_contains ?f CHANGE_CAP_WEAKNESS
          then if flags_contains ?f MAKE_WEAK then MakeWeak else MakeStrong else KeepSame"
        have "cs_next_id (\<sigma> dc) < 2 ^ 54" using nxt by blast
        from cs_clone_derives [OF inv this, of t sc i "CapFlags_from_clone_flags ?f" ?w
            "flags_contains ?f DESTROY_SRC_CAP" ?wad]
        obtain \<sigma>' r where *: "cs_clone env t \<sigma> dc sc i (CapFlags_from_clone_flags ?f) ?w
            (flags_contains ?f DESTROY_SRC_CAP) ?wad = Some (\<sigma>', r)" "all_inv env \<sigma>'"
            "derives (entries \<sigma>) (entries \<sigma>')" by blast
        have "confined \<sigma> cur \<sigma>'"
          unfolding confined_def using cs_clone_confined [OF *(1)] src(2) dst(2) by metis
        with * Some src(1) dst(1) t True show ?thesis
          by (simp add: sys_cap_clone_def cs_cap_clone_def Let_def)
      next
        case False
        with Some src(1) dst(1) t inv show ?thesis
          by (simp add: sys_cap_clone_def cs_cap_clone_def Let_def confined_def)
      qed
    next
      case (2 \<sigma>' x)
      with Some src(1) show ?thesis by (simp add: sys_cap_clone_def Let_def)
    qed
  next
    case (2 \<sigma>' x)
    with Some show ?thesis by (simp add: sys_cap_clone_def Let_def)
  qed
qed

lemma sys_cap_destroy_effect:
  assumes inv: "all_inv env \<sigma>" and run: "sys_cap_destroy env \<sigma> cur options p n = (\<sigma>', r)"
  shows "all_inv env \<sigma>' \<and> confined \<sigma> cur \<sigma>' \<and> derives (entries \<sigma>) (entries \<sigma>')"
proof (cases "CapId_try_from n")
  case None
  with inv run show ?thesis by (simp add: sys_cap_destroy_def confined_def Let_def)
next
  case (Some i)
  let ?f = "CapDestroyFlags_from_bits_truncate options" and ?wad = "options_weak_autodestroy options"
  show ?thesis
  proof (cases rule: select_cspace_spec [OF inv, of cur "flags_contains ?f CSPACE_SELF" p ?wad])
    case (1 c)
    obtain t where t: "CapId_cap_type i = Ok t" using Some by (auto simp: CapId_try_from_iff)
    have "\<sigma>' = (if cap_type_supported t then \<sigma>(c := fst (cs_remove env t (\<sigma> c) i)) else \<sigma>)"
      using run Some 1(1) t by (auto simp: sys_cap_destroy_def Let_def split: prod.splits if_splits)
    with inv entries_remove [OF inv, of c t i] 1(2) show ?thesis
      by (auto simp: confined_def derives_remove)
  next
    case (2 \<sigma>'' x)
    with run Some show ?thesis by (simp add: sys_cap_destroy_def Let_def)
  qed
qed

text \<open>
  Runs of the system: any thread, in any capability space, makes any of the two system calls
  with any arguments, while the memory left and the objects alive vary from call to call.
  Fewer than \<open>2 ^ 54\<close> identifiers have been handed out in each space.
\<close>

inductive cap_step :: "(CapId \<Rightarrow> nat) \<Rightarrow> cspaces \<Rightarrow> cspaces \<Rightarrow> bool" for hash where
  clone: "\<forall>c. cs_next_id (\<sigma> c) < 2 ^ 54 \<Longrightarrow> env_hash env = hash \<Longrightarrow>
    sys_cap_clone env \<sigma> cur options d s n = Some (\<sigma>', r) \<Longrightarrow> cap_step hash \<sigma> \<sigma>'"
| destroy: "env_hash env = hash \<Longrightarrow>
    sys_cap_destroy env \<sigma> cur options p n = (\<sigma>', r') \<Longrightarrow> cap_step hash \<sigma> \<sigma>'"

inductive cap_reach :: "(CapId \<Rightarrow> nat) \<Rightarrow> cspaces \<Rightarrow> cspaces \<Rightarrow> bool" for hash \<sigma> where
  start: "cap_reach hash \<sigma> \<sigma>"
| step: "cap_reach hash \<sigma> \<sigma>' \<Longrightarrow> cap_step hash \<sigma>' \<sigma>'' \<Longrightarrow> cap_reach hash \<sigma> \<sigma>''"

lemma all_inv_hash: "env_hash env = env_hash env' \<Longrightarrow> all_inv env \<sigma> = all_inv env' \<sigma>"
  by (simp add: all_inv_def cs_inv_def)

lemma cap_step_derives:
  assumes "cap_step (env_hash env) \<sigma> \<sigma>'" and "all_inv env \<sigma>"
  shows "all_inv env \<sigma>' \<and> derives (entries \<sigma>) (entries \<sigma>')"
  using assms
proof (cases rule: cap_step.cases)
  case (clone env' cur options d s n r)
  with assms(2) all_inv_hash [OF clone(2)] sys_cap_clone_effect [of env' \<sigma> cur options d s n]
  show ?thesis by auto
next
  case (destroy env' cur options p n r)
  with assms(2) all_inv_hash [OF destroy(1)] sys_cap_destroy_effect [of env' \<sigma> cur options p n \<sigma>' r]
  show ?thesis by auto
qed

subsection \<open>An example\<close>

text \<open>One space holding a strong key capability to object 7 with permissions read and write.\<close>

definition example_env :: cap_env where
  "example_env = (\<lambda>c. True, \<lambda>i. 0, \<lambda>obj. True)"

definition single_cs :: "CapType \<Rightarrow> CapId \<Rightarrow> CapabilityEntry \<Rightarrow> CapabilitySpace" where
  "single_cs t i e =
     \<lparr>cs_next_id = 1, cs_map = (\<lambda>u. hm_new)(t := \<lparr>hm_data = [Occupied i e], hm_len = 1\<rparr>)\<rparr>"

lemma hm_insert_new:
  "grant 1 \<Longrightarrow> hm_insert grant hash hm_new k v = Some (\<lparr>hm_data = [Occupied k v], hm_len = 1\<rparr>, Ok None)"
  by (simp add: hm_insert_eq hm_insert_body_def hm_try_rehash_def hm_new_def hm_try_with_capacity_def
      hm_probe_insert_def get_key_start_index_def)

lemma insert_single:
  assumes "env_grant env 1" and "i = CapId_new t (cap_flags c) (cap_is_weak c) 0"
  shows "cs_insert_inner env t cs_new c v =
      Some (single_cs t i \<lparr>ce_visible = v, ce_capability = set_id c i\<rparr>, Ok i)"
    and "cs_inv env (single_cs t i \<lparr>ce_visible = v, ce_capability = set_id c i\<rparr>)"
proof -
  show *: "cs_insert_inner env t cs_new c v =
      Some (single_cs t i \<lparr>ce_visible = v, ce_capability = set_id c i\<rparr>, Ok i)"
    using assms by (simp add: cs_insert_inner_def cs_new_def Let_def hm_insert_new cs_set_map_def single_cs_def)
  from cs_insert_inner_spec [OF cs_inv_new, of env t c v] *
  show "cs_inv env (single_cs t i \<lparr>ce_visible = v, ce_capability = set_id c i\<rparr>)"
    by (auto simp: cs_new_def)
qed

lemma single_cs_entry: "cs_entry (single_cs t i e) = (\<lambda>u. Map.empty)(t := [i \<mapsto> e])"
  by (simp add: cs_entry_def single_cs_def fun_eq_iff hm_abs_def hm_into_iter_def hm_new_def)

definition example_cs :: CapabilitySpace where
  "example_cs = single_cs CT_Key 357 \<lparr>ce_visible = True, ce_capability = Strong 7 357\<rparr>"

lemma example_inv: "cs_inv example_env example_cs"
proof -
  have "cap_flags (Strong_new_flags 7 5) = 5"
    by (simp add: cap_flags_def Strong_new_flags_def cap_id_simps)
  moreover have "CapId_new CT_Key 5 False 0 = 357"
    by (subst CapId_new_eq) (simp_all add: cap_id_wf_def)
  ultimately show ?thesis
    using insert_single(2) [of example_env 357 CT_Key "Strong_new_flags 7 5" True]
    by (simp add: example_env_def example_cs_def Strong_new_flags_def)
qed

lemma example_entries:
  "cs_entry example_cs CT_Key 357 = Some \<lparr>ce_visible = True, ce_capability = Strong 7 357\<rparr>"
  by (simp add: example_cs_def single_cs_entry)

lemma example_flags: "cap_flags (Strong 7 357) = 5"
  by (simp add: cap_flags_def CapId_flags_def flags_truncate_eq)

definition example_spaces :: cspaces where
  "example_spaces = (\<lambda>c. cs_new)(0 := example_cs)"

lemma example_all_inv: "all_inv example_env example_spaces"
  by (simp add: all_inv_def example_spaces_def example_inv cs_inv_new)

lemma example_spaces_entry:
  "entries example_spaces 0 CT_Key 357 = Some \<lparr>ce_visible = True, ce_capability = Strong 7 357\<rparr>"
  by (simp add: entries_def example_spaces_def example_entries)

lemma example_next: "cs_next_id (example_spaces c) < 2 ^ 54"
  by (simp add: example_spaces_def example_cs_def single_cs_def cs_new_def)

subsection \<open>Properties\<close>





text \<open>
  C17. Looking a capability up.  The lookup succeeds exactly for an identifier that is stored
  in the space under the requested type, visible, has all required permissions and refers to
  a live object, and then yields that object; every other case has its own error code, and
  only the failed upgrade of a weak capability, when asked to, removes the entry.
\<close>

theorem get_with_perms_spec:
  assumes "cs_inv env cs"
  shows "case cs_entry cs t n of
      None \<Rightarrow> cs_get_with_perms env t cs n perms wad = (cs, Err InvlId)
    | Some e \<Rightarrow>
        (\<not> ce_visible e \<longrightarrow> cs_get_with_perms env t cs n perms wad = (cs, Err InvlId)) \<and>
        (ce_visible e \<and> \<not> flags_contains (cap_flags (ce_capability e)) perms \<longrightarrow>
          cs_get_with_perms env t cs n perms wad = (cs, Err InvlPerm)) \<and>
        (ce_visible e \<and> flags_contains (cap_flags (ce_capability e)) perms \<longrightarrow>
          (if cap_is_weak (ce_capability e) \<and> \<not> env_alive env (cap_object (ce_capability e))
           then \<exists>cs'. cs_get_with_perms env t cs n perms wad = (cs', Err InvlWeak) \<and> cs_inv env cs' \<and>
             cs_entry cs' = (if wad then (cs_entry cs)(t := (cs_entry cs t)(n := None)) else cs_entry cs)
           else cs_get_with_perms env t cs n perms wad = (cs, Ok (Strong (cap_object (ce_capability e)) n))))"
  using assms cs_remove_spec(1,2) [OF assms, of t n]
  by (auto simp: cs_get_with_perms_eq [OF assms] split: option.split)

theorem get_with_perms_spec_witness:
  "cs_get_with_perms example_env CT_Key example_cs 357 CapFlags_READ False = (example_cs, Ok (Strong 7 357)) \<and>
   cs_get_with_perms example_env CT_Key example_cs 357 CapFlags_PROD False = (example_cs, Err InvlPerm) \<and>
   cs_get_with_perms example_env CT_Memory example_cs 357 CapFlags_READ False = (example_cs, Err InvlId)"
proof -
  have "flags_contains 5 CapFlags_READ" "\<not> flags_contains 5 CapFlags_PROD"
    by (simp_all add: flags_contains_def CapFlags_READ_def CapFlags_PROD_def)
  moreover have "cs_entry example_cs CT_Memory 357 = None"
    by (simp add: example_cs_def single_cs_entry)
  ultimately show ?thesis
    using get_with_perms_spec [OF example_inv, of CT_Key 357 CapFlags_READ False]
      get_with_perms_spec [OF example_inv, of CT_Key 357 CapFlags_PROD False]
      get_with_perms_spec [OF example_inv, of CT_Memory 357 CapFlags_READ False]
    by (simp add: example_entries example_flags)
qed



text \<open>
  C27. Two checks that the clone does not make.  A capability that was inserted as invisible
  cannot be looked up, but it can be cloned, and the copy is visible.  And a weak capability
  to a live object becomes a strong one whatever its permissions are: the permission to
  upgrade is never consulted.
\<close>

theorem clone_unchecked:
  assumes inv: "all_inv env \<sigma>" and nxt: "cs_next_id (\<sigma> src) < 2 ^ 54"
    and e: "entries \<sigma> src t i = Some e"
    and hidden: "\<not> ce_visible e" and weak: "cap_is_weak (ce_capability e)"
    and alive: "env_alive env (cap_object (ce_capability e))"
  shows "snd (cs_get_with_perms env t (\<sigma> src) i perms wad) = Err InvlId \<and>
    (\<exists>\<sigma>' r. cs_clone env t \<sigma> src src i perms MakeStrong False wad = Some (\<sigma>', r) \<and>
      (r = Err OutOfMem \<or>
       (\<exists>j cap. r = Ok j \<and> \<not> cap_is_weak cap \<and> cap_object cap = cap_object (ce_capability e) \<and>
         entries \<sigma>' src t j = Some \<lparr>ce_visible = True, ce_capability = cap\<rparr>)))"
proof
  show "snd (cs_get_with_perms env t (\<sigma> src) i perms wad) = Err InvlId"
    using e hidden by (simp add: cs_get_with_perms_eq [OF all_invD [OF inv]] entries_def)
  show "\<exists>\<sigma>' r. cs_clone env t \<sigma> src src i perms MakeStrong False wad = Some (\<sigma>', r) \<and>
      (r = Err OutOfMem \<or>
       (\<exists>j cap. r = Ok j \<and> \<not> cap_is_weak cap \<and> cap_object cap = cap_object (ce_capability e) \<and>
         entries \<sigma>' src t j = Some \<lparr>ce_visible = True, ce_capability = cap\<rparr>))"
  proof (cases rule: cs_clone_cases [OF inv nxt, of src t i perms MakeStrong False wad])
    case (4 e' nc j \<sigma>')
    with clone_capability_spec [OF 4(2)] e show ?thesis
      by (auto simp: ent_upd_apply intro!: exI [of _ "set_id nc j"])
  qed (use e alive in auto)
qed

text \<open>The witness: an invisible weak capability to object 7 with read permission only.\<close>

definition hidden_entry :: CapabilityEntry where
  "hidden_entry = \<lparr>ce_visible = False, ce_capability = Weak 7 369\<rparr>"

definition hidden_spaces :: cspaces where
  "hidden_spaces = (\<lambda>c. single_cs CT_Key 369 hidden_entry)"

lemma hidden_inv: "all_inv example_env hidden_spaces"
proof -
  have "cap_flags (Weak_new_flags 7 1) = 1"
    by (simp add: cap_flags_def Weak_new_flags_def cap_id_simps)
  moreover have "CapId_new CT_Key 1 True 0 = 369"
    by (subst CapId_new_eq) (simp_all add: cap_id_wf_def)
  ultimately show ?thesis
    using insert_single(2) [of example_env 369 CT_Key "Weak_new_flags 7 1" False]
    by (simp add: all_inv_def example_env_def hidden_spaces_def hidden_entry_def Weak_new_flags_def)
qed

theorem clone_unchecked_witness:
  "\<exists>\<sigma>' r. cs_clone example_env CT_Key hidden_spaces 0 0 369 CapFlags_READ MakeStrong False False = Some (\<sigma>', r) \<and>
      (r = Err OutOfMem \<or>
       (\<exists>j cap. r = Ok j \<and> \<not> cap_is_weak cap \<and> cap_object cap = 7 \<and>
         entries \<sigma>' 0 CT_Key j = Some \<lparr>ce_visible = True, ce_capability = cap\<rparr>))"
proof -
  have "cs_next_id (hidden_spaces 0) < 2 ^ 54" by (simp add: hidden_spaces_def single_cs_def)
  moreover have "entries hidden_spaces 0 CT_Key 369 = Some hidden_entry"
    by (simp add: hidden_spaces_def entries_def single_cs_entry)
  moreover have "\<not> ce_visible hidden_entry" "cap_is_weak (ce_capability hidden_entry)"
      "cap_object (ce_capability hidden_entry) = 7" "env_alive example_env 7"
    by (simp_all add: hidden_entry_def example_env_def)
  ultimately show ?thesis
    using clone_unchecked [OF hidden_inv, of 0 CT_Key 369 hidden_entry CapFlags_READ False] by simp
qed

end
