(* ===== verification/Mem_Addr.thy ===== *)
theory Mem_Addr
  imports Bit_Utils
begin

text \<open>
  \<^verbatim>\<open>kernel/src/mem/addr.rs\<close>, \<^verbatim>\<open>page_layout.rs\<close> and \<^verbatim>\<open>allocation.rs\<close>: physical and virtual
  addresses, page layouts and allocations.  The address newtypes are their number; the
  invariant of the newtype is what the constructors check.  \<open>vma\<close> stands for the linker
  symbol \<^verbatim>\<open>KERNEL_VMA\<close>, the offset of the physical memory window.
\<close>

type_synonym PhysAddr = usize
type_synonym VirtAddr = usize

subsection \<open>Physical addresses\<close>

definition phys_MASK :: usize where
  "phys_MASK = 0x000fffffffffffff"

definition phys_try_new :: "usize \<Rightarrow> PhysAddr option" where
  "phys_try_new addr = (if get_bits addr 48 64 = 0 then Some addr else None)"

definition phys_new :: "usize \<Rightarrow> PhysAddr kresult" where
  "phys_new addr = expect (phys_try_new addr)"

definition phys_new_truncate :: "usize \<Rightarrow> PhysAddr" where
  "phys_new_truncate addr = addr AND phys_MASK"

subsection \<open>Virtual addresses\<close>

definition virt_MASK :: usize where
  "virt_MASK = 0x0000ffffffffffff"

definition virt_new_truncate :: "usize \<Rightarrow> VirtAddr" where
  "virt_new_truncate addr =
     (if get_bits addr 47 48 = 0 then addr AND virt_MASK else addr OR unot virt_MASK)"

definition virt_try_new :: "usize \<Rightarrow> VirtAddr option" where
  "virt_try_new addr =
     (let top = get_bits addr 47 64 in
      if top = 0 then Some addr
      else if top = 1 then Some (virt_new_truncate addr)
      else if top = 0x1ffff then Some addr
      else None)"

definition virt_new :: "usize \<Rightarrow> VirtAddr kresult" where
  "virt_new addr = expect (virt_try_new addr)"

definition virt_try_new_aligned :: "usize \<Rightarrow> VirtAddr kresult" where
  "virt_try_new_aligned addr =
     (if \<not> page_aligned addr then Err InvlAlign else ok_or (virt_try_new addr) InvlVirtAddr)"

subsection \<open>Conversions\<close>

definition to_virt :: "usize \<Rightarrow> PhysAddr \<Rightarrow> VirtAddr kresult" where
  "to_virt vma pa = rbind (uadd pa vma) (\<lambda>a. expect (virt_try_new a))"

definition to_phys :: "usize \<Rightarrow> VirtAddr \<Rightarrow> PhysAddr kresult" where
  "to_phys vma va = (if va < vma then Panic else phys_new (va - vma))"

definition phys_to_virt :: "usize \<Rightarrow> usize \<Rightarrow> usize kresult" where
  "phys_to_virt vma addr = to_virt vma addr"

definition virt_to_phys :: "usize \<Rightarrow> usize \<Rightarrow> usize kresult" where
  "virt_to_phys vma addr = to_phys vma addr"

subsection \<open>Address arithmetic\<close>

text \<open>
  The methods generated by the macro \<^verbatim>\<open>addr_methods!\<close>.  Its parameter \<^verbatim>\<open>$addr\<close> is used through
  its constructor \<^verbatim>\<open>$addr::new\<close>, here the argument \<open>nw\<close> (\<open>phys_new\<close> or \<open>virt_new\<close>).
\<close>

definition addr_align_down :: "usize \<Rightarrow> usize \<Rightarrow> usize kresult" where
  "addr_align_down a align = align_down a align"

definition addr_align_up :: "(usize \<Rightarrow> usize kresult) \<Rightarrow> usize \<Rightarrow> usize \<Rightarrow> usize kresult" where
  "addr_align_up nw a align = rbind (align_up a align) nw"

definition addr_add :: "(usize \<Rightarrow> usize kresult) \<Rightarrow> usize \<Rightarrow> usize \<Rightarrow> usize kresult" where
  "addr_add nw a rhs = rbind (uadd a rhs) nw"

definition addr_sub :: "(usize \<Rightarrow> usize kresult) \<Rightarrow> usize \<Rightarrow> usize \<Rightarrow> usize kresult" where
  "addr_sub nw a rhs = rbind (usub a rhs) nw"

definition addr_diff :: "usize \<Rightarrow> usize \<Rightarrow> usize kresult" where
  "addr_diff a b = usub a b"

subsection \<open>Page layouts\<close>

record PageLayout =
  pl_size :: usize
  pl_align :: usize

definition is_power_of_two :: "usize \<Rightarrow> bool" where
  "is_power_of_two n \<longleftrightarrow> n \<noteq> 0 \<and> n = 2 ^ log2 n"

definition new_rounded :: "usize \<Rightarrow> usize \<Rightarrow> PageLayout option kresult" where
  "new_rounded sz align =
     rbind (align_up sz PAGE_SIZE) (\<lambda>s.
       let sz = max s PAGE_SIZE; align = max align PAGE_SIZE in
       if (usize_limit - 1) - (align - 1) < sz then Ok None
       else Ok (Some \<lparr>pl_size = sz, pl_align = align\<rparr>))"

definition from_size_align :: "usize \<Rightarrow> usize \<Rightarrow> PageLayout option" where
  "from_size_align sz align =
     (if \<not> is_power_of_two align \<or> (usize_limit - 1) - (align - 1) < sz \<or> sz = 0
         \<or> align_of sz < PAGE_SIZE \<or> align_of align < PAGE_SIZE
      then None else Some \<lparr>pl_size = sz, pl_align = align\<rparr>)"

subsection \<open>Allocations\<close>

record Allocation =
  al_ptr :: VirtAddr
  al_size :: usize
  zindex :: "usize option"

definition Allocation_new :: "usize \<Rightarrow> usize \<Rightarrow> Allocation kresult" where
  "Allocation_new addr sz =
     rbind (virt_new addr) (\<lambda>p. Ok \<lparr>al_ptr = p, al_size = sz, zindex = None\<rparr>)"

text \<open>
  Copying into an allocation: \<open>mem\<close> is the content of the allocation, the result is the
  number of bytes copied and the new content.
\<close>

definition copy_from_mem_offset :: "'b list \<Rightarrow> nat \<Rightarrow> 'b list \<Rightarrow> nat \<times> 'b list" where
  "copy_from_mem_offset mem offset data =
     (if length mem \<le> offset then (0, mem) else
      let size = min (length mem - offset) (length data) in
      (size, take offset mem @ take size data @ drop (offset + size) mem))"

definition copy_from_mem :: "'b list \<Rightarrow> 'b list \<Rightarrow> nat \<times> 'b list" where
  "copy_from_mem mem data = copy_from_mem_offset mem 0 data"

subsection \<open>Canonical addresses\<close>

text \<open>The addresses the constructors accept unchanged.\<close>

definition phys_ok :: "usize \<Rightarrow> bool" where
  "phys_ok a \<longleftrightarrow> a < 2 ^ 48"

definition virt_ok :: "usize \<Rightarrow> bool" where
  "virt_ok a \<longleftrightarrow> a < 2 ^ 47 \<or> (HIGHER_HALF_START \<le> a \<and> a < usize_limit)"

lemma top_bits_phys: "a < usize_limit \<Longrightarrow> get_bits a 48 64 = a div 2 ^ 48"
  by (simp add: get_bits_eq)

lemma top_bits_virt: "a < usize_limit \<Longrightarrow> get_bits a 47 64 = a div 2 ^ 47"
  by (simp add: get_bits_eq)

lemma phys_new_eq:
  "a < usize_limit \<Longrightarrow> phys_new a = (if phys_ok a then Ok a else Panic)"
  using top_bits_phys [of a]
  by (auto simp: phys_new_def phys_try_new_def phys_ok_def div_eq_0_iff)

lemma phys_new_ok [simp]: "phys_ok a \<Longrightarrow> phys_new a = Ok a"
  using phys_new_eq [of a] by (simp add: phys_ok_def)

lemma virt_new_ok [simp]:
  assumes "virt_ok a"
  shows "virt_new a = Ok a"
proof -
  have "a < usize_limit" using assms by (auto simp: virt_ok_def)
  then have top: "get_bits a 47 64 = a div 2 ^ 47" by (rule top_bits_virt)
  have "a div 2 ^ 47 = 0 \<or> a div 2 ^ 47 = 0x1ffff"
    using assms by (auto simp: virt_ok_def HIGHER_HALF_START_def div_eq_0_iff intro: div_nat_eqI)
  with top show ?thesis by (auto simp: virt_new_def virt_try_new_def)
qed

text \<open>Sign extension: an address with bit 47 set and nothing above moves to the upper half.\<close>

lemma virt_truncate_high:
  assumes "2 ^ 47 \<le> a" and "a < 2 ^ 48"
  shows "virt_new_truncate a = a + (usize_limit - 2 ^ 48)"
proof -
  have b: "get_bits a 47 48 = 1"
    using assms by (simp add: get_bits_eq div_nat_eqI)
  have t: "take_bit 48 a = a" using assms(2) by (simp add: take_bit_nat_eq_self)
  have "a OR unot virt_MASK = a OR push_bit 48 (mask 16)"
  proof (rule bit_eqI)
    fix i
    have m: "virt_MASK = mask 48" by (simp add: virt_MASK_def mask_eq_exp_minus_1)
    have "bit (unot virt_MASK) i \<longleftrightarrow> i < 64 \<and> \<not> i < 48"
      unfolding m by (simp add: bit_unot bit_simps)
    then show "bit (a OR unot virt_MASK) i = bit (a OR push_bit 48 (mask 16)) i"
      by (auto simp: bit_simps)
  qed
  also have "\<dots> = a + push_bit 48 (mask 16)"
  proof (rule disjunctive_add_eq_or [symmetric], rule bit_eqI)
    fix i
    have "bit a i \<Longrightarrow> i < 48" using t by (metis bit_take_bit_iff)
    then show "bit (a AND push_bit 48 (mask 16)) i = bit 0 i" by (auto simp: bit_simps)
  qed
  also have "push_bit 48 (mask 16) = usize_limit - 2 ^ 48"
    by (simp add: push_bit_eq_mult mask_eq_exp_minus_1)
  finally show ?thesis using b by (simp add: virt_new_truncate_def)
qed

lemma virt_try_new_sound:
  assumes "a < usize_limit" and "virt_try_new a = Some v"
  shows "virt_ok v"
proof -
  have top: "get_bits a 47 64 = a div 2 ^ 47" using assms(1) by (rule top_bits_virt)
  consider "a div 2 ^ 47 = 0" | "a div 2 ^ 47 = 1" | "a div 2 ^ 47 = 0x1ffff"
    using assms(2) top by (auto simp: virt_try_new_def Let_def split: if_splits)
  then show ?thesis
  proof cases
    case 1
    with assms(2) top show ?thesis by (auto simp: virt_try_new_def virt_ok_def div_eq_0_iff)
  next
    case 2
    then have "2 ^ 47 \<le> a" "a < 2 ^ 48" by simp_all
    with virt_truncate_high [of a] 2 assms(2) top show ?thesis
      by (auto simp: virt_try_new_def virt_ok_def HIGHER_HALF_START_def)
  next
    case 3
    then have "HIGHER_HALF_START \<le> a" by (simp add: HIGHER_HALF_START_def)
    with 3 assms top show ?thesis by (auto simp: virt_try_new_def virt_ok_def)
  qed
qed

text \<open>The window of physical memory: the two conversions are inverse to each other on it.\<close>

lemma to_phys_to_virt:
  assumes "phys_ok pa" and "virt_ok (pa + vma)"
  shows "to_virt vma pa = Ok (pa + vma)" and "to_phys vma (pa + vma) = Ok pa"
proof -
  have "pa + vma < usize_limit" using assms(2) by (auto simp: virt_ok_def)
  moreover have "expect (virt_try_new (pa + vma)) = Ok (pa + vma)"
    using virt_new_ok [OF assms(2)] by (simp add: virt_new_def)
  ultimately show "to_virt vma pa = Ok (pa + vma)" by (simp add: to_virt_def uadd_def)
  show "to_phys vma (pa + vma) = Ok pa" using assms(1) by (simp add: to_phys_def)
qed

lemma is_power_of_two_iff: "is_power_of_two n \<longleftrightarrow> (\<exists>k. n = 2 ^ k)"
  unfolding is_power_of_two_def by (metis log2_power power_not_zero zero_neq_numeral)

text \<open>The meaning of a page layout built by the checking constructor.\<close>

lemma from_size_align_Some:
  assumes "sz < usize_limit" and "align < usize_limit" and "from_size_align sz align = Some l"
  shows "l = \<lparr>pl_size = sz, pl_align = align\<rparr>" and "PAGE_SIZE dvd sz" and "0 < sz"
    and "PAGE_SIZE dvd align" and "\<exists>k. align = 2 ^ k" and "sz + align \<le> usize_limit"
  using assms page_aligned_iff [of sz] page_aligned_iff [of align]
  by (auto simp: from_size_align_def page_aligned_def is_power_of_two_iff split: if_splits)

lemma copy_from_mem_offset_length:
  "length (snd (copy_from_mem_offset mem offset data)) = length mem"
  by (auto simp: copy_from_mem_offset_def Let_def)

subsection \<open>Properties\<close>

text \<open>
  C25. Every address that \<open>VirtAddr::try_new\<close> returns is canonical; canonical addresses are
  returned unchanged, an address whose only set high bit is bit 47 is sign extended, and
  every other address is refused.
\<close>

theorem virt_try_new_spec:
  assumes "a < usize_limit"
  shows "virt_try_new a =
    (if virt_ok a then Some a
     else if 2 ^ 47 \<le> a \<and> a < 2 ^ 48 then Some (a + (usize_limit - 2 ^ 48))
     else None) \<and> (\<forall>v. virt_try_new a = Some v \<longrightarrow> virt_ok v)"
proof (intro conjI allI impI)
  have top: "get_bits a 47 64 = a div 2 ^ 47" using assms by (rule top_bits_virt)
  consider (low) "a < 2 ^ 47" | (sign) "2 ^ 47 \<le> a" "a < 2 ^ 48"
    | (bad) "2 ^ 48 \<le> a" "a < HIGHER_HALF_START" | (high) "HIGHER_HALF_START \<le> a"
    by linarith
  then show "virt_try_new a =
    (if virt_ok a then Some a
     else if 2 ^ 47 \<le> a \<and> a < 2 ^ 48 then Some (a + (usize_limit - 2 ^ 48))
     else None)"
  proof cases
    case low
    with top show ?thesis by (simp add: virt_try_new_def virt_ok_def)
  next
    case sign
    then have "a div 2 ^ 47 = 1" by (intro div_nat_eqI) auto
    with sign top virt_truncate_high [OF sign] show ?thesis
      by (simp add: virt_try_new_def virt_ok_def HIGHER_HALF_START_def)
  next
    case bad
    then have "2 \<le> a div 2 ^ 47" "a div 2 ^ 47 < 0x1ffff"
      by (simp_all add: HIGHER_HALF_START_def div_less_iff_less_mult less_eq_div_iff_mult_less_eq)
    with bad top show ?thesis by (simp add: virt_try_new_def virt_ok_def HIGHER_HALF_START_def)
  next
    case high
    then have "a div 2 ^ 47 = 0x1ffff"
      using assms by (intro div_nat_eqI) (auto simp: HIGHER_HALF_START_def)
    with high assms top show ?thesis by (simp add: virt_try_new_def virt_ok_def)
  qed
next
  fix v assume "virt_try_new a = Some v"
  with assms show "virt_ok v" by (rule virt_try_new_sound)
qed

theorem virt_try_new_spec_witness:
  "(0x800000000000 :: nat) < usize_limit \<and>
   virt_try_new 0x800000000000 = Some 0xffff800000000000 \<and> virt_try_new 0x1000000000000 = None"
  using virt_try_new_spec [of "0x800000000000"] virt_try_new_spec [of "0x1000000000000"]
  by (simp add: virt_ok_def HIGHER_HALF_START_def)

end
