(* ===== verification/Mem_Range.thy ===== *)
theory Mem_Range
  imports Mem_Addr
begin

text \<open>
  \<^verbatim>\<open>kernel/src/mem/range.rs\<close>: page sizes, page frames, and the aligned and unaligned address
  ranges.  The ranges are generated by the macro \<^verbatim>\<open>impl_addr_range!\<close>, once for physical and
  once for virtual addresses; its parameter \<^verbatim>\<open>$addr\<close> is the argument \<open>nw\<close>, the constructor
  of the address type.  The lemmas about ranges are proved once, in the locale \<open>addr_type\<close>
  of an address constructor, and interpreted for \<open>phys_new\<close> and \<open>virt_new\<close>.
\<close>

definition MAX_VIRT_ADDR :: usize where
  "MAX_VIRT_ADDR = 2 ^ 47"

subsection \<open>Page sizes and frames\<close>

datatype PageSize = K4 | M2 | G1

primrec page_size_val :: "PageSize \<Rightarrow> usize" where
  "page_size_val K4 = 0x1000"
| "page_size_val M2 = 0x200000"
| "page_size_val G1 = 0x40000000"

instantiation PageSize :: linorder
begin

definition less_eq_PageSize :: "PageSize \<Rightarrow> PageSize \<Rightarrow> bool" where
  "less_eq_PageSize a b \<longleftrightarrow> page_size_val a \<le> page_size_val b"

definition less_PageSize :: "PageSize \<Rightarrow> PageSize \<Rightarrow> bool" where
  "less_PageSize a b \<longleftrightarrow> page_size_val a < page_size_val b"

instance
proof
  fix x y :: PageSize
  assume "x \<le> y" and "y \<le> x"
  then show "x = y" by (cases x; cases y) (simp_all add: less_eq_PageSize_def)
qed (auto simp: less_eq_PageSize_def less_PageSize_def)

end

definition align_down_to_page_size :: "usize \<Rightarrow> usize" where
  "align_down_to_page_size n =
     (if page_size_val G1 \<le> n then page_size_val G1
      else if page_size_val M2 \<le> n then page_size_val M2
      else if page_size_val K4 \<le> n then page_size_val K4
      else 0)"

definition PageSize_try_from_usize :: "usize \<Rightarrow> PageSize option" where
  "PageSize_try_from_usize n =
     (if n = 0x1000 then Some K4 else if n = 0x200000 then Some M2
      else if n = 0x40000000 then Some G1 else None)"

definition PageSize_from_usize :: "usize \<Rightarrow> PageSize kresult" where
  "PageSize_from_usize n = expect (PageSize_try_from_usize n)"

primrec page_table_depth :: "PageSize \<Rightarrow> nat" where
  "page_table_depth K4 = 4"
| "page_table_depth M2 = 3"
| "page_table_depth G1 = 2"

datatype frame = FK4 usize | FM2 usize | FG1 usize

definition frame_new :: "usize \<Rightarrow> PageSize \<Rightarrow> frame kresult" where
  "frame_new a ps =
     rbind (addr_align_down a (page_size_val ps)) (\<lambda>b.
       Ok (case ps of K4 \<Rightarrow> FK4 b | M2 \<Rightarrow> FM2 b | G1 \<Rightarrow> FG1 b))"

primrec start_addr :: "frame \<Rightarrow> usize" where
  "start_addr (FK4 a) = a"
| "start_addr (FM2 a) = a"
| "start_addr (FG1 a) = a"

primrec get_size :: "frame \<Rightarrow> PageSize" where
  "get_size (FK4 a) = K4"
| "get_size (FM2 a) = M2"
| "get_size (FG1 a) = G1"

definition frame_end_addr :: "(usize \<Rightarrow> usize kresult) \<Rightarrow> frame \<Rightarrow> usize kresult" where
  "frame_end_addr nw f = addr_add nw (start_addr f) (page_size_val (get_size f))"

subsection \<open>Ranges: the methods of the range trait\<close>

record range =
  r_addr :: usize
  r_size :: usize

definition end_addr :: "(usize \<Rightarrow> usize kresult) \<Rightarrow> range \<Rightarrow> usize kresult" where
  "end_addr nw r = addr_add nw (r_addr r) (r_size r)"

definition end_usize :: "range \<Rightarrow> usize kresult" where
  "end_usize r = uadd (r_addr r) (r_size r)"

definition contains :: "(usize \<Rightarrow> usize kresult) \<Rightarrow> range \<Rightarrow> usize \<Rightarrow> bool kresult" where
  "contains nw r a =
     (if r_addr r \<le> a then rbind (addr_add nw (r_addr r) (r_size r)) (\<lambda>e. Ok (a < e)) else Ok False)"

definition contains_range :: "(usize \<Rightarrow> usize kresult) \<Rightarrow> range \<Rightarrow> range \<Rightarrow> bool kresult" where
  "contains_range nw r other =
     rbind (contains nw r (r_addr other)) (\<lambda>c.
       if c then Ok True
       else rbind (addr_add nw (r_addr other) (r_size other)) (contains nw r))"

definition full_contains_range :: "(usize \<Rightarrow> usize kresult) \<Rightarrow> range \<Rightarrow> range \<Rightarrow> bool kresult" where
  "full_contains_range nw r other =
     (if r_size other = 0 then contains nw r (r_addr other)
      else rbind (contains nw r (r_addr other)) (\<lambda>c.
        if c then rbind (addr_add nw (r_addr other) (r_size other)) (\<lambda>e.
               rbind (addr_sub nw e 1) (contains nw r))
        else Ok False))"

definition is_power2_size_align :: "range \<Rightarrow> bool" where
  "is_power2_size_align r \<longleftrightarrow> is_power_of_two (r_size r) \<and> r_size r \<le> align_of (r_addr r)"

definition get_take_size :: "range \<Rightarrow> PageSize option" where
  "get_take_size r =
     PageSize_try_from_usize
       (min (align_down_to_page_size (r_size r)) (align_down_to_page_size (align_of (r_addr r))))"

definition range_take ::
    "(usize \<Rightarrow> usize kresult) \<Rightarrow> range \<Rightarrow> PageSize \<Rightarrow> (range \<times> frame) option kresult" where
  "range_take nw r ps =
     (case get_take_size r of
        None \<Rightarrow> Ok None
      | Some take_size \<Rightarrow>
          if take_size < ps then Ok None
          else rbind (addr_add nw (r_addr r) (page_size_val ps)) (\<lambda>a.
            rbind (usub (r_size r) (page_size_val ps)) (\<lambda>s.
              rbind (PageSize_from_usize (page_size_val ps)) (\<lambda>ps'.
                rbind (frame_new (r_addr r) ps') (\<lambda>f. Ok (Some (\<lparr>r_addr = a, r_size = s\<rparr>, f)))))))"

subsection \<open>Constructors\<close>

definition range_new :: "usize \<Rightarrow> usize \<Rightarrow> range" where
  "range_new a sz = \<lparr>r_addr = a, r_size = sz\<rparr>"

definition new_aligned_inside :: "(usize \<Rightarrow> usize kresult) \<Rightarrow> usize \<Rightarrow> usize \<Rightarrow> range option kresult" where
  "new_aligned_inside nw a sz =
     rbind (addr_align_up nw a PAGE_SIZE) (\<lambda>start.
       rbind (addr_add nw a sz) (\<lambda>e. rbind (addr_align_down e PAGE_SIZE) (\<lambda>end'.
         if end' < start then Ok None
         else rbind (addr_diff end' start) (\<lambda>d. Ok (Some \<lparr>r_addr = start, r_size = d\<rparr>)))))"

definition new_aligned :: "(usize \<Rightarrow> usize kresult) \<Rightarrow> usize \<Rightarrow> usize \<Rightarrow> range kresult" where
  "new_aligned nw a sz =
     rbind (addr_add nw a sz) (\<lambda>e. rbind (addr_align_up nw e PAGE_SIZE) (\<lambda>end'.
       rbind (addr_align_down a PAGE_SIZE) (\<lambda>start.
         rbind (addr_diff end' start) (\<lambda>d. Ok \<lparr>r_addr = start, r_size = d\<rparr>))))"

definition try_new_aligned :: "usize \<Rightarrow> usize \<Rightarrow> range option" where
  "try_new_aligned a sz =
     (if align_of a < PAGE_SIZE \<or> align_of sz < PAGE_SIZE then None
      else Some \<lparr>r_addr = a, r_size = sz\<rparr>)"

definition aligned_new :: "usize \<Rightarrow> usize \<Rightarrow> range kresult" where
  "aligned_new a sz = expect (try_new_aligned a sz)"

definition range_is_aligned :: "range \<Rightarrow> bool kresult" where
  "range_is_aligned r =
     (if PAGE_SIZE \<le> align_of (r_addr r)
      then rbind (end_usize r) (\<lambda>e. Ok (PAGE_SIZE \<le> align_of e)) else Ok False)"

text \<open>\<open>take_layout\<close>: cut an aligned block off the front; the result is the rest and the block.\<close>

definition take_layout ::
    "(usize \<Rightarrow> usize kresult) \<Rightarrow> range \<Rightarrow> usize \<Rightarrow> usize \<Rightarrow> (range \<times> range) option kresult" where
  "take_layout nw r lsize lalign =
     rbind (addr_align_up nw (r_addr r) lalign) (\<lambda>start.
       rbind (addr_add nw start lsize) (\<lambda>new_addr.
         rbind (end_addr nw r) (\<lambda>e.
           if e < new_addr then Ok None
           else rbind (addr_diff new_addr start) (\<lambda>s.
             rbind (usub (r_size r) s) (\<lambda>rest.
               Ok (Some (\<lparr>r_addr = new_addr, r_size = rest\<rparr>, \<lparr>r_addr = start, r_size = s\<rparr>)))))))"

subsection \<open>Merging, splitting and intersecting\<close>

text \<open>
  The two versions of \<open>merge\<close> and \<open>split_at\<close> differ in the constructor of the result: the
  unaligned range takes address and size as they are, the aligned range goes through
  \<open>new_aligned\<close>.  The argument \<open>mk\<close> is that constructor.
\<close>

definition u_mk :: "usize \<Rightarrow> usize \<Rightarrow> range kresult" where
  "u_mk a sz = Ok (range_new a sz)"

definition range_merge ::
    "(usize \<Rightarrow> usize kresult) \<Rightarrow> (usize \<Rightarrow> usize \<Rightarrow> range kresult) \<Rightarrow> range \<Rightarrow> range \<Rightarrow> range option kresult"
  where
  "range_merge nw mk r other =
     rbind (end_addr nw r) (\<lambda>e.
       if e = r_addr other
       then rbind (uadd (r_size r) (r_size other)) (\<lambda>s. rbind (mk (r_addr r) s) (\<lambda>x. Ok (Some x)))
       else rbind (end_addr nw other) (\<lambda>e'.
         if e' = r_addr r
         then rbind (uadd (r_size r) (r_size other)) (\<lambda>s. rbind (mk (r_addr other) s) (\<lambda>x. Ok (Some x)))
         else Ok None))"

definition split_at ::
    "(usize \<Rightarrow> usize kresult) \<Rightarrow> (usize \<Rightarrow> usize \<Rightarrow> range kresult) \<Rightarrow> range \<Rightarrow> range \<Rightarrow>
     (range option \<times> range option) kresult" where
  "split_at nw mk r other =
     (let sbegin = r_addr r; begin' = r_addr other in
      rbind (addr_add nw (r_addr r) (r_size r)) (\<lambda>send.
      rbind (addr_add nw begin' (r_size other)) (\<lambda>end'.
      rbind (contains_range nw r other) (\<lambda>hit.
      if \<not> hit then Ok (Some r, None)
      else if begin' \<le> sbegin \<and> send \<le> end' then Ok (None, None)
      else
        rbind (rbind (addr_sub nw begin' 1) (contains nw r)) (\<lambda>before.
        rbind (rbind (addr_add nw end' 1) (contains nw r)) (\<lambda>after.
        if before \<and> \<not> after
        then rbind (addr_diff begin' sbegin) (\<lambda>d. rbind (mk sbegin d) (\<lambda>x. Ok (Some x, None)))
        else if after \<and> \<not> before
        then rbind (addr_diff send end') (\<lambda>d. rbind (mk end' d) (\<lambda>x. Ok (Some x, None)))
        else
          rbind (addr_diff begin' sbegin) (\<lambda>d. rbind (mk sbegin d) (\<lambda>x.
          rbind (addr_diff send end') (\<lambda>d'. rbind (mk end' d') (\<lambda>y. Ok (Some x, Some y)))))))))))"

definition intersection :: "(usize \<Rightarrow> usize kresult) \<Rightarrow> range \<Rightarrow> range \<Rightarrow> range option kresult" where
  "intersection nw r other =
     rbind (contains_range nw r other) (\<lambda>c.
       if c then
         let start = max (r_addr r) (r_addr other) in
         rbind (end_addr nw r) (\<lambda>e. rbind (end_addr nw other) (\<lambda>e'.
           rbind (addr_diff (min e e') start) (\<lambda>d. Ok (Some \<lparr>r_addr = start, r_size = d\<rparr>))))
       else Ok None)"

datatype IntersectionEdge = First range | Second range | NoEdge

record IntersectionResult =
  ir_start :: IntersectionEdge
  ir_middle :: "range option"
  ir_end :: IntersectionEdge

definition detailed_intersection ::
    "(usize \<Rightarrow> usize kresult) \<Rightarrow> range \<Rightarrow> range \<Rightarrow> IntersectionResult kresult" where
  "detailed_intersection nw r other =
     rbind (if r_addr r < r_addr other
            then rbind (addr_diff (r_addr other) (r_addr r)) (\<lambda>d.
              Ok (First \<lparr>r_addr = r_addr r, r_size = min (r_size r) d\<rparr>))
            else if r_addr other < r_addr r
            then rbind (addr_diff (r_addr r) (r_addr other)) (\<lambda>d.
              Ok (Second \<lparr>r_addr = r_addr other, r_size = min (r_size other) d\<rparr>))
            else Ok NoEdge) (\<lambda>start.
     rbind (end_addr nw other) (\<lambda>oe. rbind (end_addr nw r) (\<lambda>re.
     rbind (if oe < re
            then let a = max oe (r_addr r) in
              rbind (addr_diff re a) (\<lambda>d. Ok (First \<lparr>r_addr = a, r_size = d\<rparr>))
            else if re < oe
            then let a = max re (r_addr other) in
              rbind (addr_diff oe a) (\<lambda>d. Ok (First \<lparr>r_addr = a, r_size = d\<rparr>))
            else Ok NoEdge) (\<lambda>end'.
     rbind (intersection nw r other) (\<lambda>m.
       Ok \<lparr>ir_start = start, ir_middle = m, ir_end = end'\<rparr>)))))"

subsection \<open>The frame iterator\<close>

record range_iter =
  it_start :: usize
  it_end :: usize

definition range_iter_of :: "(usize \<Rightarrow> usize kresult) \<Rightarrow> range \<Rightarrow> range_iter kresult" where
  "range_iter_of nw r = rbind (end_addr nw r) (\<lambda>e. Ok \<lparr>it_start = r_addr r, it_end = e\<rparr>)"

definition iter_next ::
    "(usize \<Rightarrow> usize kresult) \<Rightarrow> range_iter \<Rightarrow> (frame option \<times> range_iter) kresult" where
  "iter_next nw it =
     (if it_end it \<le> it_start it then Ok (None, it) else
      rbind (addr_diff (it_end it) (it_start it)) (\<lambda>d.
        let sz = align_down_to_page_size (min (align_of (it_start it)) (2 ^ log2 d)) in
        rbind (addr_add nw (it_start it) sz) (\<lambda>s.
          rbind (PageSize_from_usize sz) (\<lambda>ps.
            rbind (frame_new s ps) (\<lambda>f. Ok (Some f, it\<lparr>it_start := s\<rparr>))))))"

subsection \<open>Conversions between physical and virtual ranges\<close>

definition range_to_virt :: "usize \<Rightarrow> range \<Rightarrow> range kresult" where
  "range_to_virt vma r =
     rbind (end_addr phys_new r) (\<lambda>e. rbind (to_virt vma e) (\<lambda>_.
       rbind (to_virt vma (r_addr r)) (\<lambda>a. Ok (range_new a (r_size r)))))"

definition range_to_phys :: "usize \<Rightarrow> range \<Rightarrow> range kresult" where
  "range_to_phys vma r =
     rbind (end_addr virt_new r) (\<lambda>e. rbind (to_phys vma e) (\<lambda>_.
       rbind (to_phys vma (r_addr r)) (\<lambda>a. Ok (range_new a (r_size r)))))"

definition allocation_to_phys :: "usize \<Rightarrow> Allocation \<Rightarrow> range kresult" where
  "allocation_to_phys vma al = rbind (to_phys vma (al_ptr al)) (\<lambda>a. Ok (range_new a (al_size al)))"

definition as_vrange :: "Allocation \<Rightarrow> range" where
  "as_vrange al = range_new (al_ptr al) (al_size al)"

subsection \<open>Ranges as sets of addresses\<close>

definition range_set :: "range \<Rightarrow> usize set" where
  "range_set r = {r_addr r ..< r_addr r + r_size r}"

definition opt_set :: "range option \<Rightarrow> usize set" where
  "opt_set x = (case x of None \<Rightarrow> {} | Some r \<Rightarrow> range_set r)"

text \<open>Every address of the range, its end included, is one the constructor accepts.\<close>

definition range_wf :: "(usize \<Rightarrow> bool) \<Rightarrow> range \<Rightarrow> bool" where
  "range_wf good r \<longleftrightarrow> (\<forall>a. r_addr r \<le> a \<and> a \<le> r_addr r + r_size r \<longrightarrow> good a)"

definition range_aligned :: "range \<Rightarrow> bool" where
  "range_aligned r \<longleftrightarrow> PAGE_SIZE dvd r_addr r \<and> PAGE_SIZE dvd r_size r"

lemma opt_set_simps [simp]: "opt_set None = {}" "opt_set (Some r) = range_set r"
  by (simp_all add: opt_set_def)

lemma range_set_between: "a \<le> b \<Longrightarrow> range_set \<lparr>r_addr = a, r_size = b - a\<rparr> = {a ..< b}"
  by (simp add: range_set_def)

lemma in_range_set [simp]: "a \<in> range_set r \<longleftrightarrow> r_addr r \<le> a \<and> a < r_addr r + r_size r"
  by (simp add: range_set_def)

lemma range_wf_ends:
  "range_wf good r \<Longrightarrow> good (r_addr r)" "range_wf good r \<Longrightarrow> good (r_addr r + r_size r)"
  by (simp_all add: range_wf_def)

lemma aligned_addr_up:
  assumes "PAGE_SIZE dvd a" and "a + PAGE_SIZE < usize_limit"
  shows "align_up a PAGE_SIZE = Ok a"
proof -
  obtain m where m: "a = 4096 * m" using assms(1) by (auto simp: PAGE_SIZE_def elim: dvdE)
  have "(a + 2 ^ 12 - 1) div 2 ^ 12 = m" using m by simp
  with align_up_eq [of 12 a] assms(2) m show ?thesis by (simp add: PAGE_SIZE_def)
qed

lemma aligned_addr_down:
  assumes "PAGE_SIZE dvd a" and "a < usize_limit"
  shows "align_down a PAGE_SIZE = Ok a"
  using align_down_eq [of a 12] assms by (simp add: PAGE_SIZE_def)

subsection \<open>The contract of an address constructor\<close>

locale addr_type =
  fixes nw :: "usize \<Rightarrow> usize kresult" and good :: "usize \<Rightarrow> bool"
  assumes nw_good [simp]: "good a \<Longrightarrow> nw a = Ok a"
    and good_bound: "good a \<Longrightarrow> a < usize_limit"
begin

lemmas good_bound_num [simp] = good_bound [simplified]

lemma addr_add_good [simp]: "good (a + b) \<Longrightarrow> addr_add nw a b = Ok (a + b)"
  by (simp add: addr_add_def uadd_def)

lemma addr_sub_good [simp]: "b \<le> a \<Longrightarrow> good (a - b) \<Longrightarrow> addr_sub nw a b = Ok (a - b)"
  by (simp add: addr_sub_def usub_def)

lemma end_addr_wf [simp]: "range_wf good r \<Longrightarrow> end_addr nw r = Ok (r_addr r + r_size r)"
  by (simp add: end_addr_def range_wf_ends)

lemma contains_wf [simp]: "range_wf good r \<Longrightarrow> contains nw r a = Ok (a \<in> range_set r)"
  by (simp add: contains_def range_wf_ends)

lemma contains_range_wf:
  assumes "range_wf good r" and "range_wf good other"
  shows "contains_range nw r other =
    Ok (r_addr other \<in> range_set r \<or> r_addr other + r_size other \<in> range_set r)"
  using assms by (simp add: contains_range_def range_wf_ends del: in_range_set)

lemma full_contains_range_wf:
  assumes "range_wf good r" and "range_wf good other" and "0 < r_size other"
  shows "full_contains_range nw r other = Ok (range_set other \<subseteq> range_set r)"
proof -
  have "good (r_addr other + r_size other - 1)" using assms by (simp add: range_wf_def)
  with assms show ?thesis
    by (auto simp: full_contains_range_def range_wf_ends range_set_def atLeastLessThan_subset_iff)
qed

lemma new_aligned_wf:
  assumes "good (a + sz)" and "PAGE_SIZE dvd a" and "PAGE_SIZE dvd sz"
    and "a + sz + PAGE_SIZE < usize_limit"
  shows "new_aligned nw a sz = Ok \<lparr>r_addr = a, r_size = sz\<rparr>"
  using assms aligned_addr_up [of "a + sz"] aligned_addr_down [of a]
  by (simp add: new_aligned_def addr_align_up_def addr_align_down_def addr_diff_def usub_def)

text \<open>Splitting by a range that does not swallow the beginning of this one.\<close>

lemma split_at_correct:
  assumes wf: "range_wf good r" "range_wf good other"
    and al: "range_aligned r" "range_aligned other"
    and edge: "0 < r_addr other" "good (r_addr other - 1)"
      "good (r_addr other + r_size other + 1)"
    and part: "\<not> (r_addr other < r_addr r \<and> r_addr r + r_size r \<le> r_addr other + r_size other)"
    and mk: "\<And>a sz. PAGE_SIZE dvd a \<Longrightarrow> PAGE_SIZE dvd sz \<Longrightarrow> r_addr r \<le> a \<Longrightarrow>
      a + sz \<le> r_addr r + r_size r \<Longrightarrow> mk a sz = Ok \<lparr>r_addr = a, r_size = sz\<rparr>"
  shows "\<exists>p q. split_at nw mk r other = Ok (p, q) \<and> opt_set p \<inter> opt_set q = {} \<and>
    opt_set p \<union> opt_set q = range_set r - range_set other"
proof -
  define b e sb se where "b = r_addr other" and "e = b + r_size other"
    and "sb = r_addr r" and "se = sb + r_size r"
  note defs = b_def e_def sb_def se_def
  obtain kb ke ksb kse where k: "b = PAGE_SIZE * kb" "e = PAGE_SIZE * ke" "sb = PAGE_SIZE * ksb"
      "se = PAGE_SIZE * kse"
    using al unfolding range_aligned_def defs by (metis dvd_add dvd_def)
  have gap: "x \<le> y \<or> y + 4096 \<le> x" if "x \<in> {b, e, sb, se}" "y \<in> {b, e, sb, se}" for x y
    using that by (auto simp: k PAGE_SIZE_def)
  have dv: "PAGE_SIZE dvd b - sb" "PAGE_SIZE dvd se - e" "PAGE_SIZE dvd sb" "PAGE_SIZE dvd e"
    unfolding k by (simp_all add: diff_mult_distrib2 [symmetric])
  have le: "b \<le> e" "sb \<le> se" by (simp_all add: defs)
  have add: "addr_add nw sb (r_size r) = Ok se" "addr_add nw b (r_size other) = Ok e"
    "addr_sub nw b 1 = Ok (b - 1)" "addr_add nw e 1 = Ok (e + 1)"
    using wf edge by (simp_all add: defs range_wf_ends)
  have cont: "contains nw r x = Ok (sb \<le> x \<and> x < se)" for x
    using wf(1) by (simp add: defs)
  have hit: "contains_range nw r other = Ok ((sb \<le> b \<and> b < se) \<or> (sb \<le> e \<and> e < se))"
    using contains_range_wf [OF wf] by (simp add: defs)
  have sets: "range_set r = {sb ..< se}" "range_set other = {b ..< e}"
    by (simp_all add: defs range_set_def)
  have mk1: "mk sb (b - sb) = Ok \<lparr>r_addr = sb, r_size = b - sb\<rparr>" if "sb \<le> b" "b \<le> se"
    using that dv by (intro mk) (simp_all add: defs)
  have mk2: "mk e (se - e) = Ok \<lparr>r_addr = e, r_size = se - e\<rparr>" if "sb \<le> e" "e \<le> se"
    using that dv by (intro mk) (simp_all add: defs)
  have edge': "0 < b" "\<not> (b < sb \<and> se \<le> e)" using edge part by (simp_all add: defs)
  define bf af where "bf \<longleftrightarrow> sb \<le> b - 1 \<and> b - 1 < se" and "af \<longleftrightarrow> sb \<le> e + 1 \<and> e + 1 < se"
  have eq: "split_at nw mk r other =
     (if \<not> ((sb \<le> b \<and> b < se) \<or> (sb \<le> e \<and> e < se)) then Ok (Some r, None)
      else if b \<le> sb \<and> se \<le> e then Ok (None, None)
      else if bf \<and> \<not> af then rbind (addr_diff b sb) (\<lambda>d. rbind (mk sb d) (\<lambda>x. Ok (Some x, None)))
      else if af \<and> \<not> bf then rbind (addr_diff se e) (\<lambda>d. rbind (mk e d) (\<lambda>x. Ok (Some x, None)))
      else rbind (addr_diff b sb) (\<lambda>d. rbind (mk sb d) (\<lambda>x.
          rbind (addr_diff se e) (\<lambda>d'. rbind (mk e d') (\<lambda>y. Ok (Some x, Some y))))))"
    unfolding split_at_def Let_def b_def [symmetric] sb_def [symmetric] bf_def af_def
    by (simp only: add hit cont rbind.simps)
  note unf = eq addr_diff_def usub_def
  consider (miss) "\<not> ((sb \<le> b \<and> b < se) \<or> (sb \<le> e \<and> e < se))"
    | (all) "b = sb" "se \<le> e" "sb < se"
    | (front) "sb < b" "b < se" "se \<le> e"
    | (tail) "b \<le> sb" "sb \<le> e" "e < se"
    | (mid) "sb < b" "b \<le> e" "e < se"
    using le edge'(2) by linarith
  then show ?thesis
  proof cases
    case miss
    then have "split_at nw mk r other = Ok (Some r, None)" by (simp add: unf)
    moreover have "{sb ..< se} \<inter> {b ..< e} = {}" using miss edge'(2) le by auto
    ultimately show ?thesis using sets by auto
  next
    case all
    then have "split_at nw mk r other = Ok (None, None)" by (simp add: unf)
    moreover have "{sb ..< se} - {b ..< e} = {}" using all by auto
    ultimately show ?thesis using sets by auto
  next
    case front
    then have "bf" "\<not> af" unfolding bf_def af_def by linarith+
    with front have "split_at nw mk r other = Ok (Some \<lparr>r_addr = sb, r_size = b - sb\<rparr>, None)"
      using mk1 by (simp add: unf)
    moreover have "{sb ..< se} - {b ..< e} = {sb ..< b}" using front by auto
    ultimately show ?thesis using sets front by (simp add: range_set_between)
  next
    case tail
    have "e + 1 < se" using gap [of se e] tail by auto
    then have "\<not> bf" "af" unfolding bf_def af_def using tail edge'(1) by linarith+
    with tail have "split_at nw mk r other = Ok (Some \<lparr>r_addr = e, r_size = se - e\<rparr>, None)"
      using mk2 by (simp add: unf)
    moreover have "{sb ..< se} - {b ..< e} = {e ..< se}" using tail by auto
    ultimately show ?thesis using sets tail by (simp add: range_set_between)
  next
    case mid
    have "e + 1 < se" using gap [of se e] mid by auto
    then have "bf" "af" unfolding bf_def af_def using mid by linarith+
    with mid have "split_at nw mk r other =
        Ok (Some \<lparr>r_addr = sb, r_size = b - sb\<rparr>, Some \<lparr>r_addr = e, r_size = se - e\<rparr>)"
      using mk1 mk2 by (simp add: unf)
    moreover have "{sb ..< se} - {b ..< e} = {sb ..< b} \<union> {e ..< se}" using mid by auto
    moreover have "{sb ..< b} \<inter> {e ..< se} = {}" using mid by auto
    ultimately show ?thesis using sets mid by (simp add: range_set_between)
  qed
qed

text \<open>A range that begins before this one and covers it is not seen at all.\<close>

lemma contains_range_enclosing:
  assumes "range_wf good r" and "range_wf good other"
    and "r_addr other < r_addr r" and "r_addr r + r_size r \<le> r_addr other + r_size other"
  shows "contains_range nw r other = Ok False"
  using contains_range_wf [OF assms(1,2)] assms(3,4) by simp

lemma split_at_enclosing:
  assumes "range_wf good r" and "range_wf good other"
    and "r_addr other < r_addr r" and "r_addr r + r_size r \<le> r_addr other + r_size other"
  shows "split_at nw mk r other = Ok (Some r, None)"
  using assms contains_range_enclosing [OF assms] by (simp add: split_at_def range_wf_ends Let_def)

lemma merge_correct:
  assumes wf: "range_wf good r" "range_wf good other"
    and adj: "r_addr r + r_size r = r_addr other \<or> r_addr other + r_size other = r_addr r"
    and fits: "r_size r + r_size other < usize_limit"
  shows "\<exists>m. range_merge nw u_mk r other = Ok (Some m) \<and> range_set m = range_set r \<union> range_set other"
proof -
  define m where
    "m = range_new (if r_addr r + r_size r = r_addr other then r_addr r else r_addr other)
       (r_size r + r_size other)"
  have "uadd (r_size r) (r_size other) = Ok (r_size r + r_size other)" using fits by (simp add: uadd_def)
  then have "range_merge nw u_mk r other = Ok (Some m)"
    unfolding range_merge_def end_addr_wf [OF wf(1)] end_addr_wf [OF wf(2)] m_def u_mk_def
    using adj by (cases "r_addr r + r_size r = r_addr other") (simp_all only: rbind.simps if_True if_False refl simp_thms)
  moreover have "range_set m = range_set r \<union> range_set other"
  proof (rule set_eqI)
    fix x
    show "x \<in> range_set m \<longleftrightarrow> x \<in> range_set r \<union> range_set other"
      using adj by (cases "r_addr r + r_size r = r_addr other")
        (simp_all add: m_def range_new_def, linarith+)
  qed
  ultimately show ?thesis by blast
qed

end

lemma phys_ok_addr_type: "addr_type phys_new phys_ok"
  by unfold_locales (auto simp: phys_ok_def)

lemma virt_ok_addr_type: "addr_type virt_new virt_ok"
  by unfold_locales (auto simp: virt_ok_def)

interpretation pa: addr_type phys_new phys_ok
  by (rule phys_ok_addr_type)

interpretation va: addr_type virt_new virt_ok
  by (rule virt_ok_addr_type)

subsection \<open>Properties\<close>


lemma low_range_wf: "r_addr r + r_size r < 2 ^ 47 \<Longrightarrow> range_wf virt_ok r"
  by (auto simp: range_wf_def virt_ok_def)


text \<open>
  The excluded case of the previous property is a defect: when a non-empty range lies
  inside another one that begins before it, \<open>contains_range\<close> (documented to say whether the
  two intersect at all) answers no, and \<open>split_at\<close> returns the whole range although nothing
  of it remains.
\<close>

theorem contains_range_misses_enclosing:
  assumes "range_wf virt_ok r" and "range_wf virt_ok other" and "0 < r_size r"
    and "r_addr other < r_addr r" and "r_addr r + r_size r \<le> r_addr other + r_size other"
  shows "contains_range virt_new r other = Ok False \<and> range_set r \<inter> range_set other \<noteq> {} \<and>
    split_at virt_new mk r other = Ok (Some r, None) \<and> range_set r - range_set other = {}"
proof -
  have "range_set r \<subseteq> range_set other" using assms(4,5) by auto
  moreover have "r_addr r \<in> range_set r" using assms(3) by simp
  ultimately have "range_set r \<inter> range_set other \<noteq> {}" "range_set r - range_set other = {}" by blast+
  with va.contains_range_enclosing [OF assms(1,2,4,5)] va.split_at_enclosing [OF assms(1,2,4,5)]
  show ?thesis by simp
qed

theorem contains_range_misses_enclosing_witness:
  "contains_range virt_new (range_new 0x2000 0x1000) (range_new 0x1000 0x3000) = Ok False \<and>
   range_set (range_new 0x2000 0x1000) \<inter> range_set (range_new 0x1000 0x3000) \<noteq> {}"
  using contains_range_misses_enclosing [of "range_new 0x2000 0x1000" "range_new 0x1000 0x3000" u_mk]
  by (simp add: low_range_wf range_new_def)

end
