(* ===== verification/Page_Table.thy ===== *)
theory Page_Table
  imports Mem_Range
begin

text \<open>
  \<^verbatim>\<open>kernel/src/vmem_manager/page_table.rs\<close> and \<^verbatim>\<open>mod.rs\<close>: the four-level page tables of an address
  space.  A table is a frame of 512 words; the tables are kept in a store from the virtual address
  of a frame to its words.  \<open>vma\<close> stands for the linker symbol \<^verbatim>\<open>KERNEL_VMA\<close>, the start of the window
  to physical memory, and \<open>kstart\<close> for \<^verbatim>\<open>KERNEL_START\<close>.  The allocator of frames is given by its
  two operations.

  Indices into a table come from nine bits of an address, so the bounds checks of the code cannot
  fail.  Invalidating the translation buffer of the processor has no effect on the state.
\<close>

subsection \<open>Flags\<close>

definition PT_PRESENT :: usize where "PT_PRESENT = 1"

definition PT_WRITABLE :: usize where "PT_WRITABLE = 2"

definition PT_USER :: usize where "PT_USER = 4"

definition PT_PWT :: usize where "PT_PWT = 8"

definition PT_PCD :: usize where "PT_PCD = 16"

definition PT_PTE_PAT :: usize where "PT_PTE_PAT = 128"

definition PT_HUGE :: usize where "PT_HUGE = 128"

definition PT_GLOBAL :: usize where "PT_GLOBAL = 256"

definition PT_PAGE_TABLE :: usize where "PT_PAGE_TABLE = 512"

definition PT_NO_EXEC :: usize where "PT_NO_EXEC = 0x8000000000000000"

definition PARENT_FLAGS :: usize where
  "PARENT_FLAGS = PT_PRESENT OR PT_WRITABLE OR PT_USER"

definition PAGE_ADDR_BITMASK :: usize where
  "PAGE_ADDR_BITMASK = 0x000ffffffffff000"

definition NUM_ENTRIES :: nat where
  "NUM_ENTRIES = PAGE_SIZE div 8"

datatype MemoryCacheSetting = WriteBack | WriteThrough | WriteConbining | Uncached

datatype PatEntry = PatStrongUncacheable | PatWriteCombining | PatWriteThrough | PatWriteProtected | PatWriteBack | PatUncacheable

record PageTableCacheBits =
  cb_pwt :: bool
  cb_pcd :: bool
  cb_pat :: bool

primrec to_page_table_bits :: "PatEntry \<Rightarrow> PageTableCacheBits kresult" where
  "to_page_table_bits PatStrongUncacheable = Ok \<lparr>cb_pwt = True, cb_pcd = True, cb_pat = False\<rparr>"
| "to_page_table_bits PatWriteCombining = Ok \<lparr>cb_pwt = False, cb_pcd = True, cb_pat = False\<rparr>"
| "to_page_table_bits PatWriteThrough = Ok \<lparr>cb_pwt = True, cb_pcd = False, cb_pat = False\<rparr>"
| "to_page_table_bits PatWriteProtected = Panic"
| "to_page_table_bits PatWriteBack = Ok \<lparr>cb_pwt = False, cb_pcd = False, cb_pat = False\<rparr>"
| "to_page_table_bits PatUncacheable = Ok \<lparr>cb_pwt = False, cb_pcd = False, cb_pat = True\<rparr>"

primrec PatEntry_from :: "MemoryCacheSetting \<Rightarrow> PatEntry" where
  "PatEntry_from WriteBack = PatWriteBack"
| "PatEntry_from WriteThrough = PatWriteThrough"
| "PatEntry_from WriteConbining = PatWriteCombining"
| "PatEntry_from Uncached = PatStrongUncacheable"

definition cache_flags :: "MemoryCacheSetting \<Rightarrow> usize kresult" where
  "cache_flags settings =
     rbind (to_page_table_bits (PatEntry_from settings)) (\<lambda>cache_bits.
     Ok ((if cb_pwt cache_bits then PT_PWT else 0) OR (if cb_pcd cache_bits then PT_PCD else 0) OR
         (if cb_pat cache_bits then PT_PTE_PAT else 0)))"

record PageMappingOptions =
  po_read :: bool
  po_write :: bool
  po_exec :: bool
  po_user :: bool
  po_cacheing :: MemoryCacheSetting

definition po_exists :: "PageMappingOptions \<Rightarrow> bool" where
  "po_exists options \<longleftrightarrow> po_read options \<or> po_write options \<or> po_exec options"

definition options_flags :: "PageMappingOptions \<Rightarrow> usize kresult" where
  "options_flags options =
     rbind (cache_flags (po_cacheing options)) (\<lambda>out.
     Ok (out OR (if po_write options then PT_WRITABLE else 0) OR (if \<not> po_exec options then PT_NO_EXEC else 0) OR
         (if po_exists options then PT_PRESENT else 0) OR (if po_user options then PT_USER else 0)))"

subsection \<open>Entries and tables\<close>

type_synonym table = "usize list"

definition PageTablePointer_new :: "PhysAddr \<Rightarrow> usize \<Rightarrow> usize" where
  "PageTablePointer_new addr flags = addr OR flags"

definition entry_present :: "usize \<Rightarrow> bool" where
  "entry_present e \<longleftrightarrow> e AND PT_PRESENT \<noteq> 0"

text \<open>\<open>None\<close> is the null pointer.\<close>

definition as_mut_ptr :: "usize \<Rightarrow> usize \<Rightarrow> usize option kresult" where
  "as_mut_ptr vma e =
     (if e AND PT_PRESENT = 0 then Ok None
      else rbind (phys_to_virt vma (e AND PAGE_ADDR_BITMASK)) (\<lambda>a. Ok (Some a)))"

definition entry_count :: "table \<Rightarrow> nat" where
  "entry_count t = get_bits (t ! 0) 52 63"

definition set_entry_count :: "table \<Rightarrow> usize \<Rightarrow> table" where
  "set_entry_count t n =
     (let n = get_bits n 0 11;
          ptr_no_count = t ! 0 AND 0x800fffffffffffff
      in t[0 := ptr_no_count OR push_bit 52 n])"

text \<open>The signed addition wraps when it is converted back.\<close>

definition dec_entry_count :: "table \<Rightarrow> table" where
  "dec_entry_count t = set_entry_count t ((entry_count t + (usize_limit - 1)) mod usize_limit)"

definition add_entry :: "table \<Rightarrow> nat \<Rightarrow> usize \<Rightarrow> table" where
  "add_entry t index ptr =
     (let count = (if entry_present (t ! index) then entry_count t else entry_count t + 1)
      in set_entry_count (t[index := ptr]) count)"

definition remove_entry :: "table \<Rightarrow> nat \<Rightarrow> table" where
  "remove_entry t index =
     (if entry_present (t ! index) then dec_entry_count (t[index := t ! index AND unot PT_PRESENT]) else t)"

subsection \<open>Address spaces\<close>

record 'a VirtAddrSpace =
  vs_cr3 :: usize
  vs_mem :: "usize \<Rightarrow> table"
  vs_alloc :: 'a

abbreviation frame_layout :: PageLayout where
  "frame_layout \<equiv> \<lparr>pl_size = PAGE_SIZE, pl_align = PAGE_SIZE\<rparr>"

type_synonym 'a frame_alloc_op = "'a \<Rightarrow> PageLayout \<Rightarrow> ('a \<times> Allocation option) kresult"
type_synonym 'a frame_dealloc_op = "'a \<Rightarrow> Allocation \<Rightarrow> 'a kresult"

definition PageTable_new ::
  "usize \<Rightarrow> 'a frame_alloc_op \<Rightarrow> 'a VirtAddrSpace \<Rightarrow> usize \<Rightarrow> ('a VirtAddrSpace \<times> usize option) kresult" where
  "PageTable_new vma alloc vs flags =
     rbind (alloc (vs_alloc vs) frame_layout) (\<lambda>(a, r).
     case r of
       None \<Rightarrow> Ok (vs\<lparr>vs_alloc := a\<rparr>, None)
     | Some allocation \<Rightarrow>
         let frame = al_ptr allocation in
         rbind (virt_to_phys vma frame) (\<lambda>addr.
         Ok (vs\<lparr>vs_alloc := a, vs_mem := (vs_mem vs)(frame := replicate NUM_ENTRIES 0)\<rparr>,
             Some (addr OR (flags OR PT_PRESENT OR PT_PAGE_TABLE)))))"

definition upd_table :: "'a VirtAddrSpace \<Rightarrow> usize \<Rightarrow> (table \<Rightarrow> table) \<Rightarrow> 'a VirtAddrSpace" where
  "upd_table vs f g = vs\<lparr>vs_mem := (vs_mem vs)(f := g (vs_mem vs f))\<rparr>"

definition get_or_alloc ::
  "usize \<Rightarrow> 'a frame_alloc_op \<Rightarrow> 'a VirtAddrSpace \<Rightarrow> usize \<Rightarrow> nat \<Rightarrow> usize \<Rightarrow> ('a VirtAddrSpace \<times> usize option) kresult" where
  "get_or_alloc vma alloc vs table index flags =
     (if entry_present (vs_mem vs table ! index)
      then rbind (as_mut_ptr vma (vs_mem vs table ! index)) (\<lambda>p. Ok (vs, p))
      else
        rbind (PageTable_new vma alloc vs flags) (\<lambda>(vs, r).
        case r of
          None \<Rightarrow> Ok (vs, None)
        | Some out \<Rightarrow>
            rbind (as_mut_ptr vma out) (\<lambda>p.
            Ok (upd_table vs table (\<lambda>t. add_entry t index out), p))))"

definition page_table_indicies :: "usize \<Rightarrow> nat list" where
  "page_table_indicies virt_addr =
     [get_bits virt_addr 39 48, get_bits virt_addr 30 39, get_bits virt_addr 21 30, get_bits virt_addr 12 21]"

text \<open>The loop over the levels; the state is kept when there is no memory for a table.\<close>

fun map_levels ::
  "usize \<Rightarrow> 'a frame_alloc_op \<Rightarrow> 'a VirtAddrSpace \<Rightarrow> usize \<Rightarrow> nat list \<Rightarrow> usize \<Rightarrow> 'a VirtAddrSpace \<times> unit kresult" where
  "map_levels vma alloc vs page_table [] new_page_pointer = (vs, Ok ())"
| "map_levels vma alloc vs page_table [index] new_page_pointer =
     (upd_table vs page_table (\<lambda>t. add_entry t index new_page_pointer), Ok ())"
| "map_levels vma alloc vs page_table (index # next_index # rest) new_page_pointer =
     (case get_or_alloc vma alloc vs page_table index PARENT_FLAGS of
        Ok (vs, Some p) \<Rightarrow> map_levels vma alloc vs p (next_index # rest) new_page_pointer
      | Ok (vs, None) \<Rightarrow> (vs, Err OutOfMem)
      | _ \<Rightarrow> (vs, Panic))"

definition map_page_inner ::
  "usize \<Rightarrow> usize \<Rightarrow> 'a frame_alloc_op \<Rightarrow> 'a VirtAddrSpace \<Rightarrow> VirtAddr \<Rightarrow> PhysAddr \<Rightarrow> PageMappingOptions \<Rightarrow> bool \<Rightarrow>
   'a VirtAddrSpace \<times> unit kresult" where
  "map_page_inner vma kstart alloc vs virt_addr phys_addr options global =
     (if \<not> virt_addr < kstart \<or> \<not> page_aligned virt_addr then (vs, Panic)
      else if \<not> po_exists options then (vs, Err InvlArgs)
      else
        (case options_flags options of
           Ok fl \<Rightarrow>
             let flags = PT_PRESENT OR (if global then PT_GLOBAL else 0) OR fl;
                 new_page_pointer = PageTablePointer_new phys_addr flags
             in (case as_mut_ptr vma (vs_cr3 vs) of
                   Ok (Some root) \<Rightarrow> map_levels vma alloc vs root (page_table_indicies virt_addr) new_page_pointer
                 | _ \<Rightarrow> (vs, Panic))
         | _ \<Rightarrow> (vs, Panic)))"

definition map_page ::
  "usize \<Rightarrow> usize \<Rightarrow> 'a frame_alloc_op \<Rightarrow> 'a VirtAddrSpace \<Rightarrow> VirtAddr \<Rightarrow> PhysAddr \<Rightarrow> PageMappingOptions \<Rightarrow>
   'a VirtAddrSpace \<times> unit kresult" where
  "map_page vma kstart alloc vs virt_addr phys_addr options =
     map_page_inner vma kstart alloc vs virt_addr phys_addr options False"

subsection \<open>Unmapping\<close>

text \<open>
  The tables on the way to an address.  The walk stops with \<open>Ok None\<close> (the early return) when it
  would have to follow a null pointer; the last pointer may be null.
\<close>

definition table_get :: "usize \<Rightarrow> 'a VirtAddrSpace \<Rightarrow> usize \<Rightarrow> nat \<Rightarrow> usize option kresult" where
  "table_get vma vs table index = as_mut_ptr vma (vs_mem vs table ! index)"

fun collect_tables ::
  "usize \<Rightarrow> 'a VirtAddrSpace \<Rightarrow> usize option \<Rightarrow> nat list \<Rightarrow> usize option list option kresult" where
  "collect_tables vma vs table [] = Ok (Some [table])"
| "collect_tables vma vs table (index # rest) =
     (case table of
        None \<Rightarrow> Ok None
      | Some t \<Rightarrow>
          rbind (table_get vma vs t index) (\<lambda>p.
          rbind (collect_tables vma vs p rest) (\<lambda>r.
          Ok (map_option (\<lambda>ts. table # ts) r))))"

text \<open>
  The first pass, from the last level up: the levels that are left are given with their tables
  and indices, in descending order.  The result is the level from which tables are deallocated.
\<close>

fun remove_levels :: "'a VirtAddrSpace \<Rightarrow> (nat \<times> usize option \<times> nat) list \<Rightarrow> nat \<Rightarrow> 'a VirtAddrSpace \<times> nat" where
  "remove_levels vs [] dealloc_start_index = (vs, dealloc_start_index)"
| "remove_levels vs ((i, table, index) # rest) dealloc_start_index =
     (case table of
        None \<Rightarrow> remove_levels vs rest dealloc_start_index
      | Some t \<Rightarrow>
          let vs = upd_table vs t (\<lambda>t. remove_entry t index)
          in if i \<noteq> 0 \<and> entry_count (vs_mem vs t) = 0 then remove_levels vs rest i
             else (vs, dealloc_start_index))"

definition table_dealloc :: "'a frame_dealloc_op \<Rightarrow> 'a VirtAddrSpace \<Rightarrow> usize \<Rightarrow> 'a VirtAddrSpace kresult" where
  "table_dealloc dealloc vs t =
     rbind (Allocation_new t PAGE_SIZE) (\<lambda>frame.
     rbind (dealloc (vs_alloc vs) frame) (\<lambda>a. Ok (vs\<lparr>vs_alloc := a\<rparr>)))"

text \<open>The second pass.\<close>

fun dealloc_tables :: "'a frame_dealloc_op \<Rightarrow> 'a VirtAddrSpace \<Rightarrow> usize option list \<Rightarrow> 'a VirtAddrSpace kresult" where
  "dealloc_tables dealloc vs [] = Ok vs"
| "dealloc_tables dealloc vs (None # rest) = Ok vs"
| "dealloc_tables dealloc vs (Some t # rest) =
     rbind (table_dealloc dealloc vs t) (\<lambda>vs. dealloc_tables dealloc vs rest)"

text \<open>The address that the last entry points to; a null pointer is converted as the address 0.\<close>

definition unmapped_addr :: "usize \<Rightarrow> 'a VirtAddrSpace \<Rightarrow> usize option \<Rightarrow> nat \<Rightarrow> PhysAddr option kresult" where
  "unmapped_addr vma vs table index =
     (case table of
        None \<Rightarrow> Ok None
      | Some t \<Rightarrow>
          rbind (table_get vma vs t index) (\<lambda>p.
          rbind (virt_new (case p of None \<Rightarrow> 0 | Some a \<Rightarrow> a)) (\<lambda>v.
          rbind (to_phys vma v) (\<lambda>phys. Ok (Some phys)))))"

definition unmap_page ::
  "usize \<Rightarrow> usize \<Rightarrow> 'a frame_dealloc_op \<Rightarrow> 'a VirtAddrSpace \<Rightarrow> VirtAddr \<Rightarrow> ('a VirtAddrSpace \<times> PhysAddr option) kresult" where
  "unmap_page vma kstart dealloc vs virt_addr =
     rbind (assert_r (virt_addr < kstart)) (\<lambda>_.
     rbind (assert_r (page_aligned virt_addr)) (\<lambda>_.
     let ix = page_table_indicies virt_addr in
     rbind (as_mut_ptr vma (vs_cr3 vs)) (\<lambda>root.
     rbind (collect_tables vma vs root (butlast ix)) (\<lambda>r.
     case r of
       None \<Rightarrow> Ok (vs, None)
     | Some tables \<Rightarrow>
         rbind (unmapped_addr vma vs (tables ! 3) (ix ! 3)) (\<lambda>out.
         case remove_levels vs [(3, tables ! 3, ix ! 3), (2, tables ! 2, ix ! 2), (1, tables ! 1, ix ! 1), (0, tables ! 0, ix ! 0)] 4 of
           (vs, dealloc_start_index) \<Rightarrow>
             rbind (dealloc_tables dealloc vs (drop dealloc_start_index tables)) (\<lambda>vs.
             Ok (vs, out)))))))"

subsection \<open>Many pages\<close>

record MapAction =
  ma_virt_addr :: VirtAddr
  ma_phys_addr :: PhysAddr
  ma_options :: PageMappingOptions

fun unmap_actions ::
  "usize \<Rightarrow> usize \<Rightarrow> 'a frame_dealloc_op \<Rightarrow> 'a VirtAddrSpace \<Rightarrow> MapAction list \<Rightarrow> 'a VirtAddrSpace kresult" where
  "unmap_actions vma kstart dealloc vs [] = Ok vs"
| "unmap_actions vma kstart dealloc vs (action # rest) =
     rbind (unmap_page vma kstart dealloc vs (ma_virt_addr action)) (\<lambda>(vs, r).
     rbind (expect r) (\<lambda>_. unmap_actions vma kstart dealloc vs rest))"

text \<open>\<open>taken\<close> are the actions before the current one, in order.\<close>

fun map_many_loop ::
  "usize \<Rightarrow> usize \<Rightarrow> 'a frame_alloc_op \<Rightarrow> 'a frame_dealloc_op \<Rightarrow> 'a VirtAddrSpace \<Rightarrow> MapAction list \<Rightarrow> MapAction list \<Rightarrow>
   'a VirtAddrSpace \<times> unit kresult" where
  "map_many_loop vma kstart alloc dealloc vs taken [] = (vs, Ok ())"
| "map_many_loop vma kstart alloc dealloc vs taken (action # rest) =
     (case map_page vma kstart alloc vs (ma_virt_addr action) (ma_phys_addr action) (ma_options action) of
        (vs, Ok _) \<Rightarrow> map_many_loop vma kstart alloc dealloc vs (taken @ [action]) rest
      | (vs, Err e) \<Rightarrow> (case unmap_actions vma kstart dealloc vs taken of Ok vs \<Rightarrow> (vs, Err e) | _ \<Rightarrow> (vs, Panic))
      | (vs, Panic) \<Rightarrow> (vs, Panic))"

definition map_many ::
  "usize \<Rightarrow> usize \<Rightarrow> 'a frame_alloc_op \<Rightarrow> 'a frame_dealloc_op \<Rightarrow> 'a VirtAddrSpace \<Rightarrow> MapAction list \<Rightarrow> 'a VirtAddrSpace \<times> unit kresult" where
  "map_many vma kstart alloc dealloc vs actions = map_many_loop vma kstart alloc dealloc vs [] actions"

text \<open>
  A new address space, once the kernel part has been set up for the first one; \<open>kernel_pointer\<close> is
  the cached entry.
\<close>

definition VirtAddrSpace_new ::
  "usize \<Rightarrow> 'a frame_alloc_op \<Rightarrow> (usize \<Rightarrow> table) \<Rightarrow> 'a \<Rightarrow> usize \<Rightarrow> 'a VirtAddrSpace kresult" where
  "VirtAddrSpace_new vma alloc mem a kernel_pointer =
     rbind (PageTable_new vma alloc \<lparr>vs_cr3 = 0, vs_mem = mem, vs_alloc = a\<rparr> 0) (\<lambda>(vs, r).
     rbind (ok_or r OutOfMem) (\<lambda>pml4_table.
     rbind (as_mut_ptr vma pml4_table) (\<lambda>p.
     rbind (expect p) (\<lambda>root.
     Ok ((upd_table vs root (\<lambda>t. add_entry t 511 kernel_pointer))\<lparr>vs_cr3 := pml4_table\<rparr>)))))"

subsection \<open>Dropping an address space\<close>

primrec for_each :: "('x \<Rightarrow> 's \<Rightarrow> 's kresult) \<Rightarrow> 'x list \<Rightarrow> 's \<Rightarrow> 's kresult" where
  "for_each f [] s = Ok s"
| "for_each f (x # xs) s = rbind (f x s) (for_each f xs)"

text \<open>
  The tables below a table first, then the table itself; the last entry of the root belongs to the
  kernel.  \<open>visit\<close> stands for the recursive call.
\<close>

definition dealloc_entry ::
  "usize \<Rightarrow> nat \<Rightarrow> (usize \<Rightarrow> 'a VirtAddrSpace \<Rightarrow> 'a VirtAddrSpace kresult) \<Rightarrow> usize \<Rightarrow> nat \<Rightarrow> 'a VirtAddrSpace \<Rightarrow> 'a VirtAddrSpace kresult" where
  "dealloc_entry vma level visit table i vs =
     (let pointer = vs_mem vs table ! i in
      if pointer AND PT_HUGE \<noteq> 0 \<or> (level = 3 \<and> i = NUM_ENTRIES - 1) then Ok vs
      else
        rbind (as_mut_ptr vma pointer) (\<lambda>p.
        case p of
          None \<Rightarrow> Ok vs
        | Some page_table \<Rightarrow> visit page_table vs))"

primrec dealloc_recurse ::
  "usize \<Rightarrow> 'a frame_dealloc_op \<Rightarrow> nat \<Rightarrow> usize \<Rightarrow> 'a VirtAddrSpace \<Rightarrow> 'a VirtAddrSpace kresult" where
  "dealloc_recurse vma dealloc 0 table vs = table_dealloc dealloc vs table"
| "dealloc_recurse vma dealloc (Suc level) table vs =
     rbind (for_each (dealloc_entry vma (Suc level) (dealloc_recurse vma dealloc level) table) [0..<NUM_ENTRIES] vs)
       (\<lambda>vs. table_dealloc dealloc vs table)"

definition dealloc_addr_space :: "usize \<Rightarrow> 'a frame_dealloc_op \<Rightarrow> 'a VirtAddrSpace \<Rightarrow> 'a VirtAddrSpace kresult" where
  "dealloc_addr_space vma dealloc vs =
     rbind (as_mut_ptr vma (vs_cr3 vs)) (\<lambda>p.
     rbind (expect p) (\<lambda>table. dealloc_recurse vma dealloc 3 table vs))"

end
