(* ===== verification/Page_Walk.thy ===== *)
theory Page_Walk
  imports Page_Table "HOL-Library.Sublist"
begin

text \<open>
  What the page tables mean: the walk from the root along the indices of an address, the invariant
  under which no table is reached in two ways, and the effect of mapping and unmapping on the walk.
\<close>

subsection \<open>The bits of an entry\<close>

lemma addr_mask_bits: "PAGE_ADDR_BITMASK = push_bit 12 (mask 40)"
  by (simp add: PAGE_ADDR_BITMASK_def mask_eq_exp_minus_1 push_bit_eq_mult)

lemma bit_addr_mask: "bit PAGE_ADDR_BITMASK k \<longleftrightarrow> 12 \<le> k \<and> k < 52"
  by (auto simp: addr_mask_bits bit_simps)

lemma get_bits_take_drop:
  assumes "l < h" and "h \<le> 64"
  shows "get_bits n l h = take_bit (h - l) (drop_bit l n)"
  by (simp only: get_bits_eq [OF assms] drop_bit_eq_div [symmetric] take_bit_eq_mod [symmetric] drop_bit_take_bit)

lemma no_count_bits: "(0x800fffffffffffff :: nat) = mask 52 OR 2 ^ 63"
proof -
  have "(mask 52 OR 2 ^ 63 :: nat) = mask 52 + 2 ^ 63"
    by (rule disjunctive_add [symmetric]) (simp only: bit_mask_iff bit_exp_iff, auto)
  also have "\<dots> = 0x800fffffffffffff" by (simp add: mask_eq_exp_minus_1)
  finally show ?thesis by simp
qed

lemma bit_no_count: "bit (0x800fffffffffffff :: nat) k \<longleftrightarrow> k < 52 \<or> k = 63"
  unfolding no_count_bits by (simp only: bit_or_iff bit_mask_iff bit_exp_iff possible_bit_nat) blast

text \<open>What is left of an entry without the bits that hold the count of the table.\<close>

definition entry_core :: "usize \<Rightarrow> usize" where
  "entry_core e = e AND 0x800fffffffffffff"

abbreviation entry_addr :: "usize \<Rightarrow> usize" where
  "entry_addr e \<equiv> e AND PAGE_ADDR_BITMASK"

lemma bit_entry_core: "bit (entry_core e) k \<longleftrightarrow> bit e k \<and> (k < 52 \<or> k = 63)"
  by (auto simp: entry_core_def bit_and_iff bit_no_count)

lemma entry_present_bit: "entry_present e \<longleftrightarrow> bit e 0"
proof -
  have "e AND 1 = of_bool (bit e 0)" by (simp add: and_one_eq odd_iff_mod_2_eq_one bit_0)
  then show ?thesis by (simp add: entry_present_def PT_PRESENT_def)
qed

lemma entry_present_core [simp]: "entry_present (entry_core e) = entry_present e"
  by (simp add: entry_present_bit bit_entry_core)

lemma entry_addr_core [simp]: "entry_addr (entry_core e) = entry_addr e"
  by (rule bit_eqI) (auto simp: bit_and_iff bit_addr_mask bit_entry_core)

lemma core_eqD:
  assumes "entry_core e = entry_core e'"
  shows "entry_present e = entry_present e'" and "entry_addr e = entry_addr e'"
  using entry_present_core entry_addr_core assms by metis+

lemma entry_addr_or:
  assumes "4096 dvd a" and "a < 2 ^ 52" and "\<And>k. bit fl k \<Longrightarrow> k < 12 \<or> 52 \<le> k"
  shows "entry_addr (a OR fl) = a"
proof (rule bit_eqI)
  fix k
  have low: "\<not> bit a k" if "k < 12"
  proof -
    obtain b where "a = push_bit 12 b" using assms(1) by (auto simp: push_bit_eq_mult elim: dvdE)
    then show ?thesis using that by (simp add: bit_simps)
  qed
  have high: "\<not> bit a k" if "52 \<le> k"
  proof -
    have "a = take_bit 52 a" using assms(2) by (simp add: take_bit_nat_eq_self)
    then show ?thesis using that by (metis bit_take_bit_iff not_le)
  qed
  show "bit (entry_addr (a OR fl)) k = bit a k"
    using low high assms(3) [of k] by (simp add: bit_and_iff bit_or_iff bit_addr_mask) (meson not_le)
qed

subsection \<open>One table\<close>

definition present_set :: "table \<Rightarrow> nat set" where
  "present_set t = {i. i < 512 \<and> entry_present (t ! i)}"

definition table_ok :: "table \<Rightarrow> bool" where
  "table_ok t \<longleftrightarrow> length t = 512 \<and> entry_count t = card (present_set t)"

lemma finite_present [simp]: "finite (present_set t)"
  by (simp add: present_set_def)

lemma card_present: "card (present_set t) \<le> 512"
proof -
  have "card (present_set t) \<le> card {..<512 :: nat}" by (rule card_mono) (auto simp: present_set_def)
  then show ?thesis by simp
qed

lemma length_set_count [simp]: "length (set_entry_count t n) = length t"
  by (simp add: set_entry_count_def Let_def)

lemma count_word:
  assumes "n < 2048"
  shows "get_bits (e AND 0x800fffffffffffff OR push_bit 52 n) 52 63 = n"
    and "entry_core (e AND 0x800fffffffffffff OR push_bit 52 n) = entry_core e"
proof -
  have "take_bit 11 n = n" using assms by (intro take_bit_nat_eq_self) simp
  then have n: "bit n k \<Longrightarrow> k < 11" for k by (metis bit_take_bit_iff)
  let ?w = "e AND 0x800fffffffffffff OR push_bit 52 n"
  have "get_bits ?w 52 63 = take_bit 11 (drop_bit 52 ?w)" by (subst get_bits_take_drop) simp_all
  also have "\<dots> = n"
  proof (rule bit_eqI)
    fix k
    show "bit (take_bit 11 (drop_bit 52 ?w)) k = bit n k"
      using n [of k] by (auto simp: bit_take_bit_iff bit_drop_bit_eq bit_or_iff bit_and_iff bit_push_bit_iff bit_no_count)
  qed
  finally show "get_bits ?w 52 63 = n" .
  show "entry_core ?w = entry_core e"
  proof (rule bit_eqI)
    fix k
    show "bit (entry_core ?w) k = bit (entry_core e) k"
      using n [of "k - 52"] by (auto simp: bit_entry_core bit_or_iff bit_and_iff bit_push_bit_iff bit_no_count)
  qed
qed

lemma set_count:
  assumes "length t = 512" and "n < 2048"
  shows "entry_count (set_entry_count t n) = n"
    and "entry_core (set_entry_count t n ! i) = entry_core (t ! i)"
proof -
  have n: "get_bits n 0 11 = n" using assms(2) by (simp add: get_bits_eq)
  have ne: "t \<noteq> []" using assms(1) by auto
  show "entry_count (set_entry_count t n) = n"
    using ne count_word(1) [OF assms(2)] by (simp add: entry_count_def set_entry_count_def Let_def n)
  show "entry_core (set_entry_count t n ! i) = entry_core (t ! i)"
    using ne count_word(2) [OF assms(2)] by (cases "i = 0") (simp_all add: set_entry_count_def Let_def n)
qed

lemma present_set_core:
  assumes "\<And>i. entry_core (t ! i) = entry_core (t' ! i)"
  shows "present_set t = present_set t'"
  using core_eqD(1) [OF assms] by (simp add: present_set_def)

lemma add_entry_spec:
  assumes t: "table_ok t" and i: "i < 512" and p: "entry_present ptr"
  shows "table_ok (add_entry t i ptr)" and "entry_core (add_entry t i ptr ! i) = entry_core ptr"
    and "j \<noteq> i \<Longrightarrow> entry_core (add_entry t i ptr ! j) = entry_core (t ! j)"
proof -
  have len: "length t = 512" and cnt: "entry_count t = card (present_set t)" using t by (simp_all add: table_ok_def)
  let ?c = "if entry_present (t ! i) then entry_count t else entry_count t + 1"
  have c: "?c < 2048" using card_present [of t] cnt by simp
  have add: "add_entry t i ptr = set_entry_count (t[i := ptr]) ?c" by (simp add: add_entry_def)
  note sc = set_count [of "t[i := ptr]" ?c, OF _ c]
  show "entry_core (add_entry t i ptr ! i) = entry_core ptr" using sc(2) [of i] len i by (simp add: add)
  show "entry_core (add_entry t i ptr ! j) = entry_core (t ! j)" if "j \<noteq> i" using sc(2) [of j] len that by (simp add: add)
  have ps: "present_set (add_entry t i ptr) = insert i (present_set t)"
    using present_set_core [of "add_entry t i ptr" "t[i := ptr]"] sc(2) len i p
    by (auto simp: add present_set_def nth_list_update)
  have "card (insert i (present_set t)) = ?c" using i by (auto simp: cnt present_set_def card_insert_if)
  then show "table_ok (add_entry t i ptr)" using ps sc(1) len by (simp add: table_ok_def add)
qed

lemma bit_not_present: "bit (unot PT_PRESENT) k \<longleftrightarrow> k < 64 \<and> k \<noteq> 0"
  by (simp add: bit_unot PT_PRESENT_def bit_Suc_0_iff)

lemma cleared [simp]: "\<not> entry_present (e AND unot PT_PRESENT)"
  by (simp add: entry_present_bit bit_and_iff bit_not_present)

lemma remove_entry_spec:
  assumes t: "table_ok t" and i: "i < 512"
  shows "table_ok (remove_entry t i)" and "\<not> entry_present (remove_entry t i ! i)"
    and "j \<noteq> i \<Longrightarrow> entry_core (remove_entry t i ! j) = entry_core (t ! j)"
    and "\<not> entry_present (t ! i) \<Longrightarrow> remove_entry t i = t"
proof -
  have len: "length t = 512" and cnt: "entry_count t = card (present_set t)" using t by (simp_all add: table_ok_def)
  show "\<not> entry_present (t ! i) \<Longrightarrow> remove_entry t i = t" by (simp add: remove_entry_def)
  show "table_ok (remove_entry t i)" "\<not> entry_present (remove_entry t i ! i)"
    "j \<noteq> i \<Longrightarrow> entry_core (remove_entry t i ! j) = entry_core (t ! j)"
  proof (atomize (full), cases "entry_present (t ! i)")
    case True
    let ?t = "t[i := t ! i AND unot PT_PRESENT]"
    have ec: "entry_count ?t = entry_count t"
    proof (cases "i = 0")
      case True
      have "take_bit 11 (drop_bit 52 (t ! 0 AND unot PT_PRESENT)) = take_bit 11 (drop_bit 52 (t ! 0))"
        by (rule bit_eqI) (auto simp: bit_take_bit_iff bit_drop_bit_eq bit_and_iff bit_not_present)
      then have "get_bits (t ! 0 AND unot PT_PRESENT) 52 63 = get_bits (t ! 0) 52 63"
        by (simp add: get_bits_take_drop)
      then show ?thesis using True len by (simp add: entry_count_def)
    qed (simp add: entry_count_def)
    have pos: "0 < card (present_set t)" using True i by (auto simp: present_set_def card_gt_0_iff)
    let ?c = "card (present_set t) - 1"
    have c: "?c < 2048" using card_present [of t] by simp
    have "(card (present_set t) + (usize_limit - 1)) mod usize_limit = ?c"
      using pos card_present [of t] by (cases "card (present_set t)") simp_all
    then have rm: "remove_entry t i = set_entry_count ?t ?c"
      using True by (simp add: remove_entry_def dec_entry_count_def ec cnt)
    note sc = set_count [of ?t ?c, OF _ c]
    have "present_set (remove_entry t i) = present_set ?t" using sc(2) len by (intro present_set_core) (simp add: rm)
    also have "\<dots> = present_set t - {i}"
    proof (rule set_eqI)
      fix x
      show "x \<in> present_set ?t \<longleftrightarrow> x \<in> present_set t - {i}"
        using len i by (cases "x = i") (simp_all add: present_set_def)
    qed
    finally have ps: "present_set (remove_entry t i) = present_set t - {i}" .
    have 1: "table_ok (remove_entry t i)" using ps sc(1) len True i by (simp add: table_ok_def rm present_set_def)
    have 2: "\<not> entry_present (remove_entry t i ! i)" using core_eqD(1) [OF sc(2), of i] len i by (simp add: rm)
    have 3: "j \<noteq> i \<longrightarrow> entry_core (remove_entry t i ! j) = entry_core (t ! j)" using sc(2) [of j] len by (simp add: rm)
    from 1 2 3 show "table_ok (remove_entry t i) \<and> \<not> entry_present (remove_entry t i ! i) \<and>
        (j \<noteq> i \<longrightarrow> entry_core (remove_entry t i ! j) = entry_core (t ! j))" by blast
  qed (use t in \<open>simp add: remove_entry_def\<close>)
qed

lemma empty_table:
  "table_ok (replicate NUM_ENTRIES 0)" "i < 512 \<Longrightarrow> \<not> entry_present (replicate NUM_ENTRIES 0 ! i)"
proof -
  have n: "NUM_ENTRIES = 512" by (simp add: NUM_ENTRIES_def PAGE_SIZE_def)
  have no: "\<not> entry_present 0" by (simp add: entry_present_bit)
  show "i < 512 \<Longrightarrow> \<not> entry_present (replicate NUM_ENTRIES 0 ! i)" using no by (simp add: n)
  have "present_set (replicate NUM_ENTRIES 0) = {}" using no by (auto simp: present_set_def n)
  moreover have "entry_count (replicate NUM_ENTRIES 0) = 0" by (simp add: entry_count_def n get_bits_take_drop)
  ultimately show "table_ok (replicate NUM_ENTRIES 0)" by (simp add: table_ok_def n)
qed

subsection \<open>The walk\<close>

text \<open>The table that a path of indices leads to, and the entry at the end of a path.\<close>

fun frame_at :: "usize \<Rightarrow> (usize \<Rightarrow> table) \<Rightarrow> usize \<Rightarrow> nat list \<Rightarrow> usize option" where
  "frame_at vma M f [] = Some f"
| "frame_at vma M f (i # is) =
     (if entry_present (M f ! i) then frame_at vma M (entry_addr (M f ! i) + vma) is else None)"

definition entry_at :: "usize \<Rightarrow> (usize \<Rightarrow> table) \<Rightarrow> usize \<Rightarrow> nat list \<Rightarrow> usize option" where
  "entry_at vma M root p =
     (case frame_at vma M root (butlast p) of
        None \<Rightarrow> None
      | Some f \<Rightarrow> if entry_present (M f ! last p) then Some (entry_core (M f ! last p)) else None)"

text \<open>The last entry of the root leads to the tables of the kernel, which all spaces share.\<close>

definition user_path :: "nat list \<Rightarrow> bool" where
  "user_path p \<longleftrightarrow> (\<forall>i \<in> set p. i < 512) \<and> (p \<noteq> [] \<longrightarrow> hd p \<noteq> 511)"

definition frame_ok :: "usize \<Rightarrow> usize \<Rightarrow> bool" where
  "frame_ok vma f \<longleftrightarrow> 4096 dvd vma \<and> 4096 dvd f \<and> virt_ok f \<and> vma \<le> f \<and> phys_ok (f - vma)"

definition tables_ok :: "usize \<Rightarrow> usize set \<Rightarrow> (usize \<Rightarrow> table) \<Rightarrow> usize \<Rightarrow> bool" where
  "tables_ok vma L M root \<longleftrightarrow>
     (\<forall>p f. user_path p \<and> length p \<le> 3 \<and> frame_at vma M root p = Some f \<longrightarrow> f \<in> L \<and> frame_ok vma f \<and> table_ok (M f)) \<and>
     (\<forall>p q f. user_path p \<and> user_path q \<and> length p \<le> 3 \<and> length q \<le> 3 \<and>
        frame_at vma M root p = Some f \<and> frame_at vma M root q = Some f \<longrightarrow> p = q)"

text \<open>No entry above the last level is marked as a huge page.\<close>

definition dirs_ok :: "usize \<Rightarrow> (usize \<Rightarrow> table) \<Rightarrow> usize \<Rightarrow> bool" where
  "dirs_ok vma M root \<longleftrightarrow>
     (\<forall>p e. user_path p \<and> p \<noteq> [] \<and> length p \<le> 3 \<and> entry_at vma M root p = Some e \<longrightarrow> \<not> bit e 7)"

lemma dirs_okD:
  assumes "dirs_ok vma M root" and "user_path p" "p \<noteq> []" "length p \<le> 3" and "entry_at vma M root p = Some e"
  shows "\<not> bit e 7"
  using assms by (auto simp: dirs_ok_def)

text \<open>The tables of an address space.\<close>

definition tables_of :: "usize \<Rightarrow> (usize \<Rightarrow> table) \<Rightarrow> usize \<Rightarrow> usize set" where
  "tables_of vma M root = {f. \<exists>p. user_path p \<and> length p \<le> 3 \<and> frame_at vma M root p = Some f}"

lemma tables_of_cong:
  assumes "\<And>q. user_path q \<Longrightarrow> length q \<le> 3 \<Longrightarrow> frame_at vma M' root q = frame_at vma M root q"
  shows "tables_of vma M' root = tables_of vma M root"
  unfolding tables_of_def by (simp add: assms cong: conj_cong)

lemma tables_of_memI: "user_path p \<Longrightarrow> length p \<le> 3 \<Longrightarrow> frame_at vma M root p = Some f \<Longrightarrow> f \<in> tables_of vma M root"
  by (auto simp: tables_of_def)

lemma tables_of_memE:
  assumes "f \<in> tables_of vma M root"
  obtains p where "user_path p" "length p \<le> 3" "frame_at vma M root p = Some f"
  using assms by (auto simp: tables_of_def)

lemma tables_okD:
  assumes "tables_ok vma L M root" and "user_path p" "length p \<le> 3" "frame_at vma M root p = Some f"
  shows "f \<in> L" and "frame_ok vma f" and "table_ok (M f)"
    and "user_path q \<Longrightarrow> length q \<le> 3 \<Longrightarrow> frame_at vma M root q = Some f \<Longrightarrow> q = p"
  using assms unfolding tables_ok_def by blast+

lemma user_path_append: "user_path (p @ q) \<Longrightarrow> user_path p"
  by (auto simp: user_path_def hd_append split: if_splits)

lemma user_path_prefix: "user_path q \<Longrightarrow> prefix p q \<Longrightarrow> user_path p"
  by (auto simp: prefix_def dest: user_path_append)

lemma user_path_last: "user_path (p @ [i]) \<Longrightarrow> i < 512"
  by (simp add: user_path_def)

lemma frame_at_snoc:
  "frame_at vma M root (p @ [i]) =
     (case frame_at vma M root p of
        None \<Rightarrow> None
      | Some f \<Rightarrow> if entry_present (M f ! i) then Some (entry_addr (M f ! i) + vma) else None)"
  by (induction p arbitrary: root) simp_all

lemma frame_at_prefix:
  assumes "frame_at vma M root (p @ q) \<noteq> None"
  shows "frame_at vma M root p \<noteq> None"
  using assms by (induction p arbitrary: root) (auto split: if_splits)

lemma entry_at_snoc:
  "entry_at vma M root (p @ [i]) =
     (case frame_at vma M root p of
        None \<Rightarrow> None
      | Some f \<Rightarrow> if entry_present (M f ! i) then Some (entry_core (M f ! i)) else None)"
  by (cases "frame_at vma M root p") (simp_all add: entry_at_def)

lemma frame_at_entry:
  "q \<noteq> [] \<Longrightarrow> frame_at vma M root q = map_option (\<lambda>e. entry_addr e + vma) (entry_at vma M root q)"
  by (cases q rule: rev_cases) (auto simp: frame_at_snoc entry_at_snoc split: option.splits)

text \<open>Only the entry itself and what is below it depend on an entry.\<close>

lemma frame_at_upd:
  assumes ok: "tables_ok vma L M root" and g: "frame_at vma M root p = Some g" "user_path p" "length p \<le> 3"
    and same: "\<And>j. j \<noteq> i \<Longrightarrow> entry_core (t ! j) = entry_core (M g ! j)"
    and q: "user_path q" "length q \<le> 3" "\<not> prefix (p @ [i]) q"
  shows "frame_at vma (M(g := t)) root q = frame_at vma M root q"
  using q
proof (induction q rule: rev_induct)
  case (snoc j q)
  have IH: "frame_at vma (M(g := t)) root q = frame_at vma M root q"
    using snoc.prems by (intro snoc.IH) (auto dest: user_path_append)
  show ?case
  proof (cases "frame_at vma M root q")
    case (Some f)
    show ?thesis
    proof (cases "f = g")
      case True
      have "q = p"
        using tables_okD(4) [OF ok g(2,3,1), of q] snoc.prems Some True user_path_append [of q] by simp
      then have "j \<noteq> i" using snoc.prems(3) by auto
      from core_eqD [OF same [OF this]] show ?thesis unfolding frame_at_snoc IH Some by (simp add: True)
    qed (unfold frame_at_snoc IH Some, simp)
  qed (unfold frame_at_snoc IH, simp)
qed simp

lemma frame_at_upd_outside:
  assumes ok: "tables_ok vma L M root" and h: "h \<notin> L" and q: "user_path q" "length q \<le> 3"
  shows "frame_at vma (M(h := t)) root q = frame_at vma M root q"
  using q
proof (induction q rule: rev_induct)
  case (snoc j q)
  have IH: "frame_at vma (M(h := t)) root q = frame_at vma M root q"
    using snoc.prems by (intro snoc.IH) (auto dest: user_path_append)
  show ?case
  proof (cases "frame_at vma M root q")
    case (Some f)
    have "f \<in> L" using tables_okD(1) [OF ok _ _ Some] snoc.prems user_path_append [of q] by simp
    then have "f \<noteq> h" using h by auto
    then show ?thesis unfolding frame_at_snoc IH Some by simp
  qed (unfold frame_at_snoc IH, simp)
qed simp

text \<open>The entries of four indices, when the frames are the same up to one table.\<close>

lemma entry_at_cong:
  assumes "frame_at vma M' root (butlast p) = frame_at vma M root (butlast p)"
    and "\<And>f. frame_at vma M root (butlast p) = Some f \<Longrightarrow> entry_core (M' f ! last p) = entry_core (M f ! last p)"
  shows "entry_at vma M' root p = entry_at vma M root p"
  using assms(1) core_eqD(1) [OF assms(2)] assms(2) by (auto simp: entry_at_def split: option.splits)

subsection \<open>Setting an entry of a last-level table\<close>

lemma split_last: "p \<noteq> [] \<Longrightarrow> length p \<le> Suc n \<Longrightarrow> \<exists>q i. p = q @ [i] \<and> length q \<le> n"
  by (cases p rule: rev_cases) auto

lemma set_leaf:
  assumes ok: "tables_ok vma L M root" and g: "frame_at vma M root p = Some g" and p: "user_path (p @ [i])" "length p = 3"
    and t: "table_ok t" "\<And>j. j \<noteq> i \<Longrightarrow> entry_core (t ! j) = entry_core (M g ! j)"
  shows "tables_ok vma L (M(g := t)) root"
    and "user_path q \<Longrightarrow> q \<noteq> [] \<Longrightarrow> length q \<le> 4 \<Longrightarrow> entry_at vma (M(g := t)) root q =
      (if q = p @ [i] then if entry_present (t ! i) then Some (entry_core (t ! i)) else None else entry_at vma M root q)"
    and "tables_of vma (M(g := t)) root = tables_of vma M root"
proof -
  have up: "user_path p" using p(1) by (rule user_path_append)
  have same: "frame_at vma (M(g := t)) root q = frame_at vma M root q" if "user_path q" "length q \<le> 3" for q
    using that p(2) by (intro frame_at_upd [OF ok g up _ t(2)]) (auto dest: prefix_length_le)
  then show "tables_of vma (M(g := t)) root = tables_of vma M root" by (rule tables_of_cong)
  have inj: "q = p" if "user_path q" "length q \<le> 3" "frame_at vma M root q = Some g" for q
    using tables_okD(4) [OF ok up _ g that] p(2) by simp
  show "tables_ok vma L (M(g := t)) root"
    using ok t(1) unfolding tables_ok_def by (auto simp: same)
  show "entry_at vma (M(g := t)) root q =
      (if q = p @ [i] then if entry_present (t ! i) then Some (entry_core (t ! i)) else None else entry_at vma M root q)"
    if q: "user_path q" "q \<noteq> []" "length q \<le> 4"
  proof -
    obtain r j where r: "q = r @ [j]" "length r \<le> 3" using split_last [of q 3] q(2,3) by auto
    have ur: "user_path r" using q(1) r(1) by (auto dest: user_path_append)
    show ?thesis
    proof (cases "q = p @ [i]")
      case True
      then show ?thesis using same [of p] up p(2) g by (simp add: entry_at_snoc)
    next
      case False
      have "entry_core ((M(g := t)) f ! j) = entry_core (M f ! j)" if "frame_at vma M root r = Some f" for f
      proof (cases "f = g")
        case True
        then have "r = p" using inj [OF ur] that r(2) by simp
        then show ?thesis using t(2) False r(1) True by auto
      qed simp
      then have "entry_at vma (M(g := t)) root q = entry_at vma M root q"
        using r same [OF ur] by (intro entry_at_cong) simp_all
      then show ?thesis using False by simp
    qed
  qed
qed

subsection \<open>Cutting off and attaching a table\<close>

lemma frame_at_append:
  "frame_at vma M root (p @ q) = Option.bind (frame_at vma M root p) (\<lambda>f. frame_at vma M f q)"
  by (induction p arbitrary: root) simp_all

lemma not_prefix_self: "\<not> prefix (p @ [i]) p"
  by (auto dest: prefix_length_le)

lemma tables_okI:
  assumes "\<And>p f. user_path p \<Longrightarrow> length p \<le> 3 \<Longrightarrow> frame_at vma M root p = Some f \<Longrightarrow>
      f \<in> L \<and> frame_ok vma f \<and> table_ok (M f)"
    and "\<And>p q f. user_path p \<Longrightarrow> user_path q \<Longrightarrow> length p \<le> 3 \<Longrightarrow> length q \<le> 3 \<Longrightarrow>
      frame_at vma M root p = Some f \<Longrightarrow> frame_at vma M root q = Some f \<Longrightarrow> p = q"
  shows "tables_ok vma L M root"
  using assms unfolding tables_ok_def by blast

lemma cut:
  assumes ok: "tables_ok vma L M root" and g: "frame_at vma M root p = Some g" and p: "user_path (p @ [i])" "length p \<le> 3"
    and M': "M' = M(g := remove_entry (M g) i)"
  shows cut_ok: "tables_ok vma L M' root"
    and cut_frames: "user_path q \<Longrightarrow> length q \<le> 3 \<Longrightarrow>
      frame_at vma M' root q = (if prefix (p @ [i]) q then None else frame_at vma M root q)"
    and cut_entries: "user_path q \<Longrightarrow> q \<noteq> [] \<Longrightarrow> length q \<le> 4 \<Longrightarrow>
      entry_at vma M' root q = (if prefix (p @ [i]) q then None else entry_at vma M root q)"
proof -
  have up: "user_path p" using p(1) by (rule user_path_append)
  have i: "i < 512" using p(1) by (rule user_path_last)
  note D = tables_okD [OF ok up p(2) g]
  have at_g: "M' g = remove_entry (M g) i" and other: "\<And>f. f \<noteq> g \<Longrightarrow> M' f = M f" by (simp_all add: M')
  note rm = remove_entry_spec [OF D(3) i]
  have same: "frame_at vma M' root q = frame_at vma M root q"
    if "user_path q" "length q \<le> 3" "\<not> prefix (p @ [i]) q" for q
    unfolding M' using that by (intro frame_at_upd [OF ok g up p(2) rm(3)])
  have at_p: "frame_at vma M' root p = Some g" using same [OF up p(2) not_prefix_self] g by simp
  have gone: "frame_at vma M' root q = None" if pre: "prefix (p @ [i]) q" for q
  proof -
    obtain r where "q = p @ i # r" using pre unfolding prefix_def by auto
    then show ?thesis using rm(2) by (simp add: frame_at_append at_p at_g)
  qed
  show frames: "frame_at vma M' root q = (if prefix (p @ [i]) q then None else frame_at vma M root q)"
    if "user_path q" "length q \<le> 3" for q
    using same [OF that] gone by simp
  show "entry_at vma M' root q = (if prefix (p @ [i]) q then None else entry_at vma M root q)"
    if q: "user_path q" "q \<noteq> []" "length q \<le> 4"
  proof -
    obtain r j where r: "q = r @ [j]" "length r \<le> 3" using split_last [of q 3] q(2,3) by auto
    have ur: "user_path r" using q(1) r(1) by (auto dest: user_path_append)
    show ?thesis
    proof (cases "prefix (p @ [i]) q")
      case True
      then consider "r = p" "j = i" | "prefix (p @ [i]) r" using r(1) by (auto simp: prefix_snoc)
      then show ?thesis
        using True rm(2) gone by cases (simp_all add: r(1) entry_at_snoc at_p at_g)
    next
      case False
      then have np: "\<not> prefix (p @ [i]) r" and ne: "p @ [i] \<noteq> q" using r(1) by (auto simp: prefix_snoc)
      have "entry_core (M' f ! j) = entry_core (M f ! j)" if "frame_at vma M root r = Some f" for f
      proof (cases "f = g")
        case True
        then have "r = p" using D(4) [OF ur] that r(2) by simp
        then show ?thesis using rm(3) ne r(1) True by (auto simp: at_g)
      qed (simp add: other)
      then have "entry_at vma M' root q = entry_at vma M root q"
        using r same [OF ur _ np] by (intro entry_at_cong) simp_all
      then show ?thesis using False by simp
    qed
  qed
  show "tables_ok vma L M' root"
  proof (rule tables_okI)
    fix q f
    assume q: "user_path q" "length q \<le> 3" "frame_at vma M' root q = Some f"
    then have "frame_at vma M root q = Some f" by (simp add: frames split: if_splits)
    from tables_okD(1-3) [OF ok q(1,2) this] rm(1) show "f \<in> L \<and> frame_ok vma f \<and> table_ok (M' f)"
      by (cases "f = g") (simp_all add: at_g other)
  next
    fix q r f
    assume q: "user_path q" "user_path r" "length q \<le> 3" "length r \<le> 3"
      "frame_at vma M' root q = Some f" "frame_at vma M' root r = Some f"
    then have "frame_at vma M root q = Some f" "frame_at vma M root r = Some f"
      by (simp_all add: frames split: if_splits)
    then show "q = r" using tables_okD(4) [OF ok q(2,4)] q by simp
  qed
qed

lemma attach:
  assumes ok: "tables_ok vma L M root" and g: "frame_at vma M root p = Some g" and p: "user_path (p @ [i])" "length p \<le> 2"
    and free: "\<not> entry_present (M g ! i)" and h: "h \<notin> L" "frame_ok vma h"
    and ptr: "entry_present ptr" "entry_addr ptr + vma = h"
    and M': "M' = M(h := replicate NUM_ENTRIES 0, g := add_entry (M g) i ptr)"
  shows attach_ok: "tables_ok vma (insert h L) M' root"
    and attach_frame: "frame_at vma M' root (p @ [i]) = Some h"
    and attach_entries: "user_path q \<Longrightarrow> q \<noteq> [] \<Longrightarrow> length q \<le> 4 \<Longrightarrow> entry_at vma M' root q =
      (if q = p @ [i] then Some (entry_core ptr) else entry_at vma M root q)"
    and attach_tables: "tables_of vma M' root = insert h (tables_of vma M root)"
proof -
  let ?M = "M(h := replicate NUM_ENTRIES 0)"
  have up: "user_path p" using p(1) by (rule user_path_append)
  have i: "i < 512" using p(1) by (rule user_path_last)
  have p3: "length p \<le> 3" using p(2) by simp
  note D = tables_okD [OF ok up p3 g]
  note ad = add_entry_spec [OF D(3) i ptr(1)]
  have gh: "g \<noteq> h" using D(1) h(1) by auto
  have at_g: "M' g = add_entry (M g) i ptr" and at_new: "M' h = replicate NUM_ENTRIES 0"
    and other: "\<And>f. f \<noteq> g \<Longrightarrow> f \<noteq> h \<Longrightarrow> M' f = M f"
    using gh by (simp_all add: M')
  have out: "frame_at vma ?M root q = frame_at vma M root q" if "user_path q" "length q \<le> 3" for q
    using that by (rule frame_at_upd_outside [OF ok h(1)])
  have ok1: "tables_ok vma L ?M root"
  proof (rule tables_okI)
    fix q f
    assume q: "user_path q" "length q \<le> 3" "frame_at vma ?M root q = Some f"
    then have "frame_at vma M root q = Some f" using out by simp
    from tables_okD(1-3) [OF ok q(1,2) this] h(1) show "f \<in> L \<and> frame_ok vma f \<and> table_ok (?M f)" by auto
  next
    fix q r f
    assume q: "user_path q" "user_path r" "length q \<le> 3" "length r \<le> 3"
      "frame_at vma ?M root q = Some f" "frame_at vma ?M root r = Some f"
    then have "frame_at vma M root q = Some f" "frame_at vma M root r = Some f" using out by simp_all
    then show "q = r" using tables_okD(4) [OF ok q(2,4)] q by simp
  qed
  have same: "frame_at vma M' root q = frame_at vma M root q"
    if "user_path q" "length q \<le> 3" "\<not> prefix (p @ [i]) q" for q
  proof -
    have "frame_at vma ?M root p = Some g" using out [OF up p3] g by simp
    moreover have "entry_core (add_entry (M g) i ptr ! j) = entry_core (?M g ! j)" if "j \<noteq> i" for j
      using ad(3) [OF that] gh by simp
    ultimately have "frame_at vma M' root q = frame_at vma ?M root q"
      unfolding M' by (intro frame_at_upd [OF ok1 _ up p3 _ that])
    then show ?thesis using out [OF that(1,2)] by simp
  qed
  have at_p: "frame_at vma M' root p = Some g" using same [OF up p3 not_prefix_self] g by simp
  have new: "frame_at vma M' root (p @ i # r) = frame_at vma M' h r" for r
    using core_eqD [OF ad(2)] ptr by (simp add: frame_at_append at_p at_g)
  show at_h: "frame_at vma M' root (p @ [i]) = Some h" by (simp add: new)
  have frames: "frame_at vma M' root q = (if q = p @ [i] then Some h else frame_at vma M root q)"
    if q: "user_path q" "length q \<le> 3" for q
  proof (cases "prefix (p @ [i]) q")
    case True
    then obtain r where r: "q = p @ i # r" unfolding prefix_def by auto
    have "frame_at vma M root q = None" using free by (simp add: r frame_at_append g)
    moreover have "frame_at vma M' h r = None" if "r \<noteq> []"
      using that q(1) empty_table(2) by (cases r) (auto simp: r user_path_def at_new)
    ultimately show ?thesis using at_h by (cases "r = []") (simp_all add: r new)
  qed (use same [OF q] in auto)
  have none: "frame_at vma M root (p @ [i]) = None" using free by (simp add: frame_at_append g)
  show "tables_of vma M' root = insert h (tables_of vma M root)"
  proof (intro equalityI subsetI)
    fix f
    assume "f \<in> tables_of vma M' root"
    then obtain q where q: "user_path q" "length q \<le> 3" "frame_at vma M' root q = Some f" by (rule tables_of_memE)
    then show "f \<in> insert h (tables_of vma M root)"
      using frames [OF q(1,2)] by (cases "q = p @ [i]") (auto intro: tables_of_memI)
  next
    fix f
    assume "f \<in> insert h (tables_of vma M root)"
    then consider "f = h" | q where "user_path q" "length q \<le> 3" "frame_at vma M root q = Some f"
      by (auto elim: tables_of_memE)
    then show "f \<in> tables_of vma M' root"
    proof cases
      case 1
      then show ?thesis using tables_of_memI [OF p(1) _ at_h] p(2) by simp
    next
      case (2 q)
      then have "q \<noteq> p @ [i]" using none by auto
      then show ?thesis using frames [OF 2(1,2)] 2(3) by (intro tables_of_memI [OF 2(1,2)]) simp
    qed
  qed
  show "entry_at vma M' root q = (if q = p @ [i] then Some (entry_core ptr) else entry_at vma M root q)"
    if q: "user_path q" "q \<noteq> []" "length q \<le> 4"
  proof -
    obtain r j where r: "q = r @ [j]" "length r \<le> 3" using split_last [of q 3] q(2,3) by auto
    have ur: "user_path r" and j: "j < 512" using q(1) r(1) user_path_append user_path_last by auto
    consider "r = p @ [i]" | "r = p" "j = i" | "r \<noteq> p @ [i]" "q \<noteq> p @ [i]" using r(1) by auto
    then show ?thesis
    proof cases
      case 1
      have "frame_at vma M' root r = Some h" "frame_at vma M root r = None" "r \<noteq> p" using at_h none 1 by simp_all
      then show ?thesis using empty_table(2) [OF j] by (simp add: r(1) entry_at_snoc at_new)
    next
      case 2
      then show ?thesis using core_eqD(1) [OF ad(2)] ptr(1) ad(2) by (simp add: r(1) entry_at_snoc at_p at_g)
    next
      case 3
      have "entry_core (M' f ! j) = entry_core (M f ! j)" if f: "frame_at vma M root r = Some f" for f
      proof (cases "f = g")
        case True
        then have "r = p" using D(4) [OF ur] f r(2) by simp
        then show ?thesis using 3(2) r(1) ad(3) True at_g by auto
      next
        case False
        moreover have "f \<noteq> h" using tables_okD(1) [OF ok ur r(2) f] h(1) by auto
        ultimately show ?thesis by (simp add: other)
      qed
      then have "entry_at vma M' root q = entry_at vma M root q"
        using r frames [OF ur r(2)] 3(1) by (intro entry_at_cong) simp_all
      then show ?thesis using 3(2) by simp
    qed
  qed
  show "tables_ok vma (insert h L) M' root"
  proof (rule tables_okI)
    fix q f
    assume q: "user_path q" "length q \<le> 3" "frame_at vma M' root q = Some f"
    show "f \<in> insert h L \<and> frame_ok vma f \<and> table_ok (M' f)"
    proof (cases "q = p @ [i]")
      case True
      then have "f = h" using q frames by simp
      then show ?thesis using h(2) empty_table(1) by (simp add: at_new)
    next
      case False
      then have "frame_at vma M root q = Some f" using q frames by simp
      from tables_okD(1-3) [OF ok q(1,2) this] h(1)
      have "f \<in> L \<and> frame_ok vma f \<and> table_ok (M f) \<and> f \<noteq> h" by auto
      then show ?thesis using ad(1) by (cases "f = g") (simp_all add: at_g other)
    qed
  next
    fix q r f
    assume q: "user_path q" "user_path r" "length q \<le> 3" "length r \<le> 3"
      "frame_at vma M' root q = Some f" "frame_at vma M' root r = Some f"
    show "q = r"
    proof (cases "f = h")
      case True
      have "s = p @ [i]" if s: "user_path s" "length s \<le> 3" "frame_at vma M' root s = Some f" for s
      proof (rule ccontr)
        assume "s \<noteq> p @ [i]"
        then have "frame_at vma M root s = Some h" using frames [OF s(1,2)] s(3) True by simp
        from tables_okD(1) [OF ok s(1,2) this] h(1) show False by simp
      qed
      from this [of q] this [of r] q show ?thesis by simp
    next
      case False
      then have "frame_at vma M root q = Some f" "frame_at vma M root r = Some f"
        using q by (simp_all add: frames split: if_splits)
      then show ?thesis using tables_okD(4) [OF ok q(2,4)] q by simp
    qed
  qed
qed

end
