(* ===== verification/Page_Map.thy ===== *)
theory Page_Map
  imports Page_Walk
begin

text \<open>
  Mapping pages over any allocator of frames.  The allocator is an interface: what
  the page tables rely on is that a new frame is not in use and lies in the window to physical
  memory, and that a frame in use can be given back.
\<close>

subsection \<open>Pointers to frames\<close>

lemma bit_bound:
  assumes "n < 2 ^ m" and "bit (n :: nat) k"
  shows "k < m"
  using assms bit_take_bit_iff [of m n k] by (simp add: take_bit_nat_eq_self)

lemma aligned_low:
  assumes "4096 dvd (a :: nat)" and "k < 12"
  shows "\<not> bit a k"
proof -
  obtain b where "a = push_bit 12 b" using assms(1) by (auto simp: push_bit_eq_mult elim: dvdE)
  then show ?thesis using assms(2) by (simp add: bit_simps)
qed

lemma as_mut_ptr_frame:
  assumes "entry_present e" and "frame_ok vma (entry_addr e + vma)"
  shows "as_mut_ptr vma e = Ok (Some (entry_addr e + vma))"
  using assms to_phys_to_virt(1) [of "entry_addr e" vma]
  by (simp add: as_mut_ptr_def entry_present_def phys_to_virt_def frame_ok_def)

lemma frame_phys:
  assumes "frame_ok vma h"
  shows "virt_to_phys vma h = Ok (h - vma)"
  using assms to_phys_to_virt(2) [of "h - vma" vma] by (simp add: virt_to_phys_def frame_ok_def)

lemma table_flags: "PARENT_FLAGS OR PT_PRESENT OR PT_PAGE_TABLE = 519"
  by (simp add: PARENT_FLAGS_def PT_PRESENT_def PT_WRITABLE_def PT_USER_def PT_PAGE_TABLE_def)

lemma pointer_flags:
  assumes h: "frame_ok vma h" and fl: "fl < 4096" "bit fl 0"
  shows "entry_present ((h - vma) OR fl)" and "entry_addr ((h - vma) OR fl) + vma = h"
    and "\<not> bit fl 7 \<Longrightarrow> \<not> bit ((h - vma) OR fl) 7"
proof -
  have low: "bit fl k \<Longrightarrow> k < 12" for k using bit_bound [of fl 12 k] fl(1) by simp
  show "entry_present ((h - vma) OR fl)" using fl(2) by (simp add: entry_present_bit bit_or_iff)
  have "entry_addr ((h - vma) OR fl) = h - vma"
    using h low by (intro entry_addr_or) (auto simp: frame_ok_def phys_ok_def)
  then show "entry_addr ((h - vma) OR fl) + vma = h" using h by (simp add: frame_ok_def)
  have "\<not> bit (h - vma) 7" using h by (intro aligned_low) (auto simp: frame_ok_def)
  then show "\<not> bit ((h - vma) OR fl) 7" if "\<not> bit fl 7" using that by (simp add: bit_or_iff)
qed

lemma table_pointer:
  assumes "frame_ok vma h"
  shows "entry_present ((h - vma) OR 519)" and "entry_addr ((h - vma) OR 519) + vma = h" and "\<not> bit ((h - vma) OR 519) 7"
  using pointer_flags [OF assms, of 519] by (simp_all add: bit_iff_odd)

subsection \<open>What an entry says\<close>

lemma flag_bits:
  "bit PT_PRESENT k \<longleftrightarrow> k = 0" "bit PT_WRITABLE k \<longleftrightarrow> k = 1" "bit PT_USER k \<longleftrightarrow> k = 2" "bit PT_PWT k \<longleftrightarrow> k = 3"
  "bit PT_PCD k \<longleftrightarrow> k = 4" "bit PT_PTE_PAT k \<longleftrightarrow> k = 7" "bit PT_NO_EXEC k \<longleftrightarrow> k = 63"
proof -
  have f: "PT_PRESENT = 2 ^ 0" "PT_WRITABLE = 2 ^ 1" "PT_USER = 2 ^ 2" "PT_PWT = 2 ^ 3" "PT_PCD = 2 ^ 4" "PT_PTE_PAT = 2 ^ 7"
    "PT_NO_EXEC = 2 ^ 63"
    by (simp_all add: PT_PRESENT_def PT_WRITABLE_def PT_USER_def PT_PWT_def PT_PCD_def PT_PTE_PAT_def PT_NO_EXEC_def)
  show "bit PT_PRESENT k \<longleftrightarrow> k = 0" "bit PT_WRITABLE k \<longleftrightarrow> k = 1" "bit PT_USER k \<longleftrightarrow> k = 2" "bit PT_PWT k \<longleftrightarrow> k = 3"
    "bit PT_PCD k \<longleftrightarrow> k = 4" "bit PT_PTE_PAT k \<longleftrightarrow> k = 7" "bit PT_NO_EXEC k \<longleftrightarrow> k = 63"
    unfolding f bit_exp_iff by simp_all
qed

lemma bit_if: "bit (if b then x else 0) k \<longleftrightarrow> b \<and> bit x k" for x :: nat
  by simp

text \<open>What the processor reads from the entry of a page.\<close>

record page_view =
  pv_addr :: usize
  pv_write :: bool
  pv_exec :: bool
  pv_user :: bool
  pv_write_through :: bool
  pv_cache_disabled :: bool

definition view_entry :: "usize \<Rightarrow> page_view" where
  "view_entry e =
     \<lparr>pv_addr = entry_addr e, pv_write = bit e 1, pv_exec = (\<not> bit e 63), pv_user = bit e 2,
      pv_write_through = bit e 3, pv_cache_disabled = bit e 4\<rparr>"

definition view_options :: "PhysAddr \<Rightarrow> PageMappingOptions \<Rightarrow> page_view" where
  "view_options addr options =
     \<lparr>pv_addr = addr, pv_write = po_write options, pv_exec = po_exec options, pv_user = po_user options,
      pv_write_through = (po_cacheing options \<in> {WriteThrough, Uncached}),
      pv_cache_disabled = (po_cacheing options \<in> {WriteConbining, Uncached})\<rparr>"

lemma cache_bits:
  "\<exists>c. cache_flags m = Ok c \<and> (\<forall>k. bit c k \<longleftrightarrow> k = 3 \<and> m \<in> {WriteThrough, Uncached} \<or> k = 4 \<and> m \<in> {WriteConbining, Uncached})"
  by (cases m) (simp_all add: cache_flags_def bit_or_iff flag_bits)

lemma options_bits:
  "\<exists>fl. options_flags options = Ok fl \<and>
    (\<forall>k. bit fl k \<longleftrightarrow> k = 0 \<and> po_exists options \<or> k = 1 \<and> po_write options \<or> k = 2 \<and> po_user options \<or>
       k = 3 \<and> po_cacheing options \<in> {WriteThrough, Uncached} \<or> k = 4 \<and> po_cacheing options \<in> {WriteConbining, Uncached} \<or>
       k = 63 \<and> \<not> po_exec options)"
proof -
  obtain c where c: "cache_flags (po_cacheing options) = Ok c"
    "\<And>k. bit c k \<longleftrightarrow> k = 3 \<and> po_cacheing options \<in> {WriteThrough, Uncached} \<or> k = 4 \<and> po_cacheing options \<in> {WriteConbining, Uncached}"
    using cache_bits by blast
  show ?thesis
    unfolding options_flags_def c(1) rbind.simps
    by (rule exI, rule conjI, rule refl) (unfold bit_or_iff bit_if flag_bits c(2), blast)
qed

lemma view_leaf:
  assumes fl: "options_flags options = Ok fl" and pa: "phys_ok pa" "4096 dvd pa"
  shows "view_entry (entry_core (PageTablePointer_new pa (PT_PRESENT OR fl))) = view_options pa options"
    and "entry_present (PageTablePointer_new pa (PT_PRESENT OR fl))"
proof -
  let ?f = "PT_PRESENT OR fl"
  have "\<forall>k. bit fl k \<longleftrightarrow> k = 0 \<and> po_exists options \<or> k = 1 \<and> po_write options \<or> k = 2 \<and> po_user options \<or>
      k = 3 \<and> po_cacheing options \<in> {WriteThrough, Uncached} \<or> k = 4 \<and> po_cacheing options \<in> {WriteConbining, Uncached} \<or>
      k = 63 \<and> \<not> po_exec options"
    using options_bits [of options] unfolding fl kresult.inject by blast
  then have f: "bit ?f k \<longleftrightarrow> k = 0 \<or> k = 1 \<and> po_write options \<or> k = 2 \<and> po_user options \<or>
      k = 3 \<and> po_cacheing options \<in> {WriteThrough, Uncached} \<or> k = 4 \<and> po_cacheing options \<in> {WriteConbining, Uncached} \<or>
      k = 63 \<and> \<not> po_exec options" for k
    unfolding bit_or_iff flag_bits by blast
  note low = aligned_low [OF pa(2)]
  have high: "\<not> bit pa k" if "48 \<le> k" for k
    using bit_bound [of pa 48 k] pa(1) that by (auto simp: phys_ok_def)
  have "k < 12 \<or> 52 \<le> k" if "bit ?f k" for k using that unfolding f by (elim disjE conjE) simp_all
  moreover have "pa < 2 ^ 52" using pa(1) by (simp add: phys_ok_def)
  ultimately have "entry_addr (pa OR ?f) = pa" using pa(2) by (intro entry_addr_or)
  then show "view_entry (entry_core (PageTablePointer_new pa ?f)) = view_options pa options"
    using low high by (simp add: view_entry_def view_options_def PageTablePointer_new_def bit_entry_core bit_or_iff [of pa] f)
  show "entry_present (PageTablePointer_new pa ?f)"
    by (simp add: PageTablePointer_new_def entry_present_bit bit_or_iff [of pa] f)
qed

subsection \<open>The indices of an address\<close>

text \<open>Page-aligned canonical addresses below the last 512 GiB, which belong to the kernel.\<close>

definition user_page :: "VirtAddr \<Rightarrow> bool" where
  "user_page va \<longleftrightarrow> virt_ok va \<and> page_aligned va \<and> va < 0xffffff8000000000"

lemma indices_eq:
  "page_table_indicies va = [va div 2 ^ 39 mod 512, va div 2 ^ 30 mod 512, va div 2 ^ 21 mod 512, va div 2 ^ 12 mod 512]"
  by (simp add: page_table_indicies_def get_bits_take_drop take_bit_eq_mod drop_bit_eq_div)

lemma indices_length [simp]: "length (page_table_indicies va) = 4"
  by (simp add: page_table_indicies_def)

lemma indices_path:
  assumes "user_page va"
  shows "user_path (page_table_indicies va)"
proof -
  have "va div 2 ^ 39 mod 512 \<noteq> 511"
  proof (cases "va < 2 ^ 47")
    case True
    then have "va div 2 ^ 39 < 256" by (simp add: less_mult_imp_div_less)
    then show ?thesis by simp
  next
    case False
    with assms have "0xffff800000000000 \<le> va" and u: "va < 33554431 * 2 ^ 39"
      by (auto simp: user_page_def virt_ok_def HIGHER_HALF_START_def)
    then have "0xffff800000000000 div 2 ^ 39 \<le> va div 2 ^ 39" by (intro div_le_mono)
    moreover have "va div 2 ^ 39 < 33554431" using u by (rule less_mult_imp_div_less)
    moreover have "k mod 512 \<noteq> 511" if k: "33554176 \<le> k" "k < 33554431" for k :: nat
    proof -
      obtain j where j: "k = (256 + j) + 65535 * 512" "j < 255"
        using k by (intro that [of "k - 33554176"]) simp_all
      have "k mod 512 = 256 + j" using j(2) unfolding j(1) mod_mult_self1 by simp
      then show ?thesis using j(2) by simp
    qed
    ultimately show ?thesis by simp
  qed
  then show ?thesis by (simp add: user_path_def indices_eq)
qed

lemma index_digits:
  fixes va :: nat
  assumes "4096 dvd va"
  shows "va mod 2 ^ 48 = 2 ^ 39 * (va div 2 ^ 39 mod 512) + (2 ^ 30 * (va div 2 ^ 30 mod 512) +
      (2 ^ 21 * (va div 2 ^ 21 mod 512) + 2 ^ 12 * (va div 2 ^ 12 mod 512)))"
proof -
  have "va mod 2 ^ 48 = 2 ^ 39 * (va div 2 ^ 39 mod 512) + va mod 2 ^ 39"
    using mod_mult2_eq [of va "2 ^ 39" 512] by simp
  moreover have "va mod 2 ^ 39 = 2 ^ 30 * (va div 2 ^ 30 mod 512) + va mod 2 ^ 30"
    using mod_mult2_eq [of va "2 ^ 30" 512] by simp
  moreover have "va mod 2 ^ 30 = 2 ^ 21 * (va div 2 ^ 21 mod 512) + va mod 2 ^ 21"
    using mod_mult2_eq [of va "2 ^ 21" 512] by simp
  moreover have "va mod 2 ^ 21 = 2 ^ 12 * (va div 2 ^ 12 mod 512) + 0"
    using mod_mult2_eq [of va "2 ^ 12" 512] assms by simp
  ultimately show ?thesis by (simp only: add_0_right)
qed

lemma canonical_mod:
  assumes "virt_ok a"
  shows "a = (if a mod 2 ^ 48 < 2 ^ 47 then a mod 2 ^ 48 else a mod 2 ^ 48 + 65535 * 2 ^ 48)"
proof (cases "a < 2 ^ 47")
  case True
  then have "a mod 2 ^ 48 = a" by simp
  then show ?thesis using True by (simp only: if_True)
next
  case False
  with assms have "65535 * 2 ^ 48 + 2 ^ 47 \<le> a" "a < 65535 * 2 ^ 48 + 2 ^ 48"
    by (simp_all add: virt_ok_def HIGHER_HALF_START_def)
  then obtain c where c: "a = c + 65535 * 2 ^ 48" "2 ^ 47 \<le> c" "c < 2 ^ 48"
    by (intro that [of "a - 65535 * 2 ^ 48"]) simp_all
  have "a mod 2 ^ 48 = c" using c(3) unfolding c(1) mod_mult_self1 by (rule mod_less)
  then show ?thesis using c(1,2) by (simp only: if_False not_less [symmetric])
qed

lemma indices_inj:
  assumes "user_page a" "user_page b" and eq: "page_table_indicies a = page_table_indicies b"
  shows "a = b"
proof -
  have d: "4096 dvd a" "4096 dvd b"
    using assms page_aligned_iff [of a] page_aligned_iff [of b] by (simp_all add: user_page_def PAGE_SIZE_def)
  have "a mod 2 ^ 48 = b mod 2 ^ 48"
    unfolding index_digits [OF d(1)] index_digits [OF d(2)] using eq by (simp only: indices_eq list.inject)
  moreover have "virt_ok a" "virt_ok b" using assms(1,2) by (simp_all add: user_page_def)
  ultimately show ?thesis using canonical_mod [of a] canonical_mod [of b] by (metis (no_types))
qed

subsection \<open>Address spaces\<close>

definition space_root :: "usize \<Rightarrow> 'a VirtAddrSpace \<Rightarrow> usize" where
  "space_root vma vs = entry_addr (vs_cr3 vs) + vma"

text \<open>The invariant of an address space whose allocator can make \<open>n\<close> more allocations.\<close>

definition space_ok :: "usize \<Rightarrow> (nat \<Rightarrow> 'a \<Rightarrow> bool) \<Rightarrow> ('a \<Rightarrow> usize set) \<Rightarrow> nat \<Rightarrow> 'a VirtAddrSpace \<Rightarrow> bool" where
  "space_ok vma ready live n vs \<longleftrightarrow>
     ready n (vs_alloc vs) \<and> entry_present (vs_cr3 vs) \<and>
     tables_ok vma (live (vs_alloc vs)) (vs_mem vs) (space_root vma vs) \<and> dirs_ok vma (vs_mem vs) (space_root vma vs)"

text \<open>The frames in use that are not tables of the space.\<close>

definition spare :: "usize \<Rightarrow> ('a \<Rightarrow> usize set) \<Rightarrow> 'a VirtAddrSpace \<Rightarrow> usize set" where
  "spare vma live vs = live (vs_alloc vs) - tables_of vma (vs_mem vs) (space_root vma vs)"

text \<open>The translation of a page, as the processor finds it.\<close>

definition translate :: "usize \<Rightarrow> 'a VirtAddrSpace \<Rightarrow> VirtAddr \<Rightarrow> page_view option" where
  "translate vma vs va =
     map_option view_entry (entry_at vma (vs_mem vs) (space_root vma vs) (page_table_indicies va))"

lemma root_pointer:
  assumes "space_ok vma ready live n vs"
  shows "as_mut_ptr vma (vs_cr3 vs) = Ok (Some (space_root vma vs))"
proof -
  have "tables_ok vma (live (vs_alloc vs)) (vs_mem vs) (space_root vma vs)" "entry_present (vs_cr3 vs)"
    using assms by (simp_all add: space_ok_def)
  then show ?thesis
    using tables_okD(2) [of vma _ _ _ "[]"] as_mut_ptr_frame by (simp add: space_root_def user_path_def)
qed

text \<open>The last-level table of a page.\<close>

definition has_table :: "usize \<Rightarrow> 'a VirtAddrSpace \<Rightarrow> VirtAddr \<Rightarrow> bool" where
  "has_table vma vs va \<longleftrightarrow> frame_at vma (vs_mem vs) (space_root vma vs) (butlast (page_table_indicies va)) \<noteq> None"

subsection \<open>Allocators of frames\<close>

text \<open>
  \<open>ready n\<close> says that \<open>n\<close> more allocations can be made without overflow of a counter, \<open>live\<close> are the
  frames in use, and \<open>full\<close> holds when no frame is left.
\<close>

locale frame_allocator =
  fixes vma :: usize and ready :: "nat \<Rightarrow> 'a \<Rightarrow> bool" and live :: "'a \<Rightarrow> usize set" and full :: "'a \<Rightarrow> bool"
    and alloc :: "'a frame_alloc_op" and dealloc :: "'a frame_dealloc_op"
  assumes ready_less: "ready (Suc n) a \<Longrightarrow> ready n a"
    and alloc_law: "ready (Suc n) a \<Longrightarrow>
      (\<exists>a'. alloc a frame_layout = Ok (a', None) \<and> ready n a' \<and> live a' = live a \<and> full a') \<or>
      (\<exists>a' al. alloc a frame_layout = Ok (a', Some al) \<and> ready n a' \<and> frame_ok vma (al_ptr al) \<and>
         al_ptr al \<notin> live a \<and> live a' = insert (al_ptr al) (live a))"
    and dealloc_law: "ready n a \<Longrightarrow> f \<in> live a \<Longrightarrow>
      \<exists>a'. dealloc a \<lparr>al_ptr = f, al_size = PAGE_SIZE, zindex = None\<rparr> = Ok a' \<and> ready n a' \<and> live a' = live a - {f}"
begin

lemma ready_le: "ready (n + k) a \<Longrightarrow> ready n a"
  by (induction k) (auto dest: ready_less)

lemma get_or_alloc_law:
  assumes ok: "tables_ok vma (live (vs_alloc vs)) (vs_mem vs) root" "dirs_ok vma (vs_mem vs) root"
    and g: "frame_at vma (vs_mem vs) root p = Some g"
    and p: "user_path (p @ [i])" "length p \<le> 2" and r: "ready (Suc n) (vs_alloc vs)"
  shows "(\<exists>vs'. get_or_alloc vma alloc vs g i PARENT_FLAGS = Ok (vs', None) \<and> vs_cr3 vs' = vs_cr3 vs \<and>
            vs_mem vs' = vs_mem vs \<and> live (vs_alloc vs') = live (vs_alloc vs) \<and> ready n (vs_alloc vs') \<and> full (vs_alloc vs') \<and>
            frame_at vma (vs_mem vs) root (p @ [i]) = None) \<or>
         (\<exists>vs' h. get_or_alloc vma alloc vs g i PARENT_FLAGS = Ok (vs', Some h) \<and> vs_cr3 vs' = vs_cr3 vs \<and>
            ready n (vs_alloc vs') \<and> tables_ok vma (live (vs_alloc vs')) (vs_mem vs') root \<and> dirs_ok vma (vs_mem vs') root \<and>
            live (vs_alloc vs') - tables_of vma (vs_mem vs') root = live (vs_alloc vs) - tables_of vma (vs_mem vs) root \<and>
            frame_at vma (vs_mem vs') root (p @ [i]) = Some h \<and>
            (frame_at vma (vs_mem vs) root (p @ [i]) \<noteq> None \<longrightarrow> vs' = vs) \<and>
            (\<forall>q. user_path q \<and> length q = 4 \<longrightarrow> entry_at vma (vs_mem vs') root q = entry_at vma (vs_mem vs) root q))"
proof (cases "entry_present (vs_mem vs g ! i)")
  case True
  let ?h = "entry_addr (vs_mem vs g ! i) + vma"
  have at: "frame_at vma (vs_mem vs) root (p @ [i]) = Some ?h" using True by (simp add: frame_at_snoc g)
  have "frame_ok vma ?h" using tables_okD(2) [OF ok(1) p(1) _ at] p(2) by simp
  from as_mut_ptr_frame [OF True this] have "get_or_alloc vma alloc vs g i PARENT_FLAGS = Ok (vs, Some ?h)"
    using True by (simp add: get_or_alloc_def)
  then show ?thesis using ready_less [OF r] ok at by blast
next
  case False
  then have none: "frame_at vma (vs_mem vs) root (p @ [i]) = None" by (simp add: frame_at_snoc g)
  consider (no) a where "alloc (vs_alloc vs) frame_layout = Ok (a, None)" "ready n a" "live a = live (vs_alloc vs)" "full a"
    | (yes) a al where "alloc (vs_alloc vs) frame_layout = Ok (a, Some al)" "ready n a" "frame_ok vma (al_ptr al)"
        "al_ptr al \<notin> live (vs_alloc vs)" "live a = insert (al_ptr al) (live (vs_alloc vs))"
    using alloc_law [OF r] by blast
  then show ?thesis
  proof cases
    case no
    then show ?thesis using False none by (simp add: get_or_alloc_def PageTable_new_def)
  next
    case yes
    let ?h = "al_ptr al" and ?M = "vs_mem vs"
    let ?ptr = "(?h - vma) OR 519"
    define M' where "M' = ?M(?h := replicate NUM_ENTRIES 0, g := add_entry (?M g) i ?ptr)"
    note ptr = table_pointer [OF yes(3)]
    have "as_mut_ptr vma ?ptr = Ok (Some ?h)" using as_mut_ptr_frame [OF ptr(1)] ptr(2) yes(3) by simp
    moreover have gh: "g \<noteq> ?h" using tables_okD(1) [OF ok(1) user_path_append [OF p(1)] _ g] p(2) yes(4) by auto
    ultimately have eq: "get_or_alloc vma alloc vs g i PARENT_FLAGS = Ok (vs\<lparr>vs_alloc := a, vs_mem := M'\<rparr>, Some ?h)"
      using False yes(1) frame_phys [OF yes(3)]
      by (simp add: get_or_alloc_def PageTable_new_def table_flags upd_table_def Let_def M'_def)
    note at = attach [OF ok(1) g p False yes(4,3) ptr(1,2) M'_def]
    have "dirs_ok vma M' root"
      using ok(2) at(3) ptr(3) by (auto simp: dirs_ok_def bit_entry_core split: if_splits)
    moreover have "entry_at vma M' root q = entry_at vma ?M root q" if "user_path q" "length q = 4" for q
    proof -
      have "q \<noteq> []" "length q \<le> 4" "q \<noteq> p @ [i]" using that(2) p(2) by auto
      then show ?thesis using at(3) [OF that(1)] by simp
    qed
    moreover have "live a - tables_of vma M' root = live (vs_alloc vs) - tables_of vma ?M root"
      using at(4) yes(4,5) by auto
    ultimately show ?thesis using eq at(1,2) yes(2,5) none by (intro disjI2) simp
  qed
qed

lemma map_levels_law:
  assumes "tables_ok vma (live (vs_alloc vs)) (vs_mem vs) root" "dirs_ok vma (vs_mem vs) root"
    and "frame_at vma (vs_mem vs) root p = Some g"
    and "user_path (p @ is)" "length p + length is = 4" "is \<noteq> []"
    and "ready (n + (length is - 1)) (vs_alloc vs)" and "entry_present ptr"
  shows "\<exists>vs' r. map_levels vma alloc vs g is ptr = (vs', r) \<and> vs_cr3 vs' = vs_cr3 vs \<and> ready n (vs_alloc vs') \<and>
    tables_ok vma (live (vs_alloc vs')) (vs_mem vs') root \<and> dirs_ok vma (vs_mem vs') root \<and>
    live (vs_alloc vs') - tables_of vma (vs_mem vs') root = live (vs_alloc vs) - tables_of vma (vs_mem vs) root \<and>
    (r = Ok () \<or> r = Err OutOfMem \<and> full (vs_alloc vs') \<and> frame_at vma (vs_mem vs) root (p @ butlast is) = None) \<and>
    (\<forall>q. user_path q \<and> length q = 4 \<longrightarrow> entry_at vma (vs_mem vs') root q =
       (if r = Ok () \<and> q = p @ is then Some (entry_core ptr) else entry_at vma (vs_mem vs) root q))"
  using assms
proof (induction "is" arbitrary: vs p g)
  case (Cons i "is")
  have ui: "user_path (p @ [i])" using Cons.prems(4) user_path_append [of "p @ [i]" "is"] by simp
  show ?case
  proof (cases "is")
    case Nil
    let ?M = "vs_mem vs"
    let ?t = "add_entry (?M g) i ptr"
    define M' where "M' = ?M(g := ?t)"
    have p3: "length p = 3" using Cons.prems(5) Nil by simp
    note D = tables_okD [OF Cons.prems(1) user_path_append [OF ui] _ Cons.prems(3)]
    have ad: "table_ok ?t" "entry_core (?t ! i) = entry_core ptr" "\<And>j. j \<noteq> i \<Longrightarrow> entry_core (?t ! j) = entry_core (?M g ! j)"
      using add_entry_spec [OF _ user_path_last [OF ui] Cons.prems(8)] D(3) p3 by simp_all
    note leaf = set_leaf [OF Cons.prems(1,3) ui p3 ad(1,3), folded M'_def]
    have pr: "entry_present (?t ! i)" using core_eqD(1) [OF ad(2)] Cons.prems(8) by simp
    have short: "entry_at vma M' root q = entry_at vma ?M root q" if "user_path q" "q \<noteq> []" "length q \<le> 3" for q
      using leaf(2) [of q] that p3 by auto
    have "dirs_ok vma M' root" using Cons.prems(2) short unfolding dirs_ok_def by metis
    moreover have "entry_at vma M' root q = (if q = p @ [i] then Some (entry_core ptr) else entry_at vma ?M root q)"
      if "user_path q" "length q = 4" for q
    proof -
      have "q \<noteq> []" "length q \<le> 4" using that(2) by auto
      then show ?thesis using leaf(2) [of q] that(1) pr ad(2) by simp
    qed
    ultimately show ?thesis
      using leaf(1,3) Cons.prems(7) Nil by (simp add: upd_table_def M'_def [symmetric])
  next
    case (Cons j js)
    have p2: "length p \<le> 2" using Cons.prems(5) Cons by simp
    have r: "ready (Suc (n + (length is - 1))) (vs_alloc vs)" using Cons.prems(7) Cons by simp
    have below: "frame_at vma (vs_mem vs) root (p @ i # q) = None" if "frame_at vma (vs_mem vs) root (p @ [i]) = None" for q
      using frame_at_prefix [of vma "vs_mem vs" root "p @ [i]" q] that
      by (cases "frame_at vma (vs_mem vs) root (p @ i # q)") simp_all
    consider (no) vs' where "get_or_alloc vma alloc vs g i PARENT_FLAGS = Ok (vs', None)" "vs_cr3 vs' = vs_cr3 vs"
        "vs_mem vs' = vs_mem vs" "live (vs_alloc vs') = live (vs_alloc vs)" "ready (n + (length is - 1)) (vs_alloc vs')"
        "full (vs_alloc vs')" "frame_at vma (vs_mem vs) root (p @ [i]) = None"
      | (yes) vs' h where "get_or_alloc vma alloc vs g i PARENT_FLAGS = Ok (vs', Some h)" "vs_cr3 vs' = vs_cr3 vs"
        "ready (n + (length is - 1)) (vs_alloc vs')" "tables_ok vma (live (vs_alloc vs')) (vs_mem vs') root"
        "dirs_ok vma (vs_mem vs') root"
        "live (vs_alloc vs') - tables_of vma (vs_mem vs') root = live (vs_alloc vs) - tables_of vma (vs_mem vs) root"
        "frame_at vma (vs_mem vs') root (p @ [i]) = Some h" "frame_at vma (vs_mem vs) root (p @ [i]) \<noteq> None \<longrightarrow> vs' = vs"
        "\<forall>q. user_path q \<and> length q = 4 \<longrightarrow> entry_at vma (vs_mem vs') root q = entry_at vma (vs_mem vs) root q"
      using get_or_alloc_law [OF Cons.prems(1-3) ui p2 r] by blast
    then show ?thesis
    proof cases
      case no
      have "map_levels vma alloc vs g (i # is) ptr = (vs', Err OutOfMem)" using no(1) Cons by simp
      moreover have "frame_at vma (vs_mem vs) root (p @ butlast (i # is)) = None"
        using below [OF no(7)] Cons by simp
      moreover have "ready n (vs_alloc vs')" using no(5) by (rule ready_le)
      ultimately show ?thesis using no(2-4,6) Cons.prems(1,2) by simp
    next
      case yes
      have "length (p @ [i]) + length is = 4" "is \<noteq> []" "user_path ((p @ [i]) @ is)" using Cons.prems(4,5) Cons by simp_all
      from Cons.IH [OF yes(4,5,7) this(3,1,2) yes(3) Cons.prems(8)] obtain vs'' r where
        IH: "map_levels vma alloc vs' h is ptr = (vs'', r)" "vs_cr3 vs'' = vs_cr3 vs'" "ready n (vs_alloc vs'')"
          "tables_ok vma (live (vs_alloc vs'')) (vs_mem vs'') root" "dirs_ok vma (vs_mem vs'') root"
          "live (vs_alloc vs'') - tables_of vma (vs_mem vs'') root = live (vs_alloc vs') - tables_of vma (vs_mem vs') root"
          "r = Ok () \<or> r = Err OutOfMem \<and> full (vs_alloc vs'') \<and> frame_at vma (vs_mem vs') root ((p @ [i]) @ butlast is) = None"
          "\<forall>q. user_path q \<and> length q = 4 \<longrightarrow> entry_at vma (vs_mem vs'') root q =
             (if r = Ok () \<and> q = (p @ [i]) @ is then Some (entry_core ptr) else entry_at vma (vs_mem vs') root q)"
        by blast
      have "map_levels vma alloc vs g (i # is) ptr = (vs'', r)" using yes(1) IH(1) Cons by simp
      moreover have "frame_at vma (vs_mem vs) root (p @ butlast (i # is)) = None"
        if "frame_at vma (vs_mem vs') root ((p @ [i]) @ butlast is) = None"
        using yes(8) that below Cons by (cases "frame_at vma (vs_mem vs) root (p @ [i])") simp_all
      ultimately show ?thesis using IH yes(2,6,9) by auto
    qed
  qed
qed simp

lemma map_page_law:
  assumes ok: "space_ok vma ready live (n + 3) vs" and va: "user_page va" "va < kstart"
    and pa: "phys_ok pa" "4096 dvd pa" and ex: "po_exists options"
  shows "\<exists>vs' r. map_page vma kstart alloc vs va pa options = (vs', r) \<and> space_ok vma ready live n vs' \<and>
    spare vma live vs' = spare vma live vs \<and>
    (r = Ok () \<or> r = Err OutOfMem \<and> full (vs_alloc vs') \<and> \<not> has_table vma vs va) \<and>
    (\<forall>b. user_page b \<longrightarrow> translate vma vs' b =
       (if r = Ok () \<and> b = va then Some (view_options pa options) else translate vma vs b))"
proof -
  let ?root = "space_root vma vs" and ?ix = "page_table_indicies va"
  obtain fl where fl: "options_flags options = Ok fl" using options_bits by blast
  let ?ptr = "PageTablePointer_new pa (PT_PRESENT OR fl)"
  note leaf = view_leaf [OF fl pa]
  have t: "tables_ok vma (live (vs_alloc vs)) (vs_mem vs) ?root" "dirs_ok vma (vs_mem vs) ?root"
    and rd: "ready (n + (length ?ix - 1)) (vs_alloc vs)"
    using ok by (simp_all add: space_ok_def)
  have ne: "?ix \<noteq> []" by (simp add: page_table_indicies_def)
  from map_levels_law [OF t, of "[]" ?root ?ix n ?ptr, OF _ _ _ ne rd leaf(2)] indices_path [OF va(1)]
  obtain vs' r where l: "map_levels vma alloc vs ?root ?ix ?ptr = (vs', r)" "vs_cr3 vs' = vs_cr3 vs" "ready n (vs_alloc vs')"
      "tables_ok vma (live (vs_alloc vs')) (vs_mem vs') ?root" "dirs_ok vma (vs_mem vs') ?root"
      "live (vs_alloc vs') - tables_of vma (vs_mem vs') ?root = live (vs_alloc vs) - tables_of vma (vs_mem vs) ?root"
      "r = Ok () \<or> r = Err OutOfMem \<and> full (vs_alloc vs') \<and> frame_at vma (vs_mem vs) ?root (butlast ?ix) = None"
      "\<forall>q. user_path q \<and> length q = 4 \<longrightarrow> entry_at vma (vs_mem vs') ?root q =
         (if r = Ok () \<and> q = ?ix then Some (entry_core ?ptr) else entry_at vma (vs_mem vs) ?root q)"
    by auto
  have "map_page vma kstart alloc vs va pa options = (vs', r)"
    using va ex fl root_pointer [OF ok] l(1) by (simp add: map_page_def map_page_inner_def user_page_def)
  moreover have root: "space_root vma vs' = ?root" using l(2) by (simp add: space_root_def)
  moreover have "translate vma vs' b = (if r = Ok () \<and> b = va then Some (view_options pa options) else translate vma vs b)"
    if "user_page b" for b
    using l(8) indices_path [OF that] indices_inj [OF that va(1)] leaf(1) by (auto simp: translate_def root)
  ultimately show ?thesis
    using l(2-7) ok by (auto simp: space_ok_def has_table_def spare_def)
qed

end

end
