(* ===== verification/Page_Unmap.thy ===== *)
theory Page_Unmap
  imports Page_Map
begin

text \<open>
  Unmapping pages: the first pass removes the entry of the page and, from the last level up, the
  tables that have become empty; the second gives their frames back.
\<close>

subsection \<open>Removing tables\<close>

lemma table_get_frame:
  assumes ok: "tables_ok vma L (vs_mem vs) root" and g: "frame_at vma (vs_mem vs) root p = Some g"
    and p: "user_path (p @ [i])" "length p \<le> 2"
  shows "table_get vma vs g i = Ok (frame_at vma (vs_mem vs) root (p @ [i]))"
proof (cases "entry_present (vs_mem vs g ! i)")
  case True
  then have at: "frame_at vma (vs_mem vs) root (p @ [i]) = Some (entry_addr (vs_mem vs g ! i) + vma)"
    by (simp add: frame_at_snoc g)
  have "frame_ok vma (entry_addr (vs_mem vs g ! i) + vma)" using tables_okD(2) [OF ok p(1) _ at] p(2) by simp
  then show ?thesis using as_mut_ptr_frame [OF True] at by (simp add: table_get_def)
next
  case False
  then show ?thesis by (simp add: frame_at_snoc g table_get_def as_mut_ptr_def entry_present_def)
qed

lemma empty_below:
  assumes "frame_at vma M root p = Some t" and "\<And>j. j < 512 \<Longrightarrow> \<not> entry_present (M t ! j)"
    and "prefix p q" "p \<noteq> q" "user_path q"
  shows "entry_at vma M root q = None"
proof -
  obtain j r where q: "q = p @ j # r" using assms(3,4) by (metis append_Nil2 list.exhaust prefixE)
  have j: "j < 512" using assms(5) q by (simp add: user_path_def)
  show ?thesis
  proof (cases "r = []")
    case True
    then show ?thesis using assms(1) assms(2) [OF j] by (simp add: q entry_at_snoc)
  next
    case False
    then have "butlast q = p @ j # butlast r" by (simp add: q butlast_append)
    then show ?thesis using assms(1) assms(2) [OF j] by (simp add: entry_at_def frame_at_append)
  qed
qed

lemma take_prefix_le: "a \<le> b \<Longrightarrow> prefix (take a xs) (take b xs)"
  by (metis min.absorb1 take_is_prefix take_take)

lemma count_zero:
  assumes "table_ok t" and "entry_count t = 0" and "j < 512"
  shows "\<not> entry_present (t ! j)"
  using assms finite_present [of t] by (auto simp: table_ok_def present_set_def)

text \<open>The levels that are left, in descending order.\<close>

definition levels :: "(nat \<Rightarrow> usize option) \<Rightarrow> nat list \<Rightarrow> nat \<Rightarrow> (nat \<times> usize option \<times> nat) list" where
  "levels T ix m = map (\<lambda>k. (k, T k, ix ! k)) (rev [0..<m])"

lemma levels_Suc: "levels T ix (Suc m) = (m, T m, ix ! m) # levels T ix m"
  by (simp add: levels_def)

text \<open>
  Only the path \<open>ix\<close> itself goes through the table at its first \<open>d\<close> indices; \<open>pruned\<close> says that all
  there is below this table has been cut off, and nothing else.
\<close>

definition lonely :: "usize \<Rightarrow> usize \<Rightarrow> nat list \<Rightarrow> nat \<Rightarrow> (usize \<Rightarrow> table) \<Rightarrow> bool" where
  "lonely vma root ix d M \<longleftrightarrow>
     (\<forall>q. user_path q \<and> q \<noteq> [] \<and> length q \<le> 4 \<and> prefix (take d ix) q \<and> \<not> prefix q ix \<longrightarrow> entry_at vma M root q = None)"

definition pruned :: "usize \<Rightarrow> usize \<Rightarrow> nat list \<Rightarrow> nat \<Rightarrow> (usize \<Rightarrow> table) \<Rightarrow> (usize \<Rightarrow> table) \<Rightarrow> bool" where
  "pruned vma root ix d M M' \<longleftrightarrow> 0 < d \<and> lonely vma root ix d M \<and>
     (\<forall>q. user_path q \<and> q \<noteq> [] \<and> length q \<le> 4 \<longrightarrow>
        entry_at vma M' root q = (if prefix (take d ix) q then None else entry_at vma M root q))"

lemma lonelyD:
  assumes "lonely vma root ix d M" and "user_path q" "q \<noteq> []" "length q \<le> 4" "prefix (take d ix) q"
    and "entry_at vma M root q \<noteq> None"
  shows "prefix q ix"
  using assms by (auto simp: lonely_def)

lemma prunedD:
  assumes "pruned vma root ix d M M'"
  shows "0 < d" and "lonely vma root ix d M"
    and "user_path q \<Longrightarrow> q \<noteq> [] \<Longrightarrow> length q \<le> 4 \<Longrightarrow>
      entry_at vma M' root q = (if prefix (take d ix) q then None else entry_at vma M root q)"
  using assms by (simp_all add: pruned_def)

lemma below_none:
  assumes "entry_at vma M root p = None" and "p \<noteq> []" "prefix p q"
  shows "entry_at vma M root q = None"
proof (cases "p = q")
  case False
  then have "q = butlast q @ [last q]" "prefix p (butlast q)"
    using assms(2,3) by (metis append_butlast_last_id prefix_snoc prefix_bot.extremum_uniqueI)+
  moreover from this have "frame_at vma M root (butlast q) = None"
    using assms(1,2) frame_at_prefix by (metis frame_at_entry option.map_disc_iff prefixE)
  ultimately show ?thesis by (simp add: entry_at_def)
qed (use assms(1) in simp)

lemma lonely_full: "length ix = 4 \<Longrightarrow> lonely vma root ix 4 M"
  by (auto simp: lonely_def) (metis append_eq_conv_conj le_antisym length_append prefixE prefix_length_le prefix_order.refl take_all_iff)

lemma lonely_none: "entry_at vma M root (take d ix) = None \<Longrightarrow> take d ix \<noteq> [] \<Longrightarrow> lonely vma root ix d M"
  using below_none by (auto simp: lonely_def)

lemma pruned_step:
  assumes cut: "\<And>q. user_path q \<Longrightarrow> q \<noteq> [] \<Longrightarrow> length q \<le> 4 \<Longrightarrow>
      entry_at vma M1 root q = (if prefix (take m ix) q then None else entry_at vma M root q)"
    and pr: "pruned vma root ix d M1 M'" and lo: "lonely vma root ix m M" and le: "d \<le> m"
  shows "pruned vma root ix d M M'"
proof -
  have sub: "prefix (take d ix) q" if "prefix (take m ix) q" for q
    using prefix_order.trans [OF take_prefix_le [OF le] that] .
  have "entry_at vma M root q = None"
    if "user_path q" "q \<noteq> []" "length q \<le> 4" "prefix (take d ix) q" "\<not> prefix q ix" for q
    using that pr lo cut [OF that(1-3)] unfolding pruned_def lonely_def by (metis (full_types))
  moreover have "entry_at vma M' root q = (if prefix (take d ix) q then None else entry_at vma M root q)"
    if "user_path q" "q \<noteq> []" "length q \<le> 4" for q
    using that pr cut [OF that] sub [of q] unfolding pruned_def by auto
  ultimately show ?thesis using pr unfolding pruned_def lonely_def by blast
qed

lemma remove_levels_law:
  assumes "tables_ok vma L (vs_mem vs) root" and ix: "user_path ix" "length ix = 4"
    and "0 < m" "m \<le> 4" "d = m \<or> d = 4 \<and> entry_at vma (vs_mem vs) root (take m ix) = None"
    and "\<And>k. k < m \<Longrightarrow> T k = frame_at vma (vs_mem vs) root (take k ix) \<and> T k \<noteq> None"
    and "lonely vma root ix m (vs_mem vs)"
  shows "\<exists>M' d'. remove_levels vs (levels T ix m) d = (vs\<lparr>vs_mem := M'\<rparr>, d') \<and> d' \<le> d \<and> tables_ok vma L M' root \<and>
    pruned vma root ix d' (vs_mem vs) M'"
  using assms(1,4-)
proof (induction m arbitrary: vs d)
  case (Suc m)
  let ?p = "take m ix" and ?i = "ix ! m" and ?M = "vs_mem vs"
  have m3: "m \<le> 3" using Suc.prems(3) by simp
  have ne: "ix \<noteq> []" using ix(2) by auto
  have pi: "?p @ [?i] = take (Suc m) ix" using m3 ix(2) by (simp add: take_Suc_conv_app_nth)
  obtain t where t: "T m = Some t" "frame_at vma ?M root ?p = Some t" using Suc.prems(5) [of m] by (metis lessI option.exhaust)
  have up: "user_path (?p @ [?i])" unfolding pi by (rule user_path_prefix [OF ix(1) take_is_prefix])
  have lp: "length ?p \<le> 3" using m3 by simp
  define M1 where "M1 = ?M(t := remove_entry (?M t) ?i)"
  note c = cut [OF Suc.prems(1) t(2) up lp M1_def, unfolded pi]
  have upd: "upd_table vs t (\<lambda>t. remove_entry t ?i) = vs\<lparr>vs_mem := M1\<rparr>" by (simp add: upd_table_def M1_def)
  show ?case
  proof (cases "m \<noteq> 0 \<and> entry_count (M1 t) = 0")
    case True
    have at: "frame_at vma M1 root (take k ix) = frame_at vma ?M root (take k ix)" if "k \<le> m" for k
    proof -
      have "\<not> prefix (take (Suc m) ix) (take k ix)" using that m3 ix(2) by (auto dest!: prefix_length_le)
      then show ?thesis using c(2) [OF user_path_prefix [OF ix(1) take_is_prefix]] that m3 by simp
    qed
    have at_t: "frame_at vma M1 root ?p = Some t" using at [of m] t(2) by simp
    have tk: "table_ok (M1 t)" by (rule tables_okD(3) [OF c(1) user_path_append [OF up] lp at_t])
    have lo: "lonely vma root ix m M1"
      unfolding lonely_def
    proof (intro allI impI, elim conjE)
      fix q
      assume q: "user_path q" "prefix ?p q" "\<not> prefix q ix"
      then have "?p \<noteq> q" using take_is_prefix by blast
      then show "entry_at vma M1 root q = None"
        using empty_below [OF at_t count_zero [OF tk] q(2) _ q(1)] True by simp
    qed
    have hyps: "0 < m" "m \<le> 4" "m = m \<or> m = 4 \<and> entry_at vma M1 root (take m ix) = None" using True m3 by simp_all
    have T: "T k = frame_at vma M1 root (take k ix) \<and> T k \<noteq> None" if "k < m" for k
      using Suc.prems(5) [of k] at [of k] that by (metis less_Suc_eq less_imp_le)
    let ?v = "vs\<lparr>vs_mem := M1\<rparr>"
    have v: "vs_mem ?v = M1" "\<And>M. ?v\<lparr>vs_mem := M\<rparr> = vs\<lparr>vs_mem := M\<rparr>" by simp_all
    from Suc.IH [of ?v m, unfolded v, OF c(1) hyps T lo] obtain M' d' where
      IH: "remove_levels ?v (levels T ix m) m = (vs\<lparr>vs_mem := M'\<rparr>, d')" "d' \<le> m" "tables_ok vma L M' root"
        "pruned vma root ix d' M1 M'"
      by blast
    have "remove_levels vs (levels T ix (Suc m)) d = (vs\<lparr>vs_mem := M'\<rparr>, d')"
      using True IH(1) by (simp add: levels_Suc t(1) upd)
    moreover have "pruned vma root ix d' ?M M'"
      using pruned_step [OF c(3) IH(4) Suc.prems(6)] IH(2) by simp
    moreover have "d' \<le> d" using IH(2) Suc.prems(3,4) by auto
    ultimately show ?thesis using IH(3) by blast
  next
    case False
    then have "remove_levels vs (levels T ix (Suc m)) d = (vs\<lparr>vs_mem := M1\<rparr>, d)"
      by (auto simp: levels_Suc t(1) upd)
    moreover have "pruned vma root ix d ?M M1"
      using Suc.prems(4)
    proof
      assume d: "d = 4 \<and> entry_at vma ?M root (take (Suc m) ix) = None"
      have nil: "entry_at vma ?M root q = None" if "prefix (take (Suc m) ix) q" for q
        using that d ne below_none [of vma ?M root "take (Suc m) ix" q] by auto
      then have "entry_at vma M1 root q = entry_at vma ?M root q" if "user_path q" "q \<noteq> []" "length q \<le> 4" for q
        using c(3) [OF that] by simp
      moreover have "entry_at vma ?M root ix = None" using nil take_is_prefix by blast
      then have "entry_at vma ?M root q = None" if "prefix ix q" for q
        using that ne below_none [of vma ?M root ix q] by auto
      moreover have "take d ix = ix" "0 < d" "lonely vma root ix d ?M" using d lonely_full [OF ix(2)] ix(2) by auto
      ultimately show ?thesis unfolding pruned_def by (metis (full_types))
    qed (use c(3) Suc.prems(6) in \<open>simp add: pruned_def\<close>)
    ultimately show ?thesis using c(1) by blast
  qed
qed simp

subsection \<open>The tables on the way to a page\<close>

lemma collect_law:
  assumes ok: "tables_ok vma L (vs_mem vs) root" and ix: "user_path [i0, i1, i2]"
  shows "collect_tables vma vs (Some root) [i0, i1, i2] =
    Ok (if frame_at vma (vs_mem vs) root [i0, i1] = None then None
        else Some [Some root, frame_at vma (vs_mem vs) root [i0], frame_at vma (vs_mem vs) root [i0, i1],
                   frame_at vma (vs_mem vs) root [i0, i1, i2]])"
proof -
  note get = table_get_frame [OF ok]
  have u: "user_path [i0]" "user_path [i0, i1]" using ix by (simp_all add: user_path_def)
  have g0: "table_get vma vs root i0 = Ok (frame_at vma (vs_mem vs) root [i0])"
    using get [of "[]" root i0] u by simp
  show ?thesis
  proof (cases "frame_at vma (vs_mem vs) root [i0]")
    case None
    moreover from this have "frame_at vma (vs_mem vs) root [i0, i1] = None"
      using frame_at_prefix [of vma "vs_mem vs" root "[i0]" "[i1]"] by fastforce
    ultimately show ?thesis using g0 by simp
  next
    case (Some f)
    have g1: "table_get vma vs f i1 = Ok (frame_at vma (vs_mem vs) root [i0, i1])"
      using get [OF Some, of i1] u by simp
    show ?thesis
    proof (cases "frame_at vma (vs_mem vs) root [i0, i1]")
      case None
      then show ?thesis using g0 g1 Some by simp
    next
      case (Some h)
      have "table_get vma vs h i2 = Ok (frame_at vma (vs_mem vs) root [i0, i1, i2])"
        using get [OF Some, of i2] ix by simp
      then show ?thesis using g0 g1 Some \<open>frame_at vma (vs_mem vs) root [i0] = Some f\<close> by simp
    qed
  qed
qed

lemma levels_4: "levels T ix 4 = [(3, T 3, ix ! 3), (2, T 2, ix ! 2), (1, T 1, ix ! 1), (0, T 0, ix ! 0)]"
  by (simp add: levels_def upt_rec numeral_eq_Suc)

lemma unmap_page_eq:
  assumes "va < kstart" "page_aligned va" and "page_table_indicies va = [i0, i1, i2, i3]"
    and "as_mut_ptr vma (vs_cr3 vs) = Ok (Some root)"
  shows "collect_tables vma vs (Some root) [i0, i1, i2] = Ok None \<Longrightarrow> unmap_page vma kstart dealloc vs va = Ok (vs, None)"
    and "collect_tables vma vs (Some root) [i0, i1, i2] = Ok (Some [t0, t1, t2, t3]) \<Longrightarrow>
      unmapped_addr vma vs t3 i3 = Panic \<Longrightarrow> unmap_page vma kstart dealloc vs va = Panic"
    and "collect_tables vma vs (Some root) [i0, i1, i2] = Ok (Some [t0, t1, t2, t3]) \<Longrightarrow>
      unmapped_addr vma vs t3 i3 = Ok out \<Longrightarrow>
      remove_levels vs [(3, t3, i3), (2, t2, i2), (1, t1, i1), (0, t0, i0)] 4 = (vs1, d) \<Longrightarrow>
      dealloc_tables dealloc vs1 (drop d [t0, t1, t2, t3]) = Ok vs' \<Longrightarrow> unmap_page vma kstart dealloc vs va = Ok (vs', out)"
  using assms
  by (simp_all add: unmap_page_def assert_r_def del: collect_tables.simps remove_levels.simps dealloc_tables.simps)

text \<open>The tables of a pruned tree.\<close>

lemma pruned_tables:
  assumes ok: "tables_ok vma L M root" and pr: "pruned vma root ix d M M'"
    and ix: "user_path ix" "length ix = 4" and d: "d \<le> 4"
  shows "tables_of vma M' root = tables_of vma M root - {f. \<exists>k. d \<le> k \<and> k < 4 \<and> frame_at vma M root (take k ix) = Some f}"
proof (intro equalityI subsetI)
  have d0: "take d ix \<noteq> []" using prunedD(1) [OF pr] ix(2) by auto
  have fr: "frame_at vma M' root q = (if prefix (take d ix) q then None else frame_at vma M root q)"
    if "user_path q" "length q \<le> 3" for q
  proof (cases "q = []")
    case True
    then have "\<not> prefix (take d ix) q" using d0 by (metis prefix_Nil)
    then show ?thesis using True by simp
  next
    case False
    have "length q \<le> 4" using that(2) by simp
    then show ?thesis using prunedD(3) [OF pr that(1) False] frame_at_entry [OF False] by simp
  qed
  show "f \<in> tables_of vma M root - {f. \<exists>k. d \<le> k \<and> k < 4 \<and> frame_at vma M root (take k ix) = Some f}"
    if "f \<in> tables_of vma M' root" for f
  proof -
    from that obtain q where q: "user_path q" "length q \<le> 3" "frame_at vma M' root q = Some f" by (rule tables_of_memE)
    then have np: "\<not> prefix (take d ix) q" and at: "frame_at vma M root q = Some f" by (auto simp: fr split: if_splits)
    have "\<not> (d \<le> k \<and> k < 4 \<and> frame_at vma M root (take k ix) = Some f)" for k
    proof
      assume k: "d \<le> k \<and> k < 4 \<and> frame_at vma M root (take k ix) = Some f"
      then have "length (take k ix) \<le> 3" by auto
      from tables_okD(4) [OF ok q(1,2) at user_path_prefix [OF ix(1) take_is_prefix] this] k
      have "take k ix = q" by blast
      with take_prefix_le [of d k ix] k have "prefix (take d ix) q" by metis
      with np show False by contradiction
    qed
    then show ?thesis using tables_of_memI [OF q(1,2) at] by blast
  qed
  show "f \<in> tables_of vma M' root"
    if "f \<in> tables_of vma M root - {f. \<exists>k. d \<le> k \<and> k < 4 \<and> frame_at vma M root (take k ix) = Some f}" for f
  proof -
    from that obtain q where q: "user_path q" "length q \<le> 3" "frame_at vma M root q = Some f" by (auto elim: tables_of_memE)
    have "\<not> prefix (take d ix) q"
    proof
      assume pre: "prefix (take d ix) q"
      then have q0: "q \<noteq> []" using d0 by auto
      then have "entry_at vma M root q \<noteq> None" using q(3) by (auto simp: frame_at_entry)
      moreover have "length q \<le> 4" using q(2) by simp
      ultimately have "prefix q ix" using lonelyD [OF prunedD(2) [OF pr] q(1) q0 _ pre] by simp
      then have "frame_at vma M root (take (length q) ix) = Some f" using q(3) by (metis append_eq_conv_conj prefixE)
      moreover have "d \<le> length q" using prefix_length_le [OF pre] d ix(2) by simp
      moreover have "length q < 4" using q(2) by simp
      ultimately have "f \<in> {f. \<exists>k. d \<le> k \<and> k < 4 \<and> frame_at vma M root (take k ix) = Some f}"
        by (intro CollectI exI conjI)
      then show False using that by simp
    qed
    then show ?thesis using q fr by (intro tables_of_memI [OF q(1,2)]) simp
  qed
qed

lemma tables_ok_sub:
  assumes "tables_ok vma L M root" and "tables_of vma M root \<subseteq> L'"
  shows "tables_ok vma L' M root"
proof (rule tables_okI)
  fix p f
  assume p: "user_path p" "length p \<le> 3" "frame_at vma M root p = Some f"
  then show "f \<in> L' \<and> frame_ok vma f \<and> table_ok (M f)"
    using tables_okD(2,3) [OF assms(1) p] tables_of_memI [OF p] assms(2) by auto
qed (use tables_okD(4) [OF assms(1)] in simp)

lemma pruned_dirs:
  assumes "pruned vma root ix d M M'" and "dirs_ok vma M root"
  shows "dirs_ok vma M' root"
  unfolding dirs_ok_def
proof (intro allI impI, elim conjE)
  fix p e
  assume p: "user_path p" "p \<noteq> []" "length p \<le> 3" "entry_at vma M' root p = Some e"
  then have "entry_at vma M root p = Some e" using prunedD(3) [OF assms(1) p(1,2)] by (simp split: if_splits)
  then show "\<not> bit e 7" using assms(2) p(1-3) by (auto simp: dirs_ok_def)
qed

lemma pruned_leaves:
  assumes "pruned vma root ix d M M'" and "length ix = 4" and "user_path q" "length q = 4"
  shows "entry_at vma M' root q = (if q = ix then None else entry_at vma M root q)"
proof -
  have ne: "q \<noteq> []" "length q \<le> 4" using assms(4) by auto
  note eq = prunedD(3) [OF assms(1,3) ne]
  show ?thesis
  proof (cases "q = ix")
    case True
    then show ?thesis using eq take_is_prefix [of d ix] by simp
  next
    case False
    then have "\<not> prefix q ix" using assms(2,4) by (auto simp: prefix_def)
    then show ?thesis
      using eq False lonelyD [OF prunedD(2) [OF assms(1)] assms(3) ne] by (cases "entry_at vma M root q") auto
  qed
qed

subsection \<open>The way to a page\<close>

text \<open>The tables \<open>T k\<close> after the first \<open>k\<close> indices; the first three exist, the last may not.\<close>

lemma way_some:
  assumes T: "\<And>k. T k = frame_at vma M root (take k ix)" and T2: "T 2 \<noteq> None" and k: "k < (if T 3 = None then 3 else 4)"
  shows "T k \<noteq> None"
proof (cases "k = 3")
  case True
  then show ?thesis using k by (auto split: if_splits)
next
  case False
  then have "k \<le> 2" using k by (auto split: if_splits)
  then obtain r where "take 2 ix = take k ix @ r" using take_prefix_le [of k 2 ix] by (auto elim: prefixE)
  then show ?thesis using frame_at_prefix [of vma M root "take k ix" r] T2 T by metis
qed

lemma remove_way:
  assumes ok: "tables_ok vma L (vs_mem vs) root" and ix: "user_path ix" "length ix = 4"
    and T: "\<And>k. T k = frame_at vma (vs_mem vs) root (take k ix)" and T2: "T 2 \<noteq> None"
  shows "\<exists>M' d. remove_levels vs (levels T ix 4) 4 = (vs\<lparr>vs_mem := M'\<rparr>, d) \<and> d \<le> 4 \<and> tables_ok vma L M' root \<and>
    pruned vma root ix d (vs_mem vs) M'"
proof (cases "T 3")
  case None
  have "take 3 ix \<noteq> []" using ix(2) by auto
  then have e: "entry_at vma (vs_mem vs) root (take 3 ix) = None"
    using None frame_at_entry [of "take 3 ix" vma "vs_mem vs" root] T [of 3] by simp
  have "remove_levels vs (levels T ix 4) 4 = remove_levels vs (levels T ix 3) 4"
    using levels_Suc [of T ix 3] None by simp
  then show ?thesis
    using remove_levels_law [OF ok ix, of 3 4 T] way_some [OF T T2] None T e lonely_none [OF e \<open>take 3 ix \<noteq> []\<close>] by auto
next
  case (Some f)
  then show ?thesis
    using remove_levels_law [OF ok ix, of 4 4 T] way_some [OF T T2] T lonely_full [OF ix(2)] by auto
qed

lemma way_tables:
  assumes ok: "tables_ok vma L M root" and ix: "user_path ix" "length ix = 4"
    and T: "\<And>k. T k = frame_at vma M root (take k ix)" and some: "\<And>k. k < (if T 3 = None then 3 else 4) \<Longrightarrow> T k \<noteq> None"
  shows "set (map (\<lambda>k. the (T k)) [d..<if T 3 = None then 3 else 4]) = {f. \<exists>k. d \<le> k \<and> k < 4 \<and> T k = Some f}"
    and "set (map (\<lambda>k. the (T k)) [d..<if T 3 = None then 3 else 4]) \<subseteq> tables_of vma M root"
    and "distinct (map (\<lambda>k. the (T k)) [d..<if T 3 = None then 3 else 4])"
proof -
  let ?e = "if T 3 = None then 3 else 4 :: nat"
  have up: "user_path (take k ix)" "length (take k ix) \<le> 3" if "k < 4" for k
    using user_path_prefix [OF ix(1) take_is_prefix] that by auto
  show D: "set (map (\<lambda>k. the (T k)) [d..<?e]) = {f. \<exists>k. d \<le> k \<and> k < 4 \<and> T k = Some f}"
  proof (intro equalityI subsetI)
    fix f
    assume "f \<in> set (map (\<lambda>k. the (T k)) [d..<?e])"
    then obtain k where "d \<le> k" "k < ?e" "f = the (T k)" by auto
    then show "f \<in> {f. \<exists>k. d \<le> k \<and> k < 4 \<and> T k = Some f}"
      using some [of k] by (intro CollectI exI [of _ k]) (auto split: if_splits)
  next
    fix f
    assume "f \<in> {f. \<exists>k. d \<le> k \<and> k < 4 \<and> T k = Some f}"
    then obtain k where k: "d \<le> k" "k < 4" "T k = Some f" by auto
    have "k < ?e" using k(2,3) by (cases "k = 3") auto
    then show "f \<in> set (map (\<lambda>k. the (T k)) [d..<?e])" using k(1,3) by force
  qed
  show "set (map (\<lambda>k. the (T k)) [d..<?e]) \<subseteq> tables_of vma M root"
  proof
    fix f
    assume "f \<in> set (map (\<lambda>k. the (T k)) [d..<?e])"
    then obtain k where "k < 4" "T k = Some f" unfolding D by auto
    then show "f \<in> tables_of vma M root" using tables_of_memI [OF up] T by metis
  qed
  show "distinct (map (\<lambda>k. the (T k)) [d..<?e])"
    unfolding distinct_map
  proof (intro conjI inj_onI)
    fix k l
    assume kl: "k \<in> set [d..<?e]" "l \<in> set [d..<?e]" "the (T k) = the (T l)"
    then have lt: "k < 4" "l < 4" by (auto split: if_splits)
    obtain f where "T k = Some f" "T l = Some f" using some [of k] some [of l] kl by force
    then have "take l ix = take k ix"
      using tables_okD(4) [OF ok up [OF lt(1)] _ up [OF lt(2)]] T by metis
    then show "k = l" using lt ix(2) by (metis length_take less_imp_le min.absorb2)
  qed simp
qed

lemma way_drop:
  assumes "d \<le> 4" and some: "\<And>k. k < (if T 3 = None then 3 else 4) \<Longrightarrow> T k \<noteq> None"
  shows "drop d (map T [0..<4]) =
    map Some (map (\<lambda>k. the (T k)) [d..<if T 3 = None then 3 else 4]) @ (if T 3 = None \<and> d < 4 then [None] else [])"
proof -
  have "drop d (map T [0..<4]) = map T [d..<4]" by (simp add: drop_map)
  moreover have "map T [d..<e] = map Some (map (\<lambda>k. the (T k)) [d..<e])" if "e \<le> (if T 3 = None then 3 else 4)" for e
    using some that by (auto simp: less_le_trans)
  moreover have "[d..<4] = [d..<3] @ [3]" if "d < 4" using that upt_Suc_append [of d 3] by simp
  moreover have "[d..<4] = []" "[d..<3] = []" if "\<not> d < 4" using that by simp_all
  ultimately show ?thesis by (cases "d < 4") simp_all
qed

lemma way_freed:
  assumes ok: "tables_ok vma L M root" and ix: "user_path ix" "length ix = 4" and d: "d \<le> 4"
    and T: "\<And>k. T k = frame_at vma M root (take k ix)" and T2: "T 2 \<noteq> None"
  obtains fs r where "drop d (map T [0..<4]) = map Some fs @ r" "r = [] \<or> r = [None]" "distinct fs"
    "set fs = {f. \<exists>k. d \<le> k \<and> k < 4 \<and> frame_at vma M root (take k ix) = Some f}" "set fs \<subseteq> tables_of vma M root"
proof -
  note some = way_some [OF T T2]
  note way = way_tables [of vma L M root ix T d, OF ok ix T some]
  show ?thesis
  proof (rule that)
    show "drop d (map T [0..<4]) =
      map Some (map (\<lambda>k. the (T k)) [d..<if T 3 = None then 3 else 4]) @ (if T 3 = None \<and> d < 4 then [None] else [])"
      by (rule way_drop [OF d some])
    show "set (map (\<lambda>k. the (T k)) [d..<if T 3 = None then 3 else 4]) =
      {f. \<exists>k. d \<le> k \<and> k < 4 \<and> frame_at vma M root (take k ix) = Some f}"
      using way(1) by (simp add: T)
  qed (use way(2,3) in auto)
qed

lemma tables_live:
  assumes "tables_ok vma L M root" and "f \<in> tables_of vma M root"
  shows "f \<in> L" and "virt_ok f"
  using assms(2) tables_okD(1,2) [OF assms(1)] by (auto elim!: tables_of_memE simp: frame_ok_def)

text \<open>Memory that the kernel sees through its window.\<close>

definition in_window :: "usize \<Rightarrow> page_view \<Rightarrow> bool" where
  "in_window vma v \<longleftrightarrow> phys_ok (pv_addr v) \<and> virt_ok (pv_addr v + vma)"

lemma unmapped_addr_leaf:
  assumes "frame_at vma (vs_mem vs) root p = Some f"
  shows "entry_at vma (vs_mem vs) root (p @ [i]) = Some e \<Longrightarrow> in_window vma (view_entry e) \<Longrightarrow>
      unmapped_addr vma vs (Some f) i = Ok (Some (pv_addr (view_entry e)))"
    and "entry_at vma (vs_mem vs) root (p @ [i]) = None \<Longrightarrow> 0 < vma \<Longrightarrow> unmapped_addr vma vs (Some f) i = Panic"
proof -
  assume e: "entry_at vma (vs_mem vs) root (p @ [i]) = Some e" and w: "in_window vma (view_entry e)"
  let ?e = "vs_mem vs f ! i"
  have pr: "entry_present ?e" and "e = entry_core ?e" using e assms by (auto simp: entry_at_snoc split: if_splits)
  then have ad: "entry_addr e = entry_addr ?e" by simp
  have "table_get vma vs f i = Ok (Some (entry_addr e + vma))"
    using pr w to_phys_to_virt(1) [of "entry_addr e" vma]
    by (simp add: table_get_def as_mut_ptr_def entry_present_def phys_to_virt_def ad in_window_def view_entry_def)
  then show "unmapped_addr vma vs (Some f) i = Ok (Some (pv_addr (view_entry e)))"
    using w to_phys_to_virt(2) [of "entry_addr e" vma] by (simp add: unmapped_addr_def in_window_def view_entry_def)
next
  assume e: "entry_at vma (vs_mem vs) root (p @ [i]) = None" and "0 < vma"
  have "\<not> entry_present (vs_mem vs f ! i)" using e assms by (auto simp: entry_at_snoc split: if_splits)
  then have "table_get vma vs f i = Ok None" by (simp add: table_get_def as_mut_ptr_def entry_present_def)
  moreover have "virt_ok 0" by (simp add: virt_ok_def)
  ultimately show "unmapped_addr vma vs (Some f) i = Panic" using \<open>0 < vma\<close> by (simp add: unmapped_addr_def to_phys_def)
qed

lemma no_table: "\<not> has_table vma vs va \<Longrightarrow> translate vma vs va = None"
  by (simp add: has_table_def translate_def entry_at_def)

subsection \<open>Giving the tables back\<close>

context frame_allocator
begin

lemma dealloc_tables_law:
  assumes "ready n (vs_alloc vs)" and "distinct fs" and "set fs \<subseteq> live (vs_alloc vs)" and "\<And>f. f \<in> set fs \<Longrightarrow> virt_ok f"
    and "r = [] \<or> r = [None]"
  shows "\<exists>a. dealloc_tables dealloc vs (map Some fs @ r) = Ok (vs\<lparr>vs_alloc := a\<rparr>) \<and> ready n a \<and>
    live a = live (vs_alloc vs) - set fs"
  using assms
proof (induction fs arbitrary: vs)
  case Nil
  then show ?case by (auto intro!: exI [of _ "vs_alloc vs"])
next
  case (Cons f fs)
  from dealloc_law [OF Cons.prems(1), of f] Cons.prems(3) obtain a where
    a: "dealloc (vs_alloc vs) \<lparr>al_ptr = f, al_size = PAGE_SIZE, zindex = None\<rparr> = Ok a" "ready n a"
      "live a = live (vs_alloc vs) - {f}"
    by auto
  have "set fs \<subseteq> live a" using a(3) Cons.prems(2,3) by auto
  with Cons.IH [of "vs\<lparr>vs_alloc := a\<rparr>"] Cons.prems(2,4,5) a(2) obtain b where
    b: "dealloc_tables dealloc (vs\<lparr>vs_alloc := a\<rparr>) (map Some fs @ r) = Ok (vs\<lparr>vs_alloc := b\<rparr>)" "ready n b"
      "live b = live a - set fs"
    by auto
  have "virt_ok f" using Cons.prems(4) by simp
  then have "dealloc_tables dealloc vs (map Some (f # fs) @ r) = Ok (vs\<lparr>vs_alloc := b\<rparr>)"
    using a(1) b(1) by (simp add: table_dealloc_def Allocation_new_def)
  then show ?case using b(2,3) a(3) by auto
qed

text \<open>Both passes together, for the tables \<open>T\<close> on the way.\<close>

lemma prune_law:
  assumes ok: "tables_ok vma (live (vs_alloc vs)) (vs_mem vs) root" "dirs_ok vma (vs_mem vs) root" "ready n (vs_alloc vs)"
    and ix: "user_path ix" "length ix = 4"
    and T: "\<And>k. T k = frame_at vma (vs_mem vs) root (take k ix)" and T2: "T 2 \<noteq> None"
  shows "\<exists>vs1 d vs'. remove_levels vs (levels T ix 4) 4 = (vs1, d) \<and>
    dealloc_tables dealloc vs1 (drop d (map T [0..<4])) = Ok vs' \<and> vs_cr3 vs' = vs_cr3 vs \<and>
    ready n (vs_alloc vs') \<and> tables_ok vma (live (vs_alloc vs')) (vs_mem vs') root \<and> dirs_ok vma (vs_mem vs') root \<and>
    live (vs_alloc vs') - tables_of vma (vs_mem vs') root = live (vs_alloc vs) - tables_of vma (vs_mem vs) root \<and>
    (\<forall>q. user_path q \<and> length q = 4 \<longrightarrow>
       entry_at vma (vs_mem vs') root q = (if q = ix then None else entry_at vma (vs_mem vs) root q))"
proof -
  let ?M = "vs_mem vs"
  obtain M' d where
    rm: "remove_levels vs (levels T ix 4) 4 = (vs\<lparr>vs_mem := M'\<rparr>, d)" "d \<le> 4" "tables_ok vma (live (vs_alloc vs)) M' root"
      "pruned vma root ix d ?M M'"
    using remove_way [OF ok(1) ix T T2] by blast
  obtain fs r where fs: "drop d (map T [0..<4]) = map Some fs @ r" "r = [] \<or> r = [None]" "distinct fs"
      "set fs = {f. \<exists>k. d \<le> k \<and> k < 4 \<and> frame_at vma ?M root (take k ix) = Some f}" "set fs \<subseteq> tables_of vma ?M root"
    using way_freed [OF ok(1) ix rm(2) T T2] by blast
  note tabs = pruned_tables [OF ok(1) rm(4) ix rm(2), folded fs(4)]
  have sub: "set fs \<subseteq> live (vs_alloc vs)" and v: "\<And>f. f \<in> set fs \<Longrightarrow> virt_ok f"
    using fs(5) tables_live [OF ok(1)] by auto
  from dealloc_tables_law [of n "vs\<lparr>vs_mem := M'\<rparr>" fs r] ok(3) fs(2,3) sub v
  obtain a where a: "dealloc_tables dealloc (vs\<lparr>vs_mem := M'\<rparr>) (map Some fs @ r) = Ok (vs\<lparr>vs_mem := M', vs_alloc := a\<rparr>)"
      "ready n a" "live a = live (vs_alloc vs) - set fs"
    by auto
  have "tables_of vma M' root \<subseteq> live a" using tabs a(3) tables_live(1) [OF ok(1)] by auto
  then have "tables_ok vma (live a) M' root" by (rule tables_ok_sub [OF rm(3)])
  moreover have "live a - tables_of vma M' root = live (vs_alloc vs) - tables_of vma ?M root"
    using tabs a(3) fs(5) by auto
  moreover note pruned_dirs [OF rm(4) ok(2)] pruned_leaves [OF rm(4) ix(2)]
  ultimately show ?thesis using rm(1) a(1,2) fs(1) by auto
qed

lemma unmap_core:
  assumes ok: "space_ok vma ready live n vs" and va: "user_page va" "va < kstart"
    and ix: "page_table_indicies va = [i0, i1, i2, i3]"
    and T2: "frame_at vma (vs_mem vs) (space_root vma vs) [i0, i1] \<noteq> None"
    and addr: "unmapped_addr vma vs (frame_at vma (vs_mem vs) (space_root vma vs) [i0, i1, i2]) i3 = Ok out"
  shows "\<exists>vs'. unmap_page vma kstart dealloc vs va = Ok (vs', out) \<and> space_ok vma ready live n vs' \<and>
    spare vma live vs' = spare vma live vs \<and>
    (\<forall>b. user_page b \<longrightarrow> translate vma vs' b = (if b = va then None else translate vma vs b))"
proof -
  let ?root = "space_root vma vs" and ?ix = "[i0, i1, i2, i3]" and ?M = "vs_mem vs"
  define T where "T k = frame_at vma ?M ?root (take k ?ix)" for k
  have t: "tables_ok vma (live (vs_alloc vs)) ?M ?root" "dirs_ok vma ?M ?root" "ready n (vs_alloc vs)"
    using ok by (simp_all add: space_ok_def)
  have u: "user_path ?ix" using indices_path [OF va(1)] ix by simp
  then have u3: "user_path [i0, i1, i2]" by (simp add: user_path_def)
  have Ts: "T 0 = Some ?root" "T 1 = frame_at vma ?M ?root [i0]" "T 2 = frame_at vma ?M ?root [i0, i1]"
    "T 3 = frame_at vma ?M ?root [i0, i1, i2]"
    unfolding T_def by (simp_all del: frame_at.simps(2))
  have map4: "map T [0..<4] = [T 0, T 1, T 2, T 3]" by (simp add: upt_rec numeral_eq_Suc)
  have len: "length ?ix = 4" and T2': "T 2 \<noteq> None" using T2 unfolding Ts by simp_all
  from prune_law [OF t u len T_def T2'] obtain vs1 d vs' where
    pl: "remove_levels vs (levels T ?ix 4) 4 = (vs1, d)" "dealloc_tables dealloc vs1 (drop d (map T [0..<4])) = Ok vs'"
      "vs_cr3 vs' = vs_cr3 vs" "ready n (vs_alloc vs')" "tables_ok vma (live (vs_alloc vs')) (vs_mem vs') ?root"
      "dirs_ok vma (vs_mem vs') ?root"
      "live (vs_alloc vs') - tables_of vma (vs_mem vs') ?root = live (vs_alloc vs) - tables_of vma ?M ?root"
      "\<forall>q. user_path q \<and> length q = 4 \<longrightarrow> entry_at vma (vs_mem vs') ?root q = (if q = ?ix then None else entry_at vma ?M ?root q)"
    by blast
  have al: "page_aligned va" using va(1) by (simp add: user_page_def)
  have "collect_tables vma vs (Some ?root) [i0, i1, i2] = Ok (Some [T 0, T 1, T 2, T 3])"
    unfolding Ts using collect_law [OF t(1) u3] T2 by (simp del: collect_tables.simps frame_at.simps)
  then have "unmap_page vma kstart dealloc vs va = Ok (vs', out)"
    using pl(1,2) addr unfolding levels_4 map4 Ts(4) [symmetric]
    by (intro unmap_page_eq(3) [OF va(2) al ix root_pointer [OF ok]]) simp_all
  moreover have root: "space_root vma vs' = ?root" using pl(3) by (simp add: space_root_def)
  moreover have "translate vma vs' b = (if b = va then None else translate vma vs b)" if "user_page b" for b
  proof -
    have "page_table_indicies b = ?ix \<longleftrightarrow> b = va" using indices_inj [OF that va(1)] ix by metis
    then show ?thesis using pl(8) indices_path [OF that] by (simp add: translate_def root)
  qed
  ultimately show ?thesis using pl(3-7) ok by (auto simp: space_ok_def spare_def)
qed

text \<open>
  A page that is mapped to memory in the window is unmapped; one without a last-level table is found
  not to be mapped; the case between them panics.
\<close>

lemma unmap_page_law:
  assumes ok: "space_ok vma ready live n vs" and va: "user_page va" "va < kstart"
    and win: "\<And>v. translate vma vs va = Some v \<Longrightarrow> in_window vma v" and nz: "0 < vma"
  shows "if has_table vma vs va \<and> translate vma vs va = None then unmap_page vma kstart dealloc vs va = Panic
    else \<exists>vs'. unmap_page vma kstart dealloc vs va = Ok (vs', map_option pv_addr (translate vma vs va)) \<and>
      space_ok vma ready live n vs' \<and> spare vma live vs' = spare vma live vs \<and>
      (\<forall>b. user_page b \<longrightarrow> translate vma vs' b = (if b = va then None else translate vma vs b))"
proof -
  let ?root = "space_root vma vs" and ?M = "vs_mem vs"
  obtain i0 i1 i2 i3 where ix: "page_table_indicies va = [i0, i1, i2, i3]" by (simp add: page_table_indicies_def)
  have t: "tables_ok vma (live (vs_alloc vs)) ?M ?root" using ok by (simp add: space_ok_def)
  have u3: "user_path [i0, i1, i2]" using indices_path [OF va(1)] ix by (simp add: user_path_def)
  have al: "page_aligned va" using va(1) by (simp add: user_page_def)
  have T2: "frame_at vma ?M ?root [i0, i1] \<noteq> None" if "frame_at vma ?M ?root [i0, i1, i2] \<noteq> None"
    using frame_at_prefix [of vma ?M ?root "[i0, i1]" "[i2]"] that by simp
  note core = unmap_core [OF ok va ix] and eqs = unmap_page_eq [OF va(2) al ix root_pointer [OF ok]]
  consider (missing) "frame_at vma ?M ?root [i0, i1] = None"
    | (none) "frame_at vma ?M ?root [i0, i1] \<noteq> None" "frame_at vma ?M ?root [i0, i1, i2] = None"
    | (some) f where "frame_at vma ?M ?root [i0, i1, i2] = Some f" by blast
  then show ?thesis
  proof cases
    case missing
    then have "unmap_page vma kstart dealloc vs va = Ok (vs, None)"
      using collect_law [OF t u3] by (intro eqs(1)) (simp del: collect_tables.simps)
    moreover have "\<not> has_table vma vs va" using T2 missing by (auto simp: has_table_def ix)
    moreover from this have "translate vma vs va = None" by (rule no_table)
    ultimately show ?thesis using ok by auto
  next
    case none
    then have nt: "\<not> has_table vma vs va" by (simp add: has_table_def ix)
    moreover have "translate vma vs va = None" using nt by (rule no_table)
    moreover have "unmapped_addr vma vs (frame_at vma ?M ?root [i0, i1, i2]) i3 = Ok None"
      using none(2) by (simp add: unmapped_addr_def)
    ultimately show ?thesis using core [OF none(1)] by simp
  next
    case (some f)
    have ht: "has_table vma vs va" using some by (simp add: has_table_def ix)
    show ?thesis
    proof (cases "entry_at vma ?M ?root ([i0, i1, i2] @ [i3])")
      case None
      then have "unmapped_addr vma vs (frame_at vma ?M ?root [i0, i1, i2]) i3 = Panic"
        using unmapped_addr_leaf(2) [OF some _ nz] some by simp
      then have "unmap_page vma kstart dealloc vs va = Panic"
        using collect_law [OF t u3] T2 some by (intro eqs(2)) (auto simp del: collect_tables.simps)
      then show ?thesis using ht None by (simp add: translate_def ix)
    next
      case (Some e)
      then have tr: "translate vma vs va = Some (view_entry e)" by (simp add: translate_def ix)
      then have "unmapped_addr vma vs (frame_at vma ?M ?root [i0, i1, i2]) i3 = Ok (Some (pv_addr (view_entry e)))"
        using unmapped_addr_leaf(1) [OF some Some win] some by simp
      then show ?thesis using core T2 some tr by simp
    qed
  qed
qed

end

end
