(* ===== verification/Page_Many.thy ===== *)
theory Page_Many
  imports Page_Unmap
begin

text \<open>
  Mapping many pages at once: either all of them are mapped or the address space translates as
  before.
\<close>

definition action_ok :: "usize \<Rightarrow> usize \<Rightarrow> MapAction \<Rightarrow> bool" where
  "action_ok vma kstart a \<longleftrightarrow>
     user_page (ma_virt_addr a) \<and> ma_virt_addr a < kstart \<and>
     phys_ok (ma_phys_addr a) \<and> 4096 dvd ma_phys_addr a \<and> virt_ok (ma_phys_addr a + vma)"

definition action_view :: "MapAction \<Rightarrow> page_view" where
  "action_view a = view_options (ma_phys_addr a) (ma_options a)"

text \<open>A translation in which the pages of the actions have been mapped.\<close>

definition translate_actions :: "MapAction list \<Rightarrow> (VirtAddr \<Rightarrow> page_view option) \<Rightarrow> VirtAddr \<Rightarrow> page_view option" where
  "translate_actions as t = t ++ map_of (map (\<lambda>a. (ma_virt_addr a, action_view a)) as)"

lemma action_window: "action_ok vma kstart a \<Longrightarrow> in_window vma (action_view a)"
  by (simp add: action_ok_def in_window_def action_view_def view_options_def)

context frame_allocator
begin

lemma unmap_actions_law:
  assumes "space_ok vma ready live n vs" and "0 < vma" and "\<And>a. a \<in> set as \<Longrightarrow> action_ok vma kstart a"
    and "distinct (map ma_virt_addr as)" and "\<And>a. a \<in> set as \<Longrightarrow> translate vma vs (ma_virt_addr a) = Some (action_view a)"
  shows "\<exists>vs'. unmap_actions vma kstart dealloc vs as = Ok vs' \<and> space_ok vma ready live n vs' \<and>
    spare vma live vs' = spare vma live vs \<and>
    (\<forall>b. user_page b \<longrightarrow> translate vma vs' b = (if b \<in> ma_virt_addr ` set as then None else translate vma vs b))"
  using assms
proof (induction "as" arbitrary: vs)
  case (Cons a "as")
  have ok: "action_ok vma kstart a" and tr: "translate vma vs (ma_virt_addr a) = Some (action_view a)"
    using Cons.prems(3,5) by simp_all
  have va: "user_page (ma_virt_addr a)" "ma_virt_addr a < kstart" using ok by (simp_all add: action_ok_def)
  have "in_window vma v" if "translate vma vs (ma_virt_addr a) = Some v" for v using that tr action_window [OF ok] by simp
  from unmap_page_law [OF Cons.prems(1) va this Cons.prems(2)] tr obtain vs1 where
    u: "unmap_page vma kstart dealloc vs (ma_virt_addr a) = Ok (vs1, Some (pv_addr (action_view a)))"
      "space_ok vma ready live n vs1" "spare vma live vs1 = spare vma live vs"
      "\<forall>b. user_page b \<longrightarrow> translate vma vs1 b = (if b = ma_virt_addr a then None else translate vma vs b)"
    by auto
  have "translate vma vs1 (ma_virt_addr b) = Some (action_view b)" if "b \<in> set as" for b
  proof -
    have "ma_virt_addr b \<noteq> ma_virt_addr a" using Cons.prems(4) that by (simp add: image_iff) metis
    moreover have "user_page (ma_virt_addr b)" using Cons.prems(3) that by (simp add: action_ok_def)
    ultimately show ?thesis using u(4) Cons.prems(5) that by simp
  qed
  with Cons.IH [OF u(2) Cons.prems(2)] Cons.prems(3,4) obtain vs' where
    v: "unmap_actions vma kstart dealloc vs1 as = Ok vs'" "space_ok vma ready live n vs'" "spare vma live vs' = spare vma live vs1"
      "\<forall>b. user_page b \<longrightarrow> translate vma vs' b = (if b \<in> ma_virt_addr ` set as then None else translate vma vs1 b)"
    by auto
  have "unmap_actions vma kstart dealloc vs (a # as) = Ok vs'" using u(1) v(1) by (simp add: expect_def)
  then show ?case using v(2-4) u(3,4) by simp
qed simp

lemma space_ok_le: "space_ok vma ready live (n + k) vs \<Longrightarrow> space_ok vma ready live n vs"
  by (auto simp: space_ok_def dest: ready_le)

lemma map_many_rollback:
  assumes "space_ok vma ready live n vs1" and "0 < vma"
    and "\<And>a. a \<in> set taken \<Longrightarrow> action_ok vma kstart a" and "distinct (map ma_virt_addr taken)"
    and "\<And>a. a \<in> set taken \<Longrightarrow> translate vma vs (ma_virt_addr a) = Some (action_view a)"
    and "\<And>b. user_page b \<Longrightarrow> translate vma vs1 b = translate vma vs b"
    and "map_page vma kstart alloc vs (ma_virt_addr a) (ma_phys_addr a) (ma_options a) = (vs1, Err e)"
  shows "\<exists>vs'. map_many_loop vma kstart alloc dealloc vs taken (a # rest) = (vs', Err e) \<and> space_ok vma ready live n vs' \<and>
    spare vma live vs' = spare vma live vs1 \<and>
    (\<forall>b. user_page b \<longrightarrow> translate vma vs' b = (if b \<in> ma_virt_addr ` set taken then None else translate vma vs b))"
proof -
  have "translate vma vs1 (ma_virt_addr a) = Some (action_view a)" if "a \<in> set taken" for a
    using assms(3,5,6) that by (simp add: action_ok_def)
  from unmap_actions_law [OF assms(1,2,3,4) this] obtain vs' where
    "unmap_actions vma kstart dealloc vs1 taken = Ok vs'" "space_ok vma ready live n vs'" "spare vma live vs' = spare vma live vs1"
    "\<forall>b. user_page b \<longrightarrow> translate vma vs' b = (if b \<in> ma_virt_addr ` set taken then None else translate vma vs1 b)"
    by blast
  then show ?thesis using assms(6,7) by simp
qed

lemma map_many_loop_law:
  assumes "space_ok vma ready live (n + 3 * length rest) vs" and "0 < vma"
    and "\<And>a. a \<in> set (taken @ rest) \<Longrightarrow> action_ok vma kstart a" and "distinct (map ma_virt_addr (taken @ rest))"
    and "\<And>a. a \<in> set taken \<Longrightarrow> translate vma vs (ma_virt_addr a) = Some (action_view a)"
    and "\<And>a. a \<in> set rest \<Longrightarrow> translate vma vs (ma_virt_addr a) = None"
  shows "\<exists>vs' r. map_many_loop vma kstart alloc dealloc vs taken rest = (vs', r) \<and> space_ok vma ready live n vs' \<and>
    spare vma live vs' = spare vma live vs \<and>
    (if \<forall>a \<in> set rest. po_exists (ma_options a) then r = Ok () \<or> r = Err OutOfMem else r = Err InvlArgs \<or> r = Err OutOfMem) \<and>
    (\<forall>b. user_page b \<longrightarrow> translate vma vs' b =
       (if r = Ok () then translate_actions rest (translate vma vs) b
        else if b \<in> ma_virt_addr ` set taken then None else translate vma vs b))"
  using assms
proof (induction rest arbitrary: vs taken)
  case Nil
  then show ?case by (simp add: translate_actions_def)
next
  case (Cons a rest)
  let ?mp = "map_page vma kstart alloc vs (ma_virt_addr a) (ma_phys_addr a) (ma_options a)"
  have ok: "action_ok vma kstart a" using Cons.prems(3) by simp
  have va: "user_page (ma_virt_addr a)" "ma_virt_addr a < kstart" and pa: "phys_ok (ma_phys_addr a)" "4096 dvd ma_phys_addr a"
    using ok by (simp_all add: action_ok_def)
  have sp: "space_ok vma ready live (n + 3 * length rest + 3) vs" using Cons.prems(1) by (simp add: algebra_simps)
  have tk: "\<And>b. b \<in> set taken \<Longrightarrow> action_ok vma kstart b" "distinct (map ma_virt_addr taken)"
    using Cons.prems(3,4) by simp_all
  show ?case
  proof (cases "po_exists (ma_options a)")
    case False
    then have "?mp = (vs, Err InvlArgs)" using va by (simp add: map_page_def map_page_inner_def user_page_def)
    from map_many_rollback [OF space_ok_le [OF Cons.prems(1)] Cons.prems(2) tk Cons.prems(5) _ this, of rest]
    show ?thesis using False by (auto simp del: map_many_loop.simps)
  next
    case True
    from map_page_law [OF sp va pa True] obtain vs1 r where
      m: "?mp = (vs1, r)" "space_ok vma ready live (n + 3 * length rest) vs1" "spare vma live vs1 = spare vma live vs"
        "r = Ok () \<or> r = Err OutOfMem"
        "\<forall>b. user_page b \<longrightarrow> translate vma vs1 b = (if r = Ok () \<and> b = ma_virt_addr a then Some (action_view a) else translate vma vs b)"
      unfolding action_view_def by blast
    from m(4) show ?thesis
    proof
      assume r: "r = Err OutOfMem"
      then have "\<And>b. user_page b \<Longrightarrow> translate vma vs1 b = translate vma vs b" using m(5) by simp
      from map_many_rollback [OF space_ok_le [OF m(2)] Cons.prems(2) tk Cons.prems(5) this m(1) [unfolded r], of rest] obtain vs' where
        "map_many_loop vma kstart alloc dealloc vs taken (a # rest) = (vs', Err OutOfMem)" "space_ok vma ready live n vs'"
        "spare vma live vs' = spare vma live vs1"
        "\<forall>b. user_page b \<longrightarrow> translate vma vs' b = (if b \<in> ma_virt_addr ` set taken then None else translate vma vs b)"
        by blast
      then show ?thesis using m(3) by (intro exI [of _ vs'] exI [of _ "Err OutOfMem"]) (simp del: map_many_loop.simps)
    next
      assume r: "r = Ok ()"
      have "translate vma vs1 (ma_virt_addr b) = Some (action_view b)" if "b \<in> set (taken @ [a])" for b
      proof (cases "b = a")
        case False
        then have "b \<in> set taken" "ma_virt_addr b \<noteq> ma_virt_addr a" using that Cons.prems(4) by (auto simp: image_iff)
        then show ?thesis using m(5) tk(1) Cons.prems(5) by (simp add: action_ok_def)
      qed (use m(5) r va(1) in simp)
      moreover have "translate vma vs1 (ma_virt_addr b) = None" if "b \<in> set rest" for b
      proof -
        have "ma_virt_addr b \<noteq> ma_virt_addr a" using that Cons.prems(4) by (auto simp: image_iff)
        then show ?thesis using m(5) Cons.prems(3,6) that by (simp add: action_ok_def)
      qed
      moreover have "\<And>b. b \<in> set ((taken @ [a]) @ rest) \<Longrightarrow> action_ok vma kstart b"
          "distinct (map ma_virt_addr ((taken @ [a]) @ rest))"
        using Cons.prems(3,4) by auto
      ultimately obtain vs' r' where
        IH: "map_many_loop vma kstart alloc dealloc vs1 (taken @ [a]) rest = (vs', r')" "space_ok vma ready live n vs'"
          "spare vma live vs' = spare vma live vs1"
          "if \<forall>a \<in> set rest. po_exists (ma_options a) then r' = Ok () \<or> r' = Err OutOfMem else r' = Err InvlArgs \<or> r' = Err OutOfMem"
          "\<forall>b. user_page b \<longrightarrow> translate vma vs' b =
             (if r' = Ok () then translate_actions rest (translate vma vs1) b
              else if b \<in> ma_virt_addr ` set (taken @ [a]) then None else translate vma vs1 b)"
        using Cons.IH [OF m(2) Cons.prems(2)] by blast
      have loop: "map_many_loop vma kstart alloc dealloc vs taken (a # rest) = (vs', r')" using m(1) r IH(1) by simp
      have "translate vma vs' b =
          (if r' = Ok () then translate_actions (a # rest) (translate vma vs) b
           else if b \<in> ma_virt_addr ` set taken then None else translate vma vs b)" if ub: "user_page b" for b
      proof -
        have t1: "translate vma vs1 b = (if b = ma_virt_addr a then Some (action_view a) else translate vma vs b)"
          using m(5) r ub by simp
        have na: "map_of (map (\<lambda>a. (ma_virt_addr a, action_view a)) rest) (ma_virt_addr a) = None"
          using Cons.prems(4) by (auto simp: map_of_eq_None_iff image_iff)
        have nn: "translate vma vs (ma_virt_addr a) = None" using Cons.prems(6) by simp
        show ?thesis
        proof (cases "b = ma_virt_addr a")
          case True
          then show ?thesis using IH(5) ub t1 na nn by (auto simp: translate_actions_def map_add_def)
        next
          case False
          then show ?thesis using IH(5) ub t1 by (auto simp: translate_actions_def map_add_def split: option.split)
        qed
      qed
      then show ?thesis using loop IH(2-4) m(3) True
        by (intro exI [of _ vs'] exI [of _ r']) (simp del: map_many_loop.simps)
    qed
  qed
qed

end

end
