(* ===== verification/Page_Space.thy ===== *)
theory Page_Space
  imports Page_Many
begin

text \<open>
  The life of an address space: a new one translates nothing, and dropping one gives back all of its
  tables, whatever has been mapped and unmapped in between.
\<close>

subsection \<open>The tables below a table\<close>

definition sub_tables :: "usize \<Rightarrow> (usize \<Rightarrow> table) \<Rightarrow> usize \<Rightarrow> nat list \<Rightarrow> usize set" where
  "sub_tables vma M root p =
     {f. \<exists>q. user_path q \<and> length q \<le> 3 \<and> prefix p q \<and> frame_at vma M root q = Some f}"

lemma sub_tables_memI:
  "user_path q \<Longrightarrow> length q \<le> 3 \<Longrightarrow> prefix p q \<Longrightarrow> frame_at vma M root q = Some f \<Longrightarrow> f \<in> sub_tables vma M root p"
  by (auto simp: sub_tables_def)

lemma sub_tables_memE:
  assumes "f \<in> sub_tables vma M root p"
  obtains q where "user_path q" "length q \<le> 3" "prefix p q" "frame_at vma M root q = Some f"
  using assms by (auto simp: sub_tables_def)

lemma sub_tables_root: "sub_tables vma M root [] = tables_of vma M root"
  by (simp add: sub_tables_def tables_of_def)

lemma sub_tables_none:
  assumes "frame_at vma M root p = None \<or> \<not> user_path p"
  shows "sub_tables vma M root p = {}"
proof -
  have False if q: "user_path q" "prefix p q" "frame_at vma M root q = Some f" for q f
  proof -
    obtain r where "q = p @ r" using q(2) by (rule prefixE)
    then show False using assms q(1,3) frame_at_prefix [of vma M root p r] user_path_append [of p r] by auto
  qed
  then have "f \<notin> sub_tables vma M root p" for f by (metis sub_tables_memE)
  then show ?thesis by auto
qed

lemma sub_tables_split:
  assumes g: "frame_at vma M root p = Some g" and p: "user_path p" "length p \<le> 3"
  shows "sub_tables vma M root p = insert g (\<Union>i \<in> {0..<512}. sub_tables vma M root (p @ [i]))"
proof (intro equalityI subsetI)
  fix f
  assume "f \<in> sub_tables vma M root p"
  then obtain q where q: "user_path q" "length q \<le> 3" "prefix p q" "frame_at vma M root q = Some f"
    by (rule sub_tables_memE)
  obtain r where r: "q = p @ r" using q(3) by (rule prefixE)
  show "f \<in> insert g (\<Union>i \<in> {0..<512}. sub_tables vma M root (p @ [i]))"
  proof (cases r)
    case Nil
    then show ?thesis using q(4) g r by simp
  next
    case (Cons i s)
    have "prefix (p @ [i]) q" by (simp add: r Cons)
    then have "f \<in> sub_tables vma M root (p @ [i])" using q(1,2,4) by (intro sub_tables_memI)
    moreover have "i < 512" using q(1) r Cons by (simp add: user_path_def)
    ultimately show ?thesis by auto
  qed
next
  fix f
  assume "f \<in> insert g (\<Union>i \<in> {0..<512}. sub_tables vma M root (p @ [i]))"
  then consider "f = g" | i where "f \<in> sub_tables vma M root (p @ [i])" by auto
  then show "f \<in> sub_tables vma M root p"
  proof cases
    case 1
    then show ?thesis using g p by (auto intro: sub_tables_memI)
  next
    case (2 i)
    then obtain q where q: "user_path q" "length q \<le> 3" "prefix (p @ [i]) q" "frame_at vma M root q = Some f"
      by (rule sub_tables_memE)
    from sub_tables_memI [OF q(1,2) append_prefixD [OF q(3)] q(4)] show ?thesis .
  qed
qed

lemma sub_tables_apart:
  assumes ok: "tables_ok vma L M root" and g: "frame_at vma M root p = Some g" "user_path p" "length p \<le> 3"
  shows "g \<notin> sub_tables vma M root (p @ [i])"
    and "i \<noteq> j \<Longrightarrow> sub_tables vma M root (p @ [i]) \<inter> sub_tables vma M root (p @ [j]) = {}"
proof -
  show "g \<notin> sub_tables vma M root (p @ [i])"
  proof
    assume "g \<in> sub_tables vma M root (p @ [i])"
    then obtain q where q: "user_path q" "length q \<le> 3" "prefix (p @ [i]) q" "frame_at vma M root q = Some g"
      by (rule sub_tables_memE)
    have "q = p" by (rule tables_okD(4) [OF ok g(2,3,1) q(1,2,4)])
    with q(3) show False by (simp add: not_prefix_self)
  qed
  assume "i \<noteq> j"
  show "sub_tables vma M root (p @ [i]) \<inter> sub_tables vma M root (p @ [j]) = {}"
  proof (rule ccontr)
    assume "sub_tables vma M root (p @ [i]) \<inter> sub_tables vma M root (p @ [j]) \<noteq> {}"
    then obtain f where f: "f \<in> sub_tables vma M root (p @ [i])" "f \<in> sub_tables vma M root (p @ [j])" by auto
    obtain q where q: "user_path q" "length q \<le> 3" "prefix (p @ [i]) q" "frame_at vma M root q = Some f"
      using f(1) by (rule sub_tables_memE)
    obtain r where r: "user_path r" "length r \<le> 3" "prefix (p @ [j]) r" "frame_at vma M root r = Some f"
      using f(2) by (rule sub_tables_memE)
    have "r = q" by (rule tables_okD(4) [OF ok q(1,2,4) r(1,2,4)])
    then show False using q(3) r(3) \<open>i \<noteq> j\<close> by (auto simp: prefix_def)
  qed
qed

text \<open>A root that only has the entry of the kernel.\<close>

lemma fresh_root:
  assumes k: "entry_present kernel_pointer" and M: "M root = add_entry (replicate NUM_ENTRIES 0) 511 kernel_pointer"
    and p: "user_path p" "p \<noteq> []"
  shows "frame_at vma M root p = None" and "entry_at vma M root p = None"
proof -
  obtain i r where ir: "p = i # r" using p(2) by (cases p) auto
  then have i: "i < 512" "i \<noteq> 511" using p(1) by (auto simp: user_path_def)
  have "entry_core (M root ! i) = entry_core (replicate NUM_ENTRIES 0 ! i)"
    using add_entry_spec(3) [OF empty_table(1) _ k i(2)] M by simp
  from core_eqD(1) [OF this] have np: "\<not> entry_present (M root ! i)" using empty_table(2) [OF i(1)] by simp
  then show "frame_at vma M root p = None" by (simp add: ir)
  show "entry_at vma M root p = None" using np by (cases r rule: rev_cases) (auto simp: ir entry_at_def)
qed

lemma fresh_space:
  assumes k: "entry_present kernel_pointer" and M: "M root = add_entry (replicate NUM_ENTRIES 0) 511 kernel_pointer"
    and root: "frame_ok vma root" "root \<in> L"
  shows "tables_ok vma L M root" and "dirs_ok vma M root" and "tables_of vma M root = {root}"
proof -
  note fresh = fresh_root [where M = M and root = root, OF k M]
  have only: "p = [] \<and> f = root" if "user_path p" "frame_at vma M root p = Some f" for p f
    using fresh(1) [OF that(1), where vma = vma] that(2) by (cases "p = []") auto
  have tab: "table_ok (M root)" using add_entry_spec(1) [OF empty_table(1) _ k] M by simp
  show "tables_ok vma L M root"
  proof (rule tables_okI)
    fix p f
    assume "user_path p" "length p \<le> 3" "frame_at vma M root p = Some f"
    then show "f \<in> L \<and> frame_ok vma f \<and> table_ok (M f)" using only [of p f] root tab by simp
  next
    fix p q f
    assume "user_path p" "user_path q" "frame_at vma M root p = Some f" "frame_at vma M root q = Some f"
    then show "p = q" using only [of p f] only [of q f] by simp
  qed
  show "dirs_ok vma M root"
    unfolding dirs_ok_def
  proof (intro allI impI, elim conjE)
    fix p e
    assume "user_path p" "p \<noteq> []" "entry_at vma M root p = Some e"
    then show "\<not> bit e 7" using fresh(2) [of p vma] by simp
  qed
  show "tables_of vma M root = {root}"
  proof (intro equalityI subsetI)
    fix f
    assume "f \<in> tables_of vma M root"
    then obtain p where "user_path p" "frame_at vma M root p = Some f" by (rule tables_of_memE)
    then show "f \<in> {root}" using only by simp
  next
    fix f
    assume "f \<in> {root}"
    then show "f \<in> tables_of vma M root" by (intro tables_of_memI [of "[]"]) (simp_all add: user_path_def)
  qed
qed

lemma huge_bit: "0 < e AND PT_HUGE \<longleftrightarrow> bit e 7"
proof -
  have "PT_HUGE = 2 ^ 7" by (simp add: PT_HUGE_def)
  then show ?thesis using and_exp_eq_0_iff_not_bit [of e 7] by (metis neq0_conv)
qed

subsection \<open>Dropping and creating\<close>

context frame_allocator
begin

lemma table_dealloc_law:
  assumes "ready n (vs_alloc vs)" and "f \<in> live (vs_alloc vs)" and "virt_ok f"
  shows "\<exists>a. table_dealloc dealloc vs f = Ok (vs\<lparr>vs_alloc := a\<rparr>) \<and> ready n a \<and> live a = live (vs_alloc vs) - {f}"
proof -
  obtain a where "dealloc (vs_alloc vs) \<lparr>al_ptr = f, al_size = PAGE_SIZE, zindex = None\<rparr> = Ok a" "ready n a"
      "live a = live (vs_alloc vs) - {f}"
    using dealloc_law [OF assms(1,2)] by blast
  then show ?thesis using assms(3) by (intro exI [of _ a]) (simp add: table_dealloc_def Allocation_new_def)
qed

lemma for_each_law:
  assumes step: "\<And>i a. i \<in> set xs \<Longrightarrow> ready n a \<Longrightarrow> S i \<subseteq> live a \<Longrightarrow>
      \<exists>a'. f i (vs\<lparr>vs_alloc := a\<rparr>) = Ok (vs\<lparr>vs_alloc := a'\<rparr>) \<and> ready n a' \<and> live a' = live a - S i"
    and "distinct xs" and dj: "\<And>i j. i \<in> set xs \<Longrightarrow> j \<in> set xs \<Longrightarrow> i \<noteq> j \<Longrightarrow> S i \<inter> S j = {}"
    and "ready n a" and "(\<Union>i \<in> set xs. S i) \<subseteq> live a"
  shows "\<exists>a'. for_each f xs (vs\<lparr>vs_alloc := a\<rparr>) = Ok (vs\<lparr>vs_alloc := a'\<rparr>) \<and> ready n a' \<and>
    live a' = live a - (\<Union>i \<in> set xs. S i)"
  using assms
proof (induction xs arbitrary: a)
  case (Cons x xs)
  obtain b where b: "f x (vs\<lparr>vs_alloc := a\<rparr>) = Ok (vs\<lparr>vs_alloc := b\<rparr>)" "ready n b" "live b = live a - S x"
    using Cons.prems(1) [of x a] Cons.prems(4,5) by auto
  have "(\<Union>i \<in> set xs. S i) \<subseteq> live b"
  proof (rule UN_least)
    fix i
    assume i: "i \<in> set xs"
    then have "i \<noteq> x" using Cons.prems(2) by auto
    then have "S i \<inter> S x = {}" using i by (intro Cons.prems(3)) auto
    moreover have "S i \<subseteq> live a" using Cons.prems(5) i by auto
    ultimately show "S i \<subseteq> live b" using b(3) by auto
  qed
  then obtain c where "for_each f xs (vs\<lparr>vs_alloc := b\<rparr>) = Ok (vs\<lparr>vs_alloc := c\<rparr>)" "ready n c"
      "live c = live b - (\<Union>i \<in> set xs. S i)"
    using Cons.IH [of b] Cons.prems(1,2,3) b(2) by auto
  then show ?case using b(1,3) by auto
qed auto

lemma dealloc_recurse_law:
  assumes "tables_ok vma L M root" "dirs_ok vma M root" and "vs_mem vs = M"
    and "frame_at vma M root p = Some g" "user_path p" "length p + level = 3"
    and "ready n (vs_alloc vs)" and "sub_tables vma M root p \<subseteq> live (vs_alloc vs)"
  shows "\<exists>a. dealloc_recurse vma dealloc level g vs = Ok (vs\<lparr>vs_alloc := a\<rparr>) \<and> ready n a \<and>
    live a = live (vs_alloc vs) - sub_tables vma M root p"
  using assms(3-)
proof (induction level arbitrary: p g vs)
  case 0
  have v: "virt_ok g" using tables_okD(2) [OF assms(1) 0(3) _ 0(2)] 0(4) by (simp add: frame_ok_def)
  have "sub_tables vma M root (p @ [i]) = {}" for i
  proof -
    have "f \<notin> sub_tables vma M root (p @ [i])" for f
    proof
      assume "f \<in> sub_tables vma M root (p @ [i])"
      then obtain q where "length q \<le> 3" "prefix (p @ [i]) q" by (rule sub_tables_memE)
      then show False using 0(4) prefix_length_le [of "p @ [i]" q] by simp
    qed
    then show ?thesis by auto
  qed
  then have sub: "sub_tables vma M root p = {g}" using sub_tables_split [OF 0(2,3)] 0(4) by simp
  then show ?case using table_dealloc_law [OF 0(5) _ v] 0(6) by simp
next
  case (Suc level)
  let ?S = "\<lambda>i. sub_tables vma M root (p @ [i])" and ?f = "dealloc_entry vma (Suc level) (dealloc_recurse vma dealloc level) g"
  have p2: "length p \<le> 2" "length p \<le> 3" using Suc.prems(4) by simp_all
  have v: "virt_ok g" using tables_okD(2) [OF assms(1) Suc.prems(3) p2(2) Suc.prems(2)] by (simp add: frame_ok_def)
  note split = sub_tables_split [OF Suc.prems(2,3) p2(2)]
  note apart = sub_tables_apart [OF assms(1) Suc.prems(2,3) p2(2)]
  have step: "\<exists>a'. ?f i (vs\<lparr>vs_alloc := a\<rparr>) = Ok (vs\<lparr>vs_alloc := a'\<rparr>) \<and> ready n a' \<and> live a' = live a - ?S i"
    if i: "i \<in> set [0..<NUM_ENTRIES]" and a: "ready n a" "?S i \<subseteq> live a" for i a
  proof (cases "user_path (p @ [i]) \<and> entry_present (M g ! i)")
    case True
    let ?h = "entry_addr (M g ! i) + vma"
    have at: "frame_at vma M root (p @ [i]) = Some ?h" using True by (simp add: frame_at_snoc Suc.prems(2))
    have "entry_at vma M root (p @ [i]) = Some (entry_core (M g ! i))" using True by (simp add: entry_at_snoc Suc.prems(2))
    from dirs_okD [OF assms(2) _ _ _ this] have "\<not> bit (M g ! i) 7" using True p2(1) by (simp add: bit_entry_core)
    moreover have "\<not> (Suc level = 3 \<and> i = NUM_ENTRIES - 1)"
      using True Suc.prems(4) by (auto simp: user_path_def NUM_ENTRIES_def PAGE_SIZE_def)
    moreover have "as_mut_ptr vma (M g ! i) = Ok (Some ?h)"
      using True tables_okD(2) [OF assms(1) _ _ at] p2(1) by (intro as_mut_ptr_frame) auto
    ultimately have "?f i (vs\<lparr>vs_alloc := a\<rparr>) = dealloc_recurse vma dealloc level ?h (vs\<lparr>vs_alloc := a\<rparr>)"
      using Suc.prems(1) by (auto simp: dealloc_entry_def huge_bit Let_def)
    moreover have "\<exists>b. dealloc_recurse vma dealloc level ?h (vs\<lparr>vs_alloc := a\<rparr>) = Ok (vs\<lparr>vs_alloc := a, vs_alloc := b\<rparr>) \<and>
        ready n b \<and> live b = live (vs_alloc (vs\<lparr>vs_alloc := a\<rparr>)) - ?S i"
      using True Suc.prems(1,4) at a by (intro Suc.IH) simp_all
    ultimately show ?thesis by simp
  next
    case False
    then have S: "?S i = {}"
      by (intro sub_tables_none) (auto simp: frame_at_snoc Suc.prems(2))
    have "?f i (vs\<lparr>vs_alloc := a\<rparr>) = Ok (vs\<lparr>vs_alloc := a\<rparr>)"
    proof (cases "user_path (p @ [i])")
      case True
      then have "as_mut_ptr vma (M g ! i) = Ok None" using False by (simp add: as_mut_ptr_def entry_present_def)
      then show ?thesis using Suc.prems(1) by (simp add: dealloc_entry_def Let_def)
    next
      case False
      then have "p = []" "i = NUM_ENTRIES - 1"
        using i Suc.prems(3) by (cases p; auto simp: user_path_def NUM_ENTRIES_def PAGE_SIZE_def)+
      then show ?thesis using Suc.prems(4) by (simp add: dealloc_entry_def Let_def)
    qed
    then show ?thesis using a S by auto
  qed
  have idx: "set [0..<NUM_ENTRIES] = {0..<512}" by (simp add: NUM_ENTRIES_def PAGE_SIZE_def)
  have sub: "(\<Union>i \<in> set [0..<NUM_ENTRIES]. ?S i) \<subseteq> live (vs_alloc vs)" using Suc.prems(6) split unfolding idx by auto
  from for_each_law [OF step distinct_upt apart(2) Suc.prems(5) sub]
  obtain a where a: "for_each ?f [0..<NUM_ENTRIES] vs = Ok (vs\<lparr>vs_alloc := a\<rparr>)" "ready n a"
      "live a = live (vs_alloc vs) - (\<Union>i \<in> {0..<512}. ?S i)"
    unfolding idx by auto
  have "g \<in> live a" using a(3) Suc.prems(6) split apart(1) by auto
  from table_dealloc_law [of n "vs\<lparr>vs_alloc := a\<rparr>" g] a(2) this v obtain b where
    "table_dealloc dealloc (vs\<lparr>vs_alloc := a\<rparr>) g = Ok (vs\<lparr>vs_alloc := b\<rparr>)" "ready n b" "live b = live a - {g}"
    by auto
  then show ?case using a(1,3) split by auto
qed

lemma dealloc_addr_space_law:
  assumes ok: "space_ok vma ready live n vs"
  shows "\<exists>a. dealloc_addr_space vma dealloc vs = Ok (vs\<lparr>vs_alloc := a\<rparr>) \<and> ready n a \<and> live a = spare vma live vs"
proof -
  have t: "tables_ok vma (live (vs_alloc vs)) (vs_mem vs) (space_root vma vs)" "dirs_ok vma (vs_mem vs) (space_root vma vs)"
    "ready n (vs_alloc vs)"
    using ok by (simp_all add: space_ok_def)
  have "tables_of vma (vs_mem vs) (space_root vma vs) \<subseteq> live (vs_alloc vs)" using tables_live(1) [OF t(1)] by auto
  then show ?thesis
    using dealloc_recurse_law [OF t(1,2) refl, of "[]" "space_root vma vs" 3 n] t(3) root_pointer [OF ok]
    by (simp add: dealloc_addr_space_def expect_def spare_def sub_tables_root user_path_def)
qed

lemma VirtAddrSpace_new_law:
  assumes rd: "ready (Suc n) a" and k: "entry_present kernel_pointer"
  shows "VirtAddrSpace_new vma alloc mem a kernel_pointer = Err OutOfMem \<and> (\<exists>a'. alloc a frame_layout = Ok (a', None)) \<or>
    (\<exists>vs. VirtAddrSpace_new vma alloc mem a kernel_pointer = Ok vs \<and> space_ok vma ready live n vs \<and>
       spare vma live vs = live a \<and> (\<forall>b. user_page b \<longrightarrow> translate vma vs b = None))"
proof -
  consider (no) a' where "alloc a frame_layout = Ok (a', None)"
    | (yes) a' al where "alloc a frame_layout = Ok (a', Some al)" "ready n a'" "frame_ok vma (al_ptr al)"
        "al_ptr al \<notin> live a" "live a' = insert (al_ptr al) (live a)"
    using alloc_law [OF rd] by blast
  then show ?thesis
  proof cases
    case no
    then show ?thesis by (simp add: VirtAddrSpace_new_def PageTable_new_def ok_or_def)
  next
    case yes
    let ?h = "al_ptr al"
    let ?ptr = "(?h - vma) OR 513" and ?t = "add_entry (replicate NUM_ENTRIES 0) 511 kernel_pointer"
    have ptr: "entry_present ?ptr" "entry_addr ?ptr + vma = ?h" using pointer_flags [OF yes(3), of 513] by (simp_all add: bit_0)
    define M where "M = mem(?h := ?t)"
    let ?vs = "\<lparr>vs_cr3 = ?ptr, vs_mem = M, vs_alloc = a'\<rparr>"
    have "as_mut_ptr vma ?ptr = Ok (Some ?h)" using as_mut_ptr_frame [OF ptr(1)] ptr(2) yes(3) by simp
    then have new: "VirtAddrSpace_new vma alloc mem a kernel_pointer = Ok ?vs"
      using yes(1) frame_phys [OF yes(3)]
      by (simp add: VirtAddrSpace_new_def PageTable_new_def ok_or_def expect_def upd_table_def Let_def
          PT_PRESENT_def PT_PAGE_TABLE_def M_def)
    have Mh: "M ?h = ?t" and root: "space_root vma ?vs = ?h" using ptr(2) by (simp_all add: space_root_def M_def)
    have "?h \<in> live a'" using yes(5) by simp
    note fresh = fresh_space [where M = M and root = ?h, OF k Mh yes(3) this]
    have "translate vma ?vs b = None" if "user_page b" for b
      using fresh_root(2) [where M = M and root = ?h, OF k Mh indices_path [OF that]] by (simp add: translate_def root page_table_indicies_def)
    then show ?thesis
      using new yes(2,4,5) ptr(1) fresh by (intro disjI2 exI [of _ ?vs]) (simp add: space_ok_def spare_def root)
  qed
qed

end

end
