(* ===== verification/Buddy_Tree.thy ===== *)
theory Buddy_Tree
  imports Bit_Utils
begin

text \<open>
  The status tree of the physical memory allocator, the first half of
  \<^verbatim>\<open>kernel/src/alloc/pmem_manager/pmem_allocator.rs\<close>: a complete binary tree in an array, one
  status byte per node.  The operations are those of one processor at a time: each
  \<^verbatim>\<open>fetch_update\<close> and \<^verbatim>\<open>compare_exchange\<close> is a read followed by a write.

  The array indices of the nodes below are always within the tree (\<open>tree_wf\<close> and the lemmas on
  ancestors); the index 0 is the root.
\<close>

subsection \<open>Status bits\<close>

type_synonym TreeStatus = "8 word"

definition OCCUPY_RIGHT :: TreeStatus where "OCCUPY_RIGHT = 1"

definition OCCUPY_LEFT :: TreeStatus where "OCCUPY_LEFT = 2"

definition COAL_RIGHT :: TreeStatus where "COAL_RIGHT = 4"

definition COAL_LEFT :: TreeStatus where "COAL_LEFT = 8"

definition OCCUPY :: TreeStatus where "OCCUPY = 16"

definition BUSY :: TreeStatus where "BUSY = OCCUPY_RIGHT OR OCCUPY_LEFT OR OCCUPY"

definition ts_contains :: "TreeStatus \<Rightarrow> TreeStatus \<Rightarrow> bool" where
  "ts_contains f g \<longleftrightarrow> f AND g = g"

datatype Child = Left | Right

primrec buddy :: "Child \<Rightarrow> Child" where
  "buddy Left = Right"
| "buddy Right = Left"

primrec coal_bit :: "Child \<Rightarrow> TreeStatus" where
  "coal_bit Left = COAL_LEFT"
| "coal_bit Right = COAL_RIGHT"

primrec occupy_bit :: "Child \<Rightarrow> TreeStatus" where
  "occupy_bit Left = OCCUPY_LEFT"
| "occupy_bit Right = OCCUPY_RIGHT"

definition get_coal :: "TreeStatus \<Rightarrow> Child \<Rightarrow> bool" where
  "get_coal f c = ts_contains f (coal_bit c)"

definition set_coal :: "TreeStatus \<Rightarrow> Child \<Rightarrow> TreeStatus" where
  "set_coal f c = f OR coal_bit c"

definition clear_coal :: "TreeStatus \<Rightarrow> Child \<Rightarrow> TreeStatus" where
  "clear_coal f c = f AND NOT (coal_bit c)"

definition get_occupy :: "TreeStatus \<Rightarrow> Child \<Rightarrow> bool" where
  "get_occupy f c = ts_contains f (occupy_bit c)"

definition set_occupy :: "TreeStatus \<Rightarrow> Child \<Rightarrow> TreeStatus" where
  "set_occupy f c = f OR occupy_bit c"

definition clear_occupy :: "TreeStatus \<Rightarrow> Child \<Rightarrow> TreeStatus" where
  "clear_occupy f c = f AND NOT (occupy_bit c)"

subsection \<open>Nodes\<close>

definition node_left :: "nat \<Rightarrow> nat" where
  "node_left i = 2 * (i + 1) - 1"

definition node_right :: "nat \<Rightarrow> nat" where
  "node_right i = 2 * (i + 1)"

definition node_parent :: "nat \<Rightarrow> nat option" where
  "node_parent i = (if i = 0 then None else Some ((i - 1) div 2))"

text \<open>Asked only of nodes that have a parent: the assertion on the root never fails.\<close>

definition child_type :: "nat \<Rightarrow> Child" where
  "child_type i = (if i mod 2 = 0 then Right else Left)"

definition node_level :: "nat \<Rightarrow> nat" where
  "node_level i = log2 (i + 1)"

definition is_free :: "TreeStatus list \<Rightarrow> nat \<Rightarrow> bool" where
  "is_free tree i \<longleftrightarrow> tree ! i AND BUSY = 0"

subsection \<open>Freeing a node\<close>

text \<open>The two passes of \<open>dealloc_node\<close> up the tree.\<close>

function coal_pass :: "TreeStatus list \<Rightarrow> nat \<Rightarrow> nat \<Rightarrow> TreeStatus list" where
  "coal_pass tree current end_node =
     (if node_level end_node < node_level current then
        (case node_parent current of
           None \<Rightarrow> tree
         | Some p \<Rightarrow>
             let flags = set_coal (tree ! p) (child_type current);
                 tree = tree[p := flags];
                 buddy_type = buddy (child_type current)
             in if get_occupy flags buddy_type \<and> \<not> get_coal flags buddy_type then tree
                else coal_pass tree p end_node)
      else tree)"
  by pat_completeness auto
termination
  by (relation "measure (\<lambda>(tree, c, e). c)") (auto simp: node_parent_def split: if_splits)

function free_pass :: "TreeStatus list \<Rightarrow> nat \<Rightarrow> nat \<Rightarrow> TreeStatus list" where
  "free_pass tree current end_node =
     (if node_level end_node < node_level current then
        (case node_parent current of
           None \<Rightarrow> tree
         | Some p \<Rightarrow>
             if get_coal (tree ! p) (child_type current) then
               let flags = clear_coal (clear_occupy (tree ! p) (child_type current)) (child_type current);
                   tree = tree[p := flags]
               in if get_occupy flags (buddy (child_type current)) then tree
                  else free_pass tree p end_node
             else tree)
      else tree)"
  by pat_completeness auto
termination
  by (relation "measure (\<lambda>(tree, c, e). c)") (auto simp: node_parent_def split: if_splits)

declare coal_pass.simps [simp del] free_pass.simps [simp del]

definition dealloc_node :: "TreeStatus list \<Rightarrow> nat \<Rightarrow> nat \<Rightarrow> TreeStatus list" where
  "dealloc_node tree start end_node =
     free_pass ((coal_pass tree start end_node)[start := 0]) start end_node"

subsection \<open>Allocating a node\<close>

text \<open>The second component is the node that caused the failure, if any.\<close>

function try_alloc_loop :: "TreeStatus list \<Rightarrow> nat \<Rightarrow> nat \<Rightarrow> TreeStatus list \<times> nat option" where
  "try_alloc_loop tree node child =
     (case node_parent child of
        None \<Rightarrow> (tree, None)
      | Some p \<Rightarrow>
          if ts_contains (tree ! p) OCCUPY then (dealloc_node tree node child, Some p)
          else try_alloc_loop
            (tree[p := set_occupy (clear_coal (tree ! p) (child_type child)) (child_type child)]) node p)"
  by pat_completeness auto
termination
  by (relation "measure (\<lambda>(tree, n, c). c)") (auto simp: node_parent_def split: if_splits)

declare try_alloc_loop.simps [simp del]

definition try_alloc :: "TreeStatus list \<Rightarrow> nat \<Rightarrow> TreeStatus list \<times> nat option" where
  "try_alloc tree node =
     (if tree ! node = 0 then try_alloc_loop (tree[node := BUSY]) node node
      else (tree, Some node))"

text \<open>A failing node is the node itself or one of its ancestors, so the search moves on.\<close>

lemma parent_Suc: "node_parent i = Some p \<Longrightarrow> Suc p = Suc i div 2"
  by (cases i) (auto simp: node_parent_def split: if_splits)

lemma try_alloc_loop_fail:
  "snd (try_alloc_loop tree node child) = Some f \<Longrightarrow> \<exists>k. Suc f = Suc child div 2 ^ k"
proof (induction tree node child rule: try_alloc_loop.induct)
  case (1 tree node child)
  show ?case
  proof (cases "node_parent child")
    case None
    with "1.prems" show ?thesis by (simp add: try_alloc_loop.simps)
  next
    case (Some p)
    note p = parent_Suc [OF Some]
    show ?thesis
    proof (cases "ts_contains (tree ! p) OCCUPY")
      case True
      with "1.prems" Some have "f = p" by (simp add: try_alloc_loop.simps [of _ _ child])
      with p show ?thesis by (intro exI [of _ 1]) simp
    next
      case False
      with "1.prems" Some "1.IH" [OF Some False] obtain k where "Suc f = Suc p div 2 ^ k"
        by (auto simp: try_alloc_loop.simps [of _ _ child])
      with p show ?thesis by (intro exI [of _ "Suc k"]) (simp add: div_mult2_eq)
    qed
  qed
qed

lemma try_alloc_fail: "snd (try_alloc tree node) = Some f \<Longrightarrow> \<exists>k. Suc f = Suc node div 2 ^ k"
  by (auto simp: try_alloc_def try_alloc_loop_fail intro: exI [of _ 0] split: if_splits)

lemma log2_div: "2 ^ k \<le> n \<Longrightarrow> log2 (n div 2 ^ k) = log2 n - k"
proof -
  assume k: "2 ^ k \<le> n"
  then have n: "0 < n" by (metis gr_zeroI not_less zero_less_numeral zero_less_power)
  have le: "k \<le> log2 n" using log2_ge_iff [OF n] k by simp
  show ?thesis
  proof (rule log2_unique)
    have "2 ^ (log2 n - k) * 2 ^ k \<le> n"
      using log2_bounds(1) [OF n] le by (simp flip: power_add)
    then show "2 ^ (log2 n - k) \<le> n div 2 ^ k" by (simp add: less_eq_div_iff_mult_less_eq)
    have "n < 2 ^ Suc (log2 n - k) * 2 ^ k"
      using log2_bounds(2) [OF n] le by (simp flip: power_add power_Suc)
    then show "n div 2 ^ k < 2 ^ Suc (log2 n - k)" by (rule less_mult_imp_div_less)
  qed
qed

lemma skip_progress:
  assumes "Suc f = Suc i div 2 ^ k"
  shows "i < 2 ^ (node_level i - node_level f) * (f + 1) - 1 + 2 ^ (node_level i - node_level f)"
    and "node_level i - node_level f = k" and "k \<le> node_level i"
proof -
  have k: "2 ^ k \<le> Suc i" using assms by (metis div_less not_less nat.distinct(1))
  then show "k \<le> node_level i" using log2_ge_iff [of "Suc i" k] by (simp add: node_level_def)
  then show l: "node_level i - node_level f = k"
    using log2_div [OF k] assms by (simp add: node_level_def)
  have "Suc i < 2 ^ k * Suc f + 2 ^ k"
    using assms dividend_less_times_div [of "2 ^ k" "Suc i"] by simp
  then show "i < 2 ^ (node_level i - node_level f) * (f + 1) - 1 + 2 ^ (node_level i - node_level f)"
    unfolding l by simp
qed

lemma try_alloc_skips:
  assumes "(tree', Some f) = try_alloc tree i"
  shows "Suc i < 2 ^ (node_level i - node_level f) + 2 ^ (node_level i - node_level f) * f +
    2 ^ (node_level i - node_level f)"
proof -
  have "snd (try_alloc tree i) = Some f" by (simp flip: assms(1))
  then obtain k where "Suc f = Suc i div 2 ^ k" using try_alloc_fail by blast
  from skip_progress(1) [OF this] show ?thesis by simp
qed

function alloc_loop :: "TreeStatus list \<Rightarrow> nat \<Rightarrow> nat \<Rightarrow> TreeStatus list \<times> nat option" where
  "alloc_loop tree i end_index =
     (if i < end_index then
        if is_free tree i then
          (case try_alloc tree i of
             (tree', Some fail_node) \<Rightarrow>
               let scale = 2 ^ (node_level i - node_level fail_node);
                   level_start_index = scale * (fail_node + 1) - 1
               in alloc_loop tree' (level_start_index + scale) end_index
           | (tree', None) \<Rightarrow> (tree', Some i))
        else alloc_loop tree (i + 1) end_index
      else (tree, None))"
  by pat_completeness auto
termination
  by (relation "measure (\<lambda>(tree, i, e). e - i)") (auto dest!: try_alloc_skips)

declare alloc_loop.simps [simp del]

subsection \<open>Resizing a node in place\<close>

lemma node_level_left: "node_level (node_left i) = Suc (node_level i)"
proof -
  have "log2 (2 * Suc i) = Suc (log2 (Suc i))"
    using log2_bounds [of "Suc i"] by (intro log2_unique) simp_all
  then show ?thesis by (simp add: node_level_def node_left_def)
qed

function shrink_loop :: "TreeStatus list \<Rightarrow> nat \<Rightarrow> nat \<Rightarrow> TreeStatus list \<times> nat" where
  "shrink_loop tree current new_level =
     (if node_level current < new_level then
        shrink_loop (tree[current := OCCUPY_LEFT]) (node_left current) new_level
      else (tree, current))"
  by pat_completeness auto
termination
  by (relation "measure (\<lambda>(tree, c, l). l - node_level c)") (auto simp: node_level_left)

declare shrink_loop.simps [simp del]

definition shrink_node :: "TreeStatus list \<Rightarrow> nat \<Rightarrow> nat \<Rightarrow> TreeStatus list \<times> nat" where
  "shrink_node tree node new_level =
     (if new_level \<le> node_level node then (tree, node)
      else case shrink_loop tree (node_left node) new_level of
        (tree, current) \<Rightarrow> (tree[current := BUSY, node := OCCUPY_LEFT], current))"

text \<open>The first loop of the growing branch: the node reached, or nothing on failure.\<close>

function grow_loop :: "TreeStatus list \<Rightarrow> nat \<Rightarrow> nat \<Rightarrow> nat \<Rightarrow> TreeStatus list \<times> nat option" where
  "grow_loop tree current old_level new_level =
     (if ts_contains (tree ! current) OCCUPY_RIGHT then
        (fst (shrink_node tree (node_left current) old_level), None)
      else
        let tree = tree[current := BUSY] in
        case node_parent current of
          None \<Rightarrow> (tree, Some current)
        | Some new_node \<Rightarrow>
            if new_level < node_level new_node then (tree, Some current)
            else grow_loop tree new_node old_level new_level)"
  by pat_completeness auto
termination
  by (relation "measure (\<lambda>(tree, c, ol, n). c)") (auto simp: node_parent_def split: if_splits)

text \<open>The second loop: the nodes below the new one that were marked are cleared.\<close>

function clear_loop :: "TreeStatus list \<Rightarrow> nat \<Rightarrow> nat \<Rightarrow> TreeStatus list" where
  "clear_loop tree current old_level =
     (let current = node_left current in
      if old_level < node_level current then tree
      else clear_loop (tree[current := 0]) current old_level)"
  by pat_completeness auto
termination
  by (relation "measure (\<lambda>(tree, c, l). Suc l - node_level c)") (auto simp: node_level_left)

declare grow_loop.simps [simp del] clear_loop.simps [simp del]

subsection \<open>The two passes without concurrency\<close>

text \<open>
  The statuses that a tree has between operations: nothing, one or both sides in use, or the
  whole node allocated.  No release is in progress.
\<close>

definition plain :: "TreeStatus \<Rightarrow> bool" where
  "plain f \<longleftrightarrow> f \<in> {0, OCCUPY_RIGHT, OCCUPY_LEFT, OCCUPY_RIGHT OR OCCUPY_LEFT, BUSY}"

lemmas status_bits = OCCUPY_RIGHT_def OCCUPY_LEFT_def COAL_RIGHT_def COAL_LEFT_def OCCUPY_def
  BUSY_def ts_contains_def

lemmas status_ops = get_coal_def set_coal_def clear_coal_def get_occupy_def set_occupy_def
  clear_occupy_def

lemma plain_cases:
  assumes "plain f"
  obtains "f = 0" | "f = 1" | "f = 2" | "f = 3" | "f = 19"
  using assms by (auto simp: plain_def status_bits)

lemma plain_coal:
  assumes "plain f"
  shows "get_coal (set_coal f c) c" and "\<not> get_coal (set_coal f c) (buddy c)"
    and "get_occupy (set_coal f c) (buddy c) = get_occupy f (buddy c)"
    and "clear_coal (clear_occupy (set_coal f c) c) c = clear_occupy f c"
    and "get_occupy (clear_occupy f c) (buddy c) = get_occupy f (buddy c)"
  by (cases rule: plain_cases [OF assms]; cases c; simp add: status_ops status_bits)+

text \<open>What both passes together amount to: clear the marks on the way up while the buddy is free.\<close>

function clear_up :: "TreeStatus list \<Rightarrow> nat \<Rightarrow> nat \<Rightarrow> TreeStatus list" where
  "clear_up tree current end_node =
     (if node_level end_node < node_level current then
        (case node_parent current of
           None \<Rightarrow> tree
         | Some p \<Rightarrow>
             let tree' = tree[p := clear_occupy (tree ! p) (child_type current)] in
             if get_occupy (tree ! p) (buddy (child_type current)) then tree'
             else clear_up tree' p end_node)
      else tree)"
  by pat_completeness auto
termination
  by (relation "measure (\<lambda>(tree, c, e). c)") (auto simp: node_parent_def split: if_splits)

declare clear_up.simps [simp del]

lemma node_level_0 [simp]: "node_level 0 = 0"
  using log2_power [of 0] by (simp add: node_level_def)

lemma parent_less: "node_parent c = Some p \<Longrightarrow> p < c"
  by (auto simp: node_parent_def split: if_splits)

lemma node_has_parent: "node_level e < node_level c \<Longrightarrow> \<exists>p. node_parent c = Some p"
  by (cases c) (auto simp: node_parent_def)

text \<open>One step of each pass.\<close>

lemma pass_steps:
  assumes "node_level e < node_level c" and "node_parent c = Some p"
  shows "coal_pass T c e =
      (let f = set_coal (T ! p) (child_type c)
       in if get_occupy f (buddy (child_type c)) \<and> \<not> get_coal f (buddy (child_type c)) then T[p := f]
          else coal_pass (T[p := f]) p e)"
    and "clear_up T c e =
      (if get_occupy (T ! p) (buddy (child_type c)) then T[p := clear_occupy (T ! p) (child_type c)]
       else clear_up (T[p := clear_occupy (T ! p) (child_type c)]) p e)"
  using assms by (simp_all add: coal_pass.simps [of T c] clear_up.simps [of T c] Let_def)

lemma pass_stops:
  assumes "\<not> node_level e < node_level c"
  shows "coal_pass T c e = T" and "free_pass T c e = T" and "clear_up T c e = T"
  using assms by (simp_all add: coal_pass.simps [of T c] free_pass.simps [of T c] clear_up.simps [of T c])

lemma coal_pass_above:
  "length (coal_pass tree c e) = length tree \<and> (\<forall>x \<ge> c. coal_pass tree c e ! x = tree ! x)"
proof (induction c arbitrary: tree rule: less_induct)
  case (less c)
  show ?case
  proof (cases "node_level e < node_level c")
    case True
    then obtain p where p: "node_parent c = Some p" using node_has_parent by blast
    from less [OF parent_less [OF p]] parent_less [OF p] show ?thesis
      by (simp add: pass_steps(1) [OF True p] Let_def)
  qed (simp add: pass_stops)
qed

lemma clear_up_above:
  "length (clear_up tree c e) = length tree \<and> (\<forall>x \<ge> c. clear_up tree c e ! x = tree ! x)"
proof (induction c arbitrary: tree rule: less_induct)
  case (less c)
  show ?case
  proof (cases "node_level e < node_level c")
    case True
    then obtain p where p: "node_parent c = Some p" using node_has_parent by blast
    from less [OF parent_less [OF p]] parent_less [OF p] show ?thesis
      by (simp add: pass_steps(2) [OF True p])
  qed (simp add: pass_stops)
qed

lemma clear_up_local:
  assumes "length U = length T" and "c < length T" and "\<forall>x < c. U ! x = T ! x" and "x < c"
  shows "clear_up U c e ! x = clear_up T c e ! x"
  using assms
proof (induction c arbitrary: U T x rule: less_induct)
  case (less c)
  show ?case
  proof (cases "node_level e < node_level c")
    case False
    with less.prems show ?thesis by (simp add: pass_stops)
  next
    case True
    then obtain p where p: "node_parent c = Some p" using node_has_parent by blast
    note pc = parent_less [OF p]
    let ?v = "clear_occupy (T ! p) (child_type c)"
    have same: "U ! p = T ! p" using less.prems(3) pc by simp
    have rec: "clear_up (U[p := ?v]) p e ! x = clear_up (T[p := ?v]) p e ! x"
    proof (cases "x < p")
      case True
      moreover have "\<forall>x < p. U[p := ?v] ! x = T[p := ?v] ! x" using less.prems(3) pc by simp
      ultimately show ?thesis
        using less.IH [OF pc, of "U[p := ?v]" "T[p := ?v]" x] less.prems(1,2) pc by simp
    next
      case False
      then have "clear_up (U[p := ?v]) p e ! x = U[p := ?v] ! x"
          "clear_up (T[p := ?v]) p e ! x = T[p := ?v] ! x"
        using clear_up_above [of "U[p := ?v]" p e] clear_up_above [of "T[p := ?v]" p e] by simp_all
      moreover have "U ! x = T ! x" using less.prems(3,4) by simp
      ultimately show ?thesis using less.prems(1,2) pc by (simp add: nth_list_update)
    qed
    have "U[p := ?v] ! x = T[p := ?v] ! x"
      using less.prems pc by (simp add: nth_list_update)
    with rec show ?thesis by (simp add: pass_steps(2) [OF True p] same)
  qed
qed

lemma passes_eq:
  assumes "c < length T" and "length U = length T" and "\<forall>x < c. U ! x = coal_pass T c e ! x"
    and "\<forall>x < c. plain (T ! x)"
  shows "length (free_pass U c e) = length U \<and>
    (\<forall>x < length U. free_pass U c e ! x = (if x < c then clear_up T c e ! x else U ! x))"
  using assms
proof (induction c arbitrary: T U rule: less_induct)
  case (less c)
  show ?case
  proof (cases "node_level e < node_level c")
    case False
    with less.prems show ?thesis by (simp add: pass_stops)
  next
    case True
    then obtain p where p: "node_parent c = Some p" using node_has_parent by blast
    note pc = parent_less [OF p]
    let ?f = "T ! p" and ?t = "child_type c"
    let ?T1 = "T[p := set_coal ?f ?t]" and ?T2 = "T[p := clear_occupy ?f ?t]"
    let ?U1 = "U[p := clear_occupy ?f ?t]"
    have pl: "plain ?f" using less.prems(4) pc by simp
    note bits = plain_coal [OF pl, of ?t]
    have coal: "coal_pass T c e = (if get_occupy ?f (buddy ?t) then ?T1 else coal_pass ?T1 p e)"
      using bits by (simp add: pass_steps(1) [OF True p] Let_def)
    have Up: "U ! p = set_coal ?f ?t"
      using less.prems(1-3) pc coal_pass_above [of ?T1 p e] unfolding coal by auto
    have free: "free_pass U c e = (if get_occupy ?f (buddy ?t) then ?U1 else free_pass ?U1 p e)"
      using True p bits by (subst free_pass.simps) (simp add: Let_def Up)
    have clr: "clear_up T c e = (if get_occupy ?f (buddy ?t) then ?T2 else clear_up ?T2 p e)"
      by (simp add: pass_steps(2) [OF True p])
    show ?thesis
    proof (cases "get_occupy ?f (buddy ?t)")
      case True
      then show ?thesis using less.prems(1-3) pc unfolding coal free clr by (auto simp: nth_list_update)
    next
      case False
      have "\<forall>x < p. ?U1 ! x = coal_pass ?T1 p e ! x"
        using less.prems(3) pc False unfolding coal by auto
      moreover have "\<forall>x < p. plain (?T1 ! x)" using less.prems(4) pc by auto
      ultimately have IH: "length (free_pass ?U1 p e) = length U"
        "\<And>x. x < length U \<Longrightarrow> free_pass ?U1 p e ! x = (if x < p then clear_up ?T1 p e ! x else ?U1 ! x)"
        using less.IH [OF pc, of ?T1 ?U1] less.prems(1,2) pc by auto
      have "free_pass ?U1 p e ! x = (if x < c then clear_up ?T2 p e ! x else U ! x)"
        if "x < length U" for x
      proof (cases "x < p")
        case True
        then show ?thesis
          using IH(2) [OF that] pc less.prems(1) clear_up_local [of ?T2 ?T1 p x e] by simp
      next
        case False': False
        have "clear_up ?T2 p e ! x = ?T2 ! x" using clear_up_above [of ?T2 p e] False' by simp
        moreover have "coal_pass ?T1 p e ! x = ?T1 ! x" using coal_pass_above [of ?T1 p e] False' by simp
        ultimately show ?thesis
          using IH(2) [OF that] False' False less.prems(1-3) pc that unfolding coal
          by (auto simp: nth_list_update)
      qed
      then show ?thesis using IH(1) False unfolding free clr by simp
    qed
  qed
qed

lemma dealloc_node_eq:
  assumes "m < length T" and "\<forall>x < m. plain (T ! x)"
  shows "dealloc_node T m e = clear_up (T[m := 0]) m e"
proof -
  let ?U = "(coal_pass T m e)[m := 0]"
  note len = coal_pass_above [of T m e]
  have "length (free_pass ?U m e) = length T \<and>
      (\<forall>x < length ?U. free_pass ?U m e ! x = (if x < m then clear_up T m e ! x else ?U ! x))"
    using passes_eq [of m T ?U e] assms len by simp
  then show ?thesis
    unfolding dealloc_node_def
    using clear_up_above [of "T[m := 0]" m e] clear_up_local [of "T[m := 0]" T m _ e] assms(1) len
    by (intro nth_equalityI) (auto simp: nth_list_update not_less)
qed

end
