(* ===== verification/Buddy_Status.thy ===== *)
theory Buddy_Status
  imports Buddy_Tree
begin

text \<open>
  What the status tree of the buddy allocator means.  Nodes are numbered from 1, the number of
  a node being its array index plus one, so that the parent of \<open>m\<close> is \<open>m div 2\<close>.  A set of
  allocated nodes, none an ancestor of another, determines the status of every node; freeing
  and allocating a node take the tree of one such set to the tree of another.
\<close>

subsection \<open>Ancestors\<close>

definition anc :: "nat \<Rightarrow> nat \<Rightarrow> bool" where
  "anc m a \<longleftrightarrow> 0 < m \<and> (\<exists>k. m = a div 2 ^ k)"

lemma anc_refl [simp]: "anc m m \<longleftrightarrow> 0 < m"
  by (auto simp: anc_def intro: exI [of _ 0])

lemma anc_le: "anc m a \<Longrightarrow> m \<le> a" "anc m a \<Longrightarrow> 0 < m"
  by (auto simp: anc_def)

lemma anc_trans: "anc x y \<Longrightarrow> anc y z \<Longrightarrow> anc x z"
  unfolding anc_def by (metis div_mult2_eq power_add)

lemma anc_antisym: "anc x y \<Longrightarrow> anc y x \<Longrightarrow> x = y"
  using anc_le by (metis le_antisym)

lemma anc_half: "2 \<le> c \<Longrightarrow> anc (c div 2) c"
  by (auto simp: anc_def intro: exI [of _ 1])

lemma anc_parent: "anc c a \<Longrightarrow> 2 \<le> c \<Longrightarrow> anc (c div 2) a"
  using anc_half anc_trans by blast

lemma anc_proper: "anc x c \<Longrightarrow> x \<noteq> c \<Longrightarrow> anc x (c div 2) \<and> 2 \<le> c"
proof -
  assume a: "anc x c" "x \<noteq> c"
  then obtain k where k: "x = c div 2 ^ k" "0 < x" by (auto simp: anc_def)
  with a(2) obtain j where "k = Suc j" by (cases k) auto
  with k have "x = c div 2 div 2 ^ j" by (simp add: div_mult2_eq)
  moreover from this k(2) have "2 \<le> c" by (cases "c div 2") auto
  ultimately show ?thesis using k(2) by (auto simp: anc_def)
qed

lemma anc_linear: "anc x a \<Longrightarrow> anc y a \<Longrightarrow> anc x y \<or> anc y x"
proof -
  assume "anc x a" "anc y a"
  then obtain k l where k: "x = a div 2 ^ k" "0 < x" and l: "y = a div 2 ^ l" "0 < y"
    by (auto simp: anc_def)
  show ?thesis
  proof (cases "k \<le> l")
    case True
    then have "y = x div 2 ^ (l - k)"
      unfolding k l by (metis div_mult2_eq le_add_diff_inverse power_add)
    with l(2) show ?thesis by (auto simp: anc_def)
  next
    case False
    then have "x = y div 2 ^ (k - l)"
      unfolding k l by (metis div_mult2_eq le_add_diff_inverse nat_le_linear power_add)
    with k(2) show ?thesis by (auto simp: anc_def)
  qed
qed

lemma anc_one: "0 < a \<Longrightarrow> anc 1 a"
  using log2_bounds [of a] by (auto simp: anc_def intro!: exI [of _ "log2 a"] div_nat_eqI [symmetric])

text \<open>Below a node are its two children and what is below them; the two sides are apart.\<close>

definition sib :: "nat \<Rightarrow> nat" where
  "sib c = (if even c then Suc c else c - 1)"

lemma sib_half: "2 \<le> c \<Longrightarrow> sib c div 2 = c div 2" "2 \<le> c \<Longrightarrow> sib c \<noteq> c" "2 \<le> c \<Longrightarrow> 2 \<le> sib c"
  by (auto simp: sib_def elim!: evenE oddE)

lemma children: "2 \<le> c \<Longrightarrow> {2 * (c div 2), Suc (2 * (c div 2))} = {c, sib c}"
  by (auto simp: sib_def elim!: evenE oddE)

lemma anc_child: "anc m a \<Longrightarrow> m \<noteq> a \<Longrightarrow> anc (2 * m) a \<or> anc (Suc (2 * m)) a"
proof -
  assume a: "anc m a" "m \<noteq> a"
  then obtain k where k: "m = a div 2 ^ k" "0 < m" by (auto simp: anc_def)
  with a(2) obtain j where j: "k = Suc j" by (cases k) auto
  define y where "y = a div 2 ^ j"
  have "m = y div 2" using k(1) j by (simp add: y_def power_Suc2 div_mult2_eq del: power_Suc)
  then have "y = 2 * m \<or> y = Suc (2 * m)" by presburger
  moreover have "anc y a" unfolding anc_def y_def using k \<open>m = y div 2\<close> y_def by (cases y) auto
  ultimately show ?thesis by auto
qed

lemma anc_sib: "anc c a \<Longrightarrow> 2 \<le> c \<Longrightarrow> \<not> anc (sib c) a"
proof
  assume c: "anc c a" "2 \<le> c" and s: "anc (sib c) a"
  have "anc c (sib c) \<or> anc (sib c) c" using anc_linear c(1) s by blast
  moreover have "\<not> anc c (sib c)"
    using anc_proper [of c "sib c"] anc_le(1) [of c "c div 2"] sib_half [OF c(2)] c(2) by auto
  moreover have "\<not> anc (sib c) c"
    using anc_proper [of "sib c" c] anc_le(1) [of "sib c" "sib c div 2"] sib_half [OF c(2)] by auto
  ultimately show False by blast
qed

subsection \<open>The status of a node\<close>

definition occ :: "nat set \<Rightarrow> nat \<Rightarrow> bool" where
  "occ A m \<longleftrightarrow> (\<exists>a \<in> A. anc m a)"

definition status :: "nat set \<Rightarrow> nat \<Rightarrow> TreeStatus" where
  "status A m =
     (if m \<in> A then BUSY
      else (if occ A (2 * m) then OCCUPY_LEFT else 0) OR (if occ A (Suc (2 * m)) then OCCUPY_RIGHT else 0))"

definition antichain :: "nat set \<Rightarrow> bool" where
  "antichain A \<longleftrightarrow> 0 \<notin> A \<and> (\<forall>a \<in> A. \<forall>b \<in> A. anc a b \<longrightarrow> a = b)"

definition side :: "nat \<Rightarrow> Child" where
  "side c = (if even c then Left else Right)"

lemma child_type_side: "child_type c = side (Suc c)"
  unfolding child_type_def side_def by (simp add: even_iff_mod_2_eq_zero [symmetric])

lemma status_plain [simp]: "plain (status A m)"
  by (simp add: status_def plain_def or.commute)

lemma status_occupied: "ts_contains (status A m) OCCUPY \<longleftrightarrow> m \<in> A"
  by (auto simp: status_def status_bits)

lemma status_side:
  assumes "c div 2 = p" and "2 \<le> c" and "p \<notin> A"
  shows "get_occupy (status A p) (side c) = occ A c"
    and "get_occupy (status A p) (buddy (side c)) = occ A (sib c)"
  using assms
  by (cases "even c"; auto simp: status_def status_ops status_bits side_def sib_def elim!: evenE oddE)+

lemma status_set:
  assumes "c div 2 = p" and "2 \<le> c" and "p \<notin> A" and "p \<notin> B"
    and "occ B c" and "occ B (sib c) = occ A (sib c)"
  shows "set_occupy (clear_coal (status A p) (side c)) (side c) = status B p"
  using assms
  by (cases "even c"; auto simp: status_def status_ops status_bits side_def sib_def elim!: evenE oddE)

lemma status_clear:
  assumes "c div 2 = p" and "2 \<le> c" and "p \<notin> A" and "p \<notin> B"
    and "\<not> occ B c" and "occ B (sib c) = occ A (sib c)"
  shows "clear_occupy (status A p) (side c) = status B p"
  using assms
  by (cases "even c"; auto simp: status_def status_ops status_bits side_def sib_def elim!: evenE oddE)

lemma status_cong:
  assumes "m \<in> A \<longleftrightarrow> m \<in> B" and "\<And>c. 2 \<le> c \<Longrightarrow> c div 2 = m \<Longrightarrow> occ A c = occ B c" and "0 < m"
  shows "status A m = status B m"
  using assms(1) assms(2) [of "2 * m"] assms(2) [of "Suc (2 * m)"] assms(3) by (simp add: status_def)

lemma occ_self: "m \<in> A \<Longrightarrow> 0 < m \<Longrightarrow> occ A m"
  unfolding occ_def by (rule bexI [of _ m]) simp_all

lemma occ_up: "occ A c \<Longrightarrow> anc p c \<Longrightarrow> occ A p"
  by (auto simp: occ_def intro: anc_trans)

lemma occ_children:
  assumes "0 < m"
  shows "occ A m \<longleftrightarrow> m \<in> A \<or> occ A (2 * m) \<or> occ A (Suc (2 * m))"
proof
  assume "occ A m"
  then obtain a where "a \<in> A" "anc m a" by (auto simp: occ_def)
  then show "m \<in> A \<or> occ A (2 * m) \<or> occ A (Suc (2 * m))"
    using anc_child [of m a] by (auto simp: occ_def)
next
  have "anc m (2 * m)" "anc m (Suc (2 * m))"
    using anc_half [of "2 * m"] anc_half [of "Suc (2 * m)"] assms by auto
  moreover assume "m \<in> A \<or> occ A (2 * m) \<or> occ A (Suc (2 * m))"
  ultimately show "occ A m" using occ_up occ_self assms by blast
qed

lemma status_zero: "0 < m \<Longrightarrow> status A m = 0 \<longleftrightarrow> \<not> occ A m"
  using occ_children [of m A] by (auto simp: status_def status_bits)

lemma status_free: "status A m AND BUSY = 0 \<longleftrightarrow> status A m = 0"
  by (auto simp: status_def status_bits)

lemma occ_insert: "occ (insert m A) c \<longleftrightarrow> anc c m \<or> occ A c"
  by (auto simp: occ_def)

lemma occ_remove: "\<not> anc c m \<Longrightarrow> occ (A - {m}) c = occ A c"
  by (auto simp: occ_def)

subsection \<open>Trees that show a set of allocated nodes\<close>

definition tree_is :: "TreeStatus list \<Rightarrow> (nat \<Rightarrow> TreeStatus) \<Rightarrow> bool" where
  "tree_is tree F \<longleftrightarrow> (\<forall>i < length tree. tree ! i = F (Suc i))"

lemma tree_isD: "tree_is tree F \<Longrightarrow> i < length tree \<Longrightarrow> tree ! i = F (Suc i)"
  by (simp add: tree_is_def)

lemma tree_is_update:
  "tree_is tree F \<Longrightarrow> tree_is (tree[p := v]) (F(Suc p := v))"
  by (auto simp: tree_is_def nth_list_update)

lemma tree_is_cong: "tree_is tree F \<Longrightarrow> (\<And>X. 0 < X \<Longrightarrow> F X = G X) \<Longrightarrow> tree_is tree G"
  by (simp add: tree_is_def)

lemma tree_is_unique: "tree_is T F \<Longrightarrow> tree_is U F \<Longrightarrow> length T = length U \<Longrightarrow> T = U"
  by (intro nth_equalityI) (auto simp: tree_is_def)

lemma heap_parent: "node_parent c = Some p \<Longrightarrow> Suc p = Suc c div 2 \<and> 2 \<le> Suc c"
  using parent_Suc [of c p] by (auto simp: node_parent_def split: if_splits)

lemma node_level_anc:
  assumes "anc (Suc e) (Suc c)" and "e \<noteq> c"
  shows "node_level e < node_level c"
proof -
  have "anc (Suc e) (Suc c div 2)" and c: "2 \<le> Suc c" using anc_proper [OF assms(1)] assms(2) by auto
  then have "log2 (Suc e) \<le> log2 (Suc c div 2)" by (intro log2_mono anc_le) auto
  also have "\<dots> < log2 (Suc c)"
    using log2_div [of 1 "Suc c"] log2_ge_iff [of "Suc c" 1] c by simp
  finally show ?thesis by (simp add: node_level_def)
qed

text \<open>Freeing \<open>m\<close>: from the tree of \<open>A\<close> to that of \<open>A - {m}\<close>.\<close>

lemma status_above:
  assumes "anc X P" and "X \<noteq> P" and "anc P m" and "occ (A - {m}) P" and "X \<noteq> m"
  shows "status A X = status (A - {m}) X"
proof (rule status_cong)
  fix Y :: nat
  assume Y: "2 \<le> Y" "Y div 2 = X"
  show "occ A Y = occ (A - {m}) Y"
  proof (cases "anc Y m")
    case True
    then have "anc Y P \<or> anc P Y" using anc_linear assms(3) by blast
    moreover have "anc Y P" if "anc P Y"
    proof (cases "P = Y")
      case False
      from anc_proper [OF that False] Y(2) have "anc P X" by simp
      with assms(1,2) anc_antisym show ?thesis by blast
    qed (use Y in simp)
    ultimately have "occ (A - {m}) Y" using occ_up assms(4) by blast
    then show ?thesis by (auto simp: occ_def)
  qed (simp add: occ_remove)
qed (use assms anc_le in auto)

lemma clear_up_root:
  assumes A: "antichain A" and m: "m \<in> A" and "c < length tree"
    and "anc (Suc c) m" and "\<not> occ (A - {m}) (Suc c)"
    and "tree_is tree (\<lambda>X. if anc X (Suc c) \<and> X \<noteq> Suc c then status A X else status (A - {m}) X)"
  shows "tree_is (clear_up tree c 0) (status (A - {m}))"
  using assms(3-)
proof (induction c arbitrary: tree rule: less_induct)
  case (less c)
  let ?B = "A - {m}"
  show ?case
  proof (cases "c = 0")
    case True
    with less.prems(4) show ?thesis
      using anc_le by (simp add: pass_stops) (erule tree_is_cong, fastforce)
  next
    case False
    then obtain p where p: "node_parent c = Some p" by (auto simp: node_parent_def)
    note hp = heap_parent [OF p] and pc = parent_less [OF p]
    have lev: "node_level 0 < node_level c" using False anc_one by (intro node_level_anc) auto
    have Pc: "anc (Suc p) (Suc c)" using hp anc_half by metis
    have Pm: "anc (Suc p) m" "Suc p \<noteq> m"
      using anc_trans [OF Pc less.prems(2)] anc_le(1) [OF less.prems(2)] pc by auto
    have PA: "Suc p \<notin> A" using A m Pm by (auto simp: antichain_def)
    have Tp: "tree ! p = status A (Suc p)"
      using tree_isD [OF less.prems(4), of p] less.prems(1) pc Pc by simp
    have sib: "occ ?B (sib (Suc c)) = occ A (sib (Suc c))"
      using anc_sib [OF less.prems(2)] hp by (intro occ_remove) blast
    have new: "clear_occupy (tree ! p) (child_type c) = status ?B (Suc p)"
      unfolding Tp child_type_side using hp PA less.prems(3) sib by (intro status_clear) auto
    have path: "anc X (Suc c) \<and> X \<noteq> Suc c \<longleftrightarrow> anc X (Suc p)" for X
      using anc_proper [of X "Suc c"] anc_trans [OF _ Pc] anc_le(1) [of X "Suc p"] hp pc by auto
    let ?T = "tree[p := status ?B (Suc p)]"
    have T: "tree_is ?T (\<lambda>X. if anc X (Suc p) \<and> X \<noteq> Suc p then status A X else status ?B X)"
      by (rule tree_is_cong [OF tree_is_update [OF less.prems(4)]]) (auto simp: path)
    show ?thesis
    proof (cases "occ A (sib (Suc c))")
      case True
      have "anc (Suc p) (sib (Suc c))" using anc_half [of "sib (Suc c)"] sib_half [of "Suc c"] hp by simp
      then have "occ ?B (Suc p)" using True sib occ_up by blast
      then have "status A X = status ?B X" if "anc X (Suc p)" "X \<noteq> Suc p" for X
      proof (rule status_above [OF that Pm(1)])
        show "X \<noteq> m" using anc_le(1) [OF that(1)] anc_le(1) [OF Pm(1)] that(2) by linarith
      qed
      then have "tree_is ?T (status ?B)" by (intro tree_is_cong [OF T]) auto
      with True status_side(2) [of "Suc c" "Suc p" A] hp PA new show ?thesis
        by (simp add: pass_steps(2) [OF lev p] child_type_side Tp)
    next
      case False
      have "\<not> occ ?B (Suc p)"
        using occ_children [of "Suc p" ?B] children [of "Suc c"] hp PA less.prems(3) sib False
        by (metis DiffD1 empty_iff insert_iff zero_less_Suc)
      from less.IH [OF pc _ Pm(1) this T] less.prems(1) pc
      have "tree_is (clear_up ?T p 0) (status ?B)" by simp
      with False status_side(2) [of "Suc c" "Suc p" A] hp PA new show ?thesis
        by (simp add: pass_steps(2) [OF lev p] child_type_side Tp)
    qed
  qed
qed

text \<open>Freeing \<open>m\<close> up to \<open>E\<close> only, in a part of the tree where nothing else is in use.\<close>

lemma clear_up_undo:
  assumes "c < length tree" and "anc (Suc e) (Suc c)" and "anc (Suc c) m"
    and G: "\<And>X. anc (Suc e) X \<Longrightarrow> anc X m \<Longrightarrow> G X = 0"
    and "tree_is tree (\<lambda>X. if anc (Suc e) X \<and> anc X (Suc c) \<and> X \<noteq> Suc c then status {m} X else G X)"
  shows "tree_is (clear_up tree c e) G"
  using assms(1-3) assms(5)
proof (induction c arbitrary: tree rule: less_induct)
  case (less c)
  show ?case
  proof (cases "e = c")
    case True
    with less.prems(4) anc_antisym show ?thesis
      by (simp add: pass_stops) (erule tree_is_cong, auto)
  next
    case False
    note lev = node_level_anc [OF less.prems(2) False]
    then obtain p where p: "node_parent c = Some p" using node_has_parent by blast
    note hp = heap_parent [OF p] and pc = parent_less [OF p]
    have Ep: "anc (Suc e) (Suc p)" using anc_proper [OF less.prems(2)] False hp by simp
    have Pc: "anc (Suc p) (Suc c)" using hp anc_half by metis
    have Pm: "anc (Suc p) m" using anc_trans [OF Pc less.prems(3)] .
    have ne: "Suc p \<noteq> m" using anc_le(1) [OF less.prems(3)] pc by simp
    have Tp: "tree ! p = status {m} (Suc p)"
      using tree_isD [OF less.prems(4), of p] less.prems(1) pc Pc Ep by simp
    have sib: "\<not> occ {m} (sib (Suc c))"
      using anc_sib [OF less.prems(3)] hp by (auto simp: occ_def)
    have "clear_occupy (tree ! p) (child_type c) = status {} (Suc p)"
      unfolding Tp child_type_side using hp ne sib by (intro status_clear) (auto simp: occ_def)
    then have new: "clear_occupy (tree ! p) (child_type c) = G (Suc p)"
      using G [OF Ep Pm] status_zero [of "Suc p" "{}"] by (simp add: occ_def)
    have path: "anc X (Suc c) \<and> X \<noteq> Suc c \<longleftrightarrow> anc X (Suc p)" for X
      using anc_proper [of X "Suc c"] anc_trans [OF _ Pc] anc_le(1) [of X "Suc p"] hp pc by auto
    let ?T = "tree[p := G (Suc p)]"
    have "tree_is ?T (\<lambda>X. if anc (Suc e) X \<and> anc X (Suc p) \<and> X \<noteq> Suc p then status {m} X else G X)"
      by (rule tree_is_cong [OF tree_is_update [OF less.prems(4)]]) (auto simp: path)
    from less.IH [OF pc _ Ep Pm this] less.prems(1) pc have "tree_is (clear_up ?T p e) G" by simp
    with status_side(2) [of "Suc c" "Suc p" "{m}"] hp ne sib new show ?thesis
      by (simp add: pass_steps(2) [OF lev p] child_type_side Tp)
  qed
qed

text \<open>Marking the way up succeeds when no ancestor is allocated.\<close>

lemma try_alloc_loop_succeeds:
  assumes free: "\<And>X. anc X m \<Longrightarrow> X \<notin> A" and "0 < m"
    and "c < length tree" and "anc (Suc c) m"
    and "tree_is tree (\<lambda>X. if anc (Suc c) X \<and> anc X m then status (insert m A) X else status A X)"
  shows "\<exists>T. try_alloc_loop tree n c = (T, None) \<and> length T = length tree \<and> tree_is T (status (insert m A))"
  using assms(3-)
proof (induction c arbitrary: tree rule: less_induct)
  case (less c)
  let ?B = "insert m A"
  have off: "status A X = status ?B X" if "\<not> anc X m" "0 < X" for X
  proof (rule status_cong)
    show "occ A Y = occ ?B Y" if "2 \<le> Y" "Y div 2 = X" for Y
      using that \<open>\<not> anc X m\<close> anc_parent [of Y m] by (auto simp: occ_insert)
  qed (use that in auto)
  show ?case
  proof (cases "node_parent c")
    case None
    then have "c = 0" by (simp add: node_parent_def split: if_splits)
    with less.prems(3) have "tree_is tree (status ?B)"
      using off anc_one by (auto elim!: tree_is_cong)
    with None show ?thesis by (simp add: try_alloc_loop.simps)
  next
    case (Some p)
    note hp = heap_parent [OF Some] and pc = parent_less [OF Some]
    have Pc: "anc (Suc p) (Suc c)" using hp anc_half by metis
    have Pm: "anc (Suc p) m" using anc_trans [OF Pc less.prems(2)] .
    have PA: "Suc p \<notin> A" and ne: "Suc p \<noteq> m"
      using free Pm anc_le(1) [OF less.prems(2)] pc by auto
    have "\<not> anc (Suc c) (Suc p)" using anc_le(1) [of "Suc c" "Suc p"] pc by auto
    then have Tp: "tree ! p = status A (Suc p)"
      using tree_isD [OF less.prems(3), of p] less.prems(1) pc by simp
    have new: "set_occupy (clear_coal (tree ! p) (child_type c)) (child_type c) = status ?B (Suc p)"
      unfolding Tp child_type_side using hp PA ne less.prems(2) anc_sib [OF less.prems(2)]
      by (intro status_set) (auto simp: occ_insert)
    have path: "anc (Suc p) X \<and> anc X m \<longleftrightarrow> X = Suc p \<or> anc (Suc c) X \<and> anc X m" for X
      using anc_linear [OF _ less.prems(2), of X] anc_proper [of X "Suc c"] anc_antisym [of X "Suc p"]
        anc_trans [OF Pc, of X] hp Pm by auto
    let ?T = "tree[p := status ?B (Suc p)]"
    have "tree_is ?T (\<lambda>X. if anc (Suc p) X \<and> anc X m then status ?B X else status A X)"
      by (rule tree_is_cong [OF tree_is_update [OF less.prems(3)]]) (auto simp: path)
    from less.IH [OF pc _ Pm this] less.prems(1) pc obtain T
      where "try_alloc_loop ?T n p = (T, None)" "length T = length tree" "tree_is T (status ?B)" by auto
    with Some new PA show ?thesis
      by (simp add: try_alloc_loop.simps [of _ _ c] Tp status_occupied)
  qed
qed

text \<open>It fails at the allocated ancestor, if there is one, and leaves the tree as it was.\<close>

lemma below_allocated:
  assumes "antichain A" and "f \<in> A" and "anc f X" and "f \<noteq> X"
  shows "\<not> occ A X"
  using assms anc_trans by (auto simp: occ_def antichain_def) (metis anc_antisym anc_trans)

lemma try_alloc_loop_fails:
  assumes A: "antichain A" and f: "f \<in> A" and m: "m \<le> length tree"
    and "c < length tree" and "anc (Suc c) m" and "anc f (Suc c)" and "f \<noteq> Suc c"
    and "tree_is tree (\<lambda>X. if anc (Suc c) X \<and> anc X m then status {m} X else status A X)"
  shows "\<exists>T. try_alloc_loop tree (m - 1) c = (T, Some (f - 1)) \<and> length T = length tree \<and>
    tree_is T (status A)"
  using assms(3-)
proof (induction c arbitrary: tree rule: less_induct)
  case (less c)
  have fc: "anc f (Suc c div 2)" and c2: "2 \<le> Suc c" using anc_proper [OF less.prems(4,5)] by auto
  then obtain p where p: "node_parent c = Some p" by (auto simp: node_parent_def)
  note hp = heap_parent [OF p] and pc = parent_less [OF p]
  have Pc: "anc (Suc p) (Suc c)" using hp anc_half by metis
  have Pm: "anc (Suc p) m" using anc_trans [OF Pc less.prems(3)] .
  have ne: "Suc p \<noteq> m" using anc_le(1) [OF less.prems(3)] pc by simp
  have "\<not> anc (Suc c) (Suc p)" using anc_le(1) [of "Suc c" "Suc p"] pc by auto
  then have Tp: "tree ! p = status A (Suc p)"
    using tree_isD [OF less.prems(6), of p] less.prems(2) pc by simp
  have m0: "0 < m" using anc_le [OF less.prems(3)] by simp
  show ?case
  proof (cases "Suc p = f")
    case True
    let ?T = "tree[m - 1 := 0]"
    have zero: "status A X = 0" if "anc (Suc c) X" "anc X m" for X
    proof -
      have "anc f X" using anc_trans [OF less.prems(4) that(1)] .
      moreover have "f \<noteq> X" using that(1) anc_le(1) [of "Suc c" X] True pc by auto
      ultimately show ?thesis using below_allocated [OF A f] anc_le(2) [of X m] that by (simp add: status_zero)
    qed
    have "tree_is ?T (\<lambda>X. if anc (Suc c) X \<and> anc X m \<and> X \<noteq> m then status {m} X else status A X)"
      using tree_is_update [OF less.prems(6), of "m - 1" 0] zero [OF less.prems(3)] m0
      by (elim tree_is_cong) auto
    then have "tree_is (clear_up ?T (m - 1) c) (status A)"
      using less.prems(1,3) m0 zero by (intro clear_up_undo [where m = m]) auto
    moreover have "dealloc_node tree (m - 1) c = clear_up ?T (m - 1) c"
      using less.prems(1) m0 tree_isD [OF less.prems(6)] by (intro dealloc_node_eq) auto
    ultimately show ?thesis
      using p True f Tp clear_up_above [of ?T "m - 1" c]
      by (auto simp: try_alloc_loop.simps [of _ _ c] status_occupied)
  next
    case False
    have PA: "\<not> occ A (Suc p)" "Suc p \<notin> A"
      using below_allocated [OF A f, of "Suc p"] fc hp False occ_self [of "Suc p" A] by auto
    then have zero: "status A (Suc p) = status {} (Suc p)"
      using status_zero [of "Suc p" A] status_zero [of "Suc p" "{}"] by (simp add: occ_def [of "{}"])
    have new: "set_occupy (clear_coal (tree ! p) (child_type c)) (child_type c) = status {m} (Suc p)"
      unfolding Tp zero child_type_side using hp ne less.prems(3) anc_sib [OF less.prems(3)]
      by (intro status_set) (auto simp: occ_def)
    have path: "anc (Suc p) X \<and> anc X m \<longleftrightarrow> X = Suc p \<or> anc (Suc c) X \<and> anc X m" for X
      using anc_linear [OF _ less.prems(3), of X] anc_proper [of X "Suc c"] anc_antisym [of X "Suc p"]
        anc_trans [OF Pc, of X] hp Pm by auto
    let ?T = "tree[p := status {m} (Suc p)]"
    have "tree_is ?T (\<lambda>X. if anc (Suc p) X \<and> anc X m then status {m} X else status A X)"
      by (rule tree_is_cong [OF tree_is_update [OF less.prems(6)]]) (auto simp: path)
    from less.IH [OF pc _ _ Pm _ _ this] less.prems(1,2) pc fc hp False obtain T
      where "try_alloc_loop ?T (m - 1) p = (T, Some (f - 1))" "length T = length tree" "tree_is T (status A)"
      by auto
    with p new PA(2) show ?thesis
      by (simp add: try_alloc_loop.simps [of _ _ c] Tp status_occupied)
  qed
qed

subsection \<open>The operations on the set of allocated nodes\<close>

definition tree_inv :: "nat set \<Rightarrow> TreeStatus list \<Rightarrow> bool" where
  "tree_inv A tree \<longleftrightarrow> antichain A \<and> A \<subseteq> {.. length tree} \<and> tree_is tree (status A)"

text \<open>A node can be allocated when it is neither inside nor around an allocated one.\<close>

definition available :: "nat set \<Rightarrow> nat \<Rightarrow> bool" where
  "available A m \<longleftrightarrow> \<not> occ A m \<and> (\<forall>f \<in> A. \<not> anc f m)"

lemma antichain_insert: "antichain A \<Longrightarrow> available A m \<Longrightarrow> 0 < m \<Longrightarrow> antichain (insert m A)"
  by (auto simp: antichain_def available_def occ_def)

lemma tree_inv_unique: "tree_inv A T \<Longrightarrow> tree_inv A U \<Longrightarrow> length T = length U \<Longrightarrow> T = U"
  using tree_is_unique by (auto simp: tree_inv_def)

lemma is_free_iff:
  "tree_inv A tree \<Longrightarrow> 0 < m \<Longrightarrow> m \<le> length tree \<Longrightarrow> is_free tree (m - 1) \<longleftrightarrow> \<not> occ A m"
  using tree_isD [of tree "status A" "m - 1"]
  by (simp add: tree_inv_def is_free_def status_free status_zero)

lemma self_path: "0 < m \<Longrightarrow> anc (Suc (m - 1)) X \<and> anc X m \<longleftrightarrow> X = m"
  using anc_antisym by auto

lemma try_alloc_available:
  assumes inv: "tree_inv A tree" and m: "0 < m" "m \<le> length tree" and av: "available A m"
  shows "\<exists>T. try_alloc tree (m - 1) = (T, None) \<and> length T = length tree \<and> tree_inv (insert m A) T"
proof -
  have z: "tree ! (m - 1) = 0"
    using inv m av tree_isD [of tree "status A" "m - 1"] by (simp add: tree_inv_def status_zero available_def)
  have "BUSY = status (insert m A) m" by (simp add: status_def)
  then have "tree_is (tree[m - 1 := BUSY])
      (\<lambda>X. if anc (Suc (m - 1)) X \<and> anc X m then status (insert m A) X else status A X)"
    using tree_is_update [of tree "status A" "m - 1" BUSY] inv m
    unfolding self_path [OF m(1)] by (auto simp: tree_inv_def elim!: tree_is_cong)
  moreover have "m - 1 < length tree" "anc (Suc (m - 1)) m" "\<And>X. anc X m \<Longrightarrow> X \<notin> A"
    using m av by (auto simp: available_def)
  ultimately obtain T where "try_alloc_loop (tree[m - 1 := BUSY]) (m - 1) (m - 1) = (T, None)"
      "length T = length tree" "tree_is T (status (insert m A))"
    using try_alloc_loop_succeeds [of m A "m - 1" "tree[m - 1 := BUSY]" "m - 1"] m(1) by auto
  with z inv m av antichain_insert show ?thesis by (auto simp: try_alloc_def tree_inv_def)
qed

lemma try_alloc_blocked:
  assumes inv: "tree_inv A tree" and m: "0 < m" "m \<le> length tree" and "\<not> occ A m"
    and f: "f \<in> A" "anc f m"
  shows "try_alloc tree (m - 1) = (tree, Some (f - 1))"
proof -
  have A: "antichain A" and T0: "tree_is tree (status A)" using inv by (auto simp: tree_inv_def)
  have z: "tree ! (m - 1) = 0" using T0 m assms(4) tree_isD [of tree "status A" "m - 1"] by (simp add: status_zero)
  have ne: "f \<noteq> m" using assms(4) f m(1) occ_self by blast
  have "BUSY = status {m} m" by (simp add: status_def)
  then have "tree_is (tree[m - 1 := BUSY])
      (\<lambda>X. if anc (Suc (m - 1)) X \<and> anc X m then status {m} X else status A X)"
    using tree_is_update [OF T0, of "m - 1" BUSY] m
    unfolding self_path [OF m(1)] by (auto elim!: tree_is_cong)
  moreover have "m - 1 < length tree" "anc (Suc (m - 1)) m" "anc f (Suc (m - 1))" "f \<noteq> Suc (m - 1)"
    using m f(2) ne by auto
  ultimately obtain T where T: "try_alloc_loop (tree[m - 1 := BUSY]) (m - 1) (m - 1) = (T, Some (f - 1))"
      "length T = length tree" "tree_is T (status A)"
    using try_alloc_loop_fails [OF A f(1), of m "tree[m - 1 := BUSY]" "m - 1"] m(2) by auto
  then have "T = tree" using tree_is_unique T0 by blast
  with T(1) z show ?thesis by (simp add: try_alloc_def)
qed

lemma dealloc_node_correct:
  assumes inv: "tree_inv A tree" and m: "m \<in> A"
  shows "tree_inv (A - {m}) (dealloc_node tree (m - 1) 0)"
    and "length (dealloc_node tree (m - 1) 0) = length tree"
proof -
  have A: "antichain A" and T0: "tree_is tree (status A)" and ml: "m \<le> length tree"
    using inv m by (auto simp: tree_inv_def)
  have m0: "0 < m" using A m by (auto simp: antichain_def intro: ccontr)
  let ?B = "A - {m}" and ?T = "tree[m - 1 := 0]"
  have nB: "\<not> occ ?B m" using A m by (auto simp: occ_def antichain_def)
  have off: "status A X = status ?B X" if "\<not> anc X m" "0 < X" for X
  proof (rule status_cong)
    show "occ A Y = occ ?B Y" if "2 \<le> Y" "Y div 2 = X" for Y
      using that \<open>\<not> anc X m\<close> anc_parent [of Y m] occ_remove [of Y m A] by blast
  qed (use that m0 in auto)
  have "tree_is ?T (\<lambda>X. if anc X (Suc (m - 1)) \<and> X \<noteq> Suc (m - 1) then status A X else status ?B X)"
    using tree_is_update [OF T0, of "m - 1" 0] m0 nB off status_zero [OF m0, of ?B]
    by (elim tree_is_cong) auto
  then have "tree_is (clear_up ?T (m - 1) 0) (status ?B)"
    using ml m0 nB by (intro clear_up_root [OF A m]) auto
  moreover have "dealloc_node tree (m - 1) 0 = clear_up ?T (m - 1) 0"
    using ml m0 tree_isD [OF T0] by (intro dealloc_node_eq) auto
  ultimately show "tree_inv ?B (dealloc_node tree (m - 1) 0)"
    and "length (dealloc_node tree (m - 1) 0) = length tree"
    using inv clear_up_above [of ?T "m - 1" 0] by (auto simp: tree_inv_def antichain_def)
qed

text \<open>The search takes the first available node of a level, and fails only if there is none.\<close>

lemma heap_level: "2 ^ l \<le> m \<Longrightarrow> m < 2 ^ Suc l \<Longrightarrow> node_level (m - 1) = l"
proof -
  assume m: "2 ^ l \<le> m" "m < 2 ^ Suc l"
  then have "0 < m" by (metis gr_zeroI not_less zero_less_numeral zero_less_power)
  with log2_unique [OF m] show ?thesis by (simp add: node_level_def)
qed

lemma skip_blocked:
  assumes "f = m div 2 ^ k" and "0 < f" and "m \<le> n" and "n < 2 ^ k * f + 2 ^ k"
  shows "anc f n"
proof -
  have "2 ^ k * f \<le> n" using assms(1,3) by (metis le_trans times_div_less_eq_dividend)
  then have "n div 2 ^ k = f" using assms(4) by (intro div_nat_eqI) (auto simp: mult.commute)
  with assms(2) show ?thesis by (auto simp: anc_def)
qed

lemma alloc_loop_correct:
  assumes inv: "tree_inv A tree" and len: "2 ^ Suc l - 1 \<le> length tree"
    and "2 ^ l \<le> Suc i" and "Suc i \<le> 2 ^ Suc l"
  shows "(\<exists>m T. alloc_loop tree i (2 ^ Suc l - 1) = (T, Some (m - 1)) \<and> Suc i \<le> m \<and> m < 2 ^ Suc l \<and>
      available A m \<and> (\<forall>n. Suc i \<le> n \<and> n < m \<longrightarrow> \<not> available A n) \<and>
      tree_inv (insert m A) T \<and> length T = length tree) \<or>
    alloc_loop tree i (2 ^ Suc l - 1) = (tree, None) \<and> (\<forall>n. Suc i \<le> n \<and> n < 2 ^ Suc l \<longrightarrow> \<not> available A n)"
    (is "?ok i \<or> ?none i")
  using assms(3,4)
proof (induction "2 ^ Suc l - Suc i" arbitrary: i rule: less_induct)
  case less
  let ?e = "2 ^ Suc l - 1 :: nat"
  show ?case
  proof (cases "i < ?e")
    case False
    then have "?none i" using less.prems by (auto simp: alloc_loop.simps [of tree i])
    then show ?thesis by blast
  next
    case True
    then have il: "Suc i \<le> length tree" "Suc i < 2 ^ Suc l" using len by linarith+
    have free: "is_free tree i \<longleftrightarrow> \<not> occ A (Suc i)" using is_free_iff [OF inv, of "Suc i"] il by simp
    show ?thesis
    proof (cases "available A (Suc i)")
      case av: True
      from try_alloc_available [OF inv _ il(1) av] obtain T where
        T: "try_alloc tree i = (T, None)" "length T = length tree" "tree_inv (insert (Suc i) A) T" by auto
      have "alloc_loop tree i ?e = (T, Some (Suc i - 1))"
        using True free av T(1) by (simp add: alloc_loop.simps [of tree i] available_def)
      with T il(2) av have "?ok i" by (intro exI [of _ "Suc i"] exI [of _ T]) auto
      then show ?thesis by blast
    next
      case av: False
      have later: "?ok i \<or> ?none i"
        if run: "alloc_loop tree i ?e = alloc_loop tree j ?e" and j: "i < j" "Suc j \<le> 2 ^ Suc l"
          and skip: "\<And>n. Suc i \<le> n \<Longrightarrow> n < Suc j \<Longrightarrow> \<not> available A n" for j
      proof -
        have "2 ^ Suc l - Suc j < 2 ^ Suc l - Suc i" using j by linarith
        moreover have "2 ^ l \<le> Suc j" using less.prems(1) j(1) by linarith
        ultimately have "?ok j \<or> ?none j" using less.hyps j(2) by blast
        moreover have "Suc i \<le> n" if "Suc j \<le> n" for n using that j(1) by linarith
        moreover have "\<not> available A n" if "Suc i \<le> n" "Suc j \<le> n \<Longrightarrow> \<not> available A n" for n
          using that skip [of n] by (cases "n < Suc j") auto
        ultimately show ?thesis unfolding run by blast
      qed
      show ?thesis
      proof (cases "occ A (Suc i)")
        case True': True
        show ?thesis
        proof (rule later)
          show "alloc_loop tree i ?e = alloc_loop tree (i + 1) ?e"
            using True free True' by (simp add: alloc_loop.simps [of tree i])
        qed (use av il(2) in \<open>auto simp: less_Suc_eq_le dest!: le_antisym\<close>)
      next
        case nocc: False
        with av obtain f where f: "f \<in> A" "anc f (Suc i)" by (auto simp: available_def)
        then obtain k where k: "f = Suc i div 2 ^ k" and f0: "0 < f" by (auto simp: anc_def)
        have "try_alloc tree i = (tree, Some (f - 1))"
          using try_alloc_blocked [OF inv _ il(1) nocc f] by simp
        moreover have Sf: "Suc (f - 1) = Suc i div 2 ^ k" using k f0 by simp
        note sp = skip_progress [OF Sf]
        let ?j = "2 ^ k * f - 1 + 2 ^ k"
        have "node_level i - node_level (f - 1) = k" by (rule sp(2))
        ultimately have run: "alloc_loop tree i ?e = alloc_loop tree ?j ?e"
          using True free nocc f0 by (cases f) (simp_all add: alloc_loop.simps [of tree i] Let_def)
        have kl: "k \<le> l" using sp(3) heap_level [of l "Suc i"] less.prems(1) il(2) by simp
        have "Suc i < 2 ^ (Suc l - k) * 2 ^ k" using il(2) kl by (simp flip: power_add)
        then have "f < 2 ^ (Suc l - k)" unfolding k by (rule less_mult_imp_div_less)
        then have "(f + 1) * 2 ^ k \<le> 2 ^ (Suc l - k) * 2 ^ k" by (intro mult_le_mono1) simp
        then have bound: "2 ^ k * f + 2 ^ k \<le> 2 ^ Suc l" using kl by (simp add: algebra_simps flip: power_add)
        have j: "Suc ?j = 2 ^ k * f + 2 ^ k" using f0 by simp
        show ?thesis
        proof (rule later [OF run])
          show "i < ?j" using sp(1) f0 unfolding sp(2) by simp
          show "Suc ?j \<le> 2 ^ Suc l" unfolding j by (rule bound)
          show "\<not> available A n" if "Suc i \<le> n" "n < Suc ?j" for n
            using skip_blocked [OF k f0 that(1)] that(2) f(1) unfolding j available_def by blast
        qed
      qed
    qed
  qed
qed

end
