(* ===== verification/Pmem_Allocator.thy ===== *)
theory Pmem_Allocator
  imports Buddy_Status Mem_Range
begin

text \<open>
  The physical memory allocator proper, the second half of
  \<^verbatim>\<open>kernel/src/alloc/pmem_manager/pmem_allocator.rs\<close>: the address and the size of a node, the
  choice of a level for a size, allocation, deallocation and resizing in place.
\<close>

subsection \<open>Data\<close>

record PmemAllocator =
  pa_addr_range :: range
  pa_tree :: "TreeStatus list"
  pa_depth :: nat
  pa_max_size :: usize
  pa_level_size :: usize
  pa_free_space :: usize

definition required_tree_array_size :: "range \<Rightarrow> usize \<Rightarrow> usize option" where
  "required_tree_array_size vrange level_size =
     (if is_power_of_two level_size \<and> is_power2_size_align vrange \<and> level_size \<le> r_size vrange
      then Some (2 * (r_size vrange div level_size) - 1) else None)"

text \<open>The constructor takes the length of the array that will hold the tree.\<close>

definition pa_try_from :: "range \<Rightarrow> nat \<Rightarrow> usize \<Rightarrow> PmemAllocator option" where
  "pa_try_from vrange tree_len level_size =
     (case required_tree_array_size vrange level_size of
        None \<Rightarrow> None
      | Some n \<Rightarrow>
          if n = tree_len then
            Some \<lparr>pa_addr_range = vrange, pa_tree = replicate tree_len 0,
              pa_depth = log2 (r_size vrange div level_size), pa_max_size = r_size vrange,
              pa_level_size = level_size, pa_free_space = r_size vrange\<rparr>
          else None)"

definition pa_from :: "range \<Rightarrow> nat \<Rightarrow> usize \<Rightarrow> PmemAllocator kresult" where
  "pa_from vrange tree_len level_size = expect (pa_try_from vrange tree_len level_size)"

definition pa_start_addr :: "PmemAllocator \<Rightarrow> usize" where
  "pa_start_addr pa = r_addr (pa_addr_range pa)"

subsection \<open>Nodes\<close>

definition node_size :: "PmemAllocator \<Rightarrow> nat \<Rightarrow> usize" where
  "node_size pa i = pa_max_size pa div 2 ^ node_level i"

definition node_addr :: "PmemAllocator \<Rightarrow> nat \<Rightarrow> usize kresult" where
  "node_addr pa i =
     (let start_index = 2 ^ node_level i - 1 in
      rbind (usub i start_index) (\<lambda>diff.
        rbind (umul (node_size pa i) diff) (\<lambda>off. uadd (pa_start_addr pa) off)))"

definition get_level_for_allocation_size :: "PmemAllocator \<Rightarrow> usize \<Rightarrow> nat option kresult" where
  "get_level_for_allocation_size pa sz =
     (if pa_max_size pa < sz then Ok None
      else rbind (udiv (pa_max_size pa) sz) (\<lambda>q. Ok (Some (min (log2 q) (pa_depth pa)))))"

definition get_node_from_allocation :: "PmemAllocator \<Rightarrow> Allocation \<Rightarrow> nat kresult" where
  "get_node_from_allocation pa allocation =
     rbind (udiv (pa_max_size pa) (al_size allocation)) (\<lambda>q.
       let level = log2 q in
       rbind (assert_r (level \<le> pa_depth pa)) (\<lambda>_.
       rbind (full_contains_range virt_new (pa_addr_range pa) (as_vrange allocation)) (\<lambda>inside.
       rbind (assert_r inside) (\<lambda>_.
       let level_start = 2 ^ level - 1 in
       rbind (usub (al_ptr allocation) (pa_start_addr pa)) (\<lambda>addr_offset.
       rbind (udiv addr_offset (al_size allocation)) (\<lambda>d. uadd level_start d))))))"

definition node_allocation :: "PmemAllocator \<Rightarrow> nat \<Rightarrow> Allocation kresult" where
  "node_allocation pa i = rbind (node_addr pa i) (\<lambda>a. Allocation_new a (node_size pa i))"

subsection \<open>Operations\<close>

text \<open>The counter of free bytes is atomic: its arithmetic wraps.\<close>

definition pa_alloc :: "PmemAllocator \<Rightarrow> usize \<Rightarrow> (PmemAllocator \<times> Allocation option) kresult" where
  "pa_alloc pa sz =
     rbind (get_level_for_allocation_size pa sz) (\<lambda>l.
       case l of
         None \<Rightarrow> Ok (pa, None)
       | Some level \<Rightarrow>
           (case alloc_loop (pa_tree pa) (2 ^ level - 1) (2 ^ (level + 1) - 1) of
              (tree, None) \<Rightarrow> Ok (pa\<lparr>pa_tree := tree\<rparr>, None)
            | (tree, Some node) \<Rightarrow>
                rbind (node_allocation pa node) (\<lambda>a.
                  Ok (pa\<lparr>pa_tree := tree,
                        pa_free_space := (pa_free_space pa + (usize_limit - node_size pa node)) mod usize_limit\<rparr>,
                      Some a))))"

definition pa_dealloc :: "PmemAllocator \<Rightarrow> Allocation \<Rightarrow> PmemAllocator kresult" where
  "pa_dealloc pa allocation =
     rbind (get_node_from_allocation pa allocation) (\<lambda>node.
       Ok (pa\<lparr>pa_tree := dealloc_node (pa_tree pa) node 0,
             pa_free_space := (pa_free_space pa + node_size pa node) mod usize_limit\<rparr>))"

definition pa_realloc_in_place ::
  "PmemAllocator \<Rightarrow> Allocation \<Rightarrow> usize \<Rightarrow> (PmemAllocator \<times> Allocation option) kresult" where
  "pa_realloc_in_place pa allocation new_size =
     rbind (get_node_from_allocation pa allocation) (\<lambda>old_node.
       let old_level = node_level old_node in
       rbind (get_level_for_allocation_size pa new_size) (\<lambda>l.
         case l of
           None \<Rightarrow> Ok (pa, None)
         | Some new_level \<Rightarrow>
             if new_level < old_level then
               rbind (expect (node_parent old_node)) (\<lambda>current.
                 case grow_loop (pa_tree pa) current old_level new_level of
                   (tree, None) \<Rightarrow> Ok (pa\<lparr>pa_tree := tree\<rparr>, None)
                 | (tree, Some new_node) \<Rightarrow>
                     rbind (node_allocation pa new_node) (\<lambda>a.
                       Ok (pa\<lparr>pa_tree := clear_loop tree new_node old_level\<rparr>, Some a)))
             else if old_level < new_level then
               (case shrink_node (pa_tree pa) old_node new_level of
                  (tree, new_node) \<Rightarrow>
                    rbind (node_allocation pa new_node) (\<lambda>a. Ok (pa\<lparr>pa_tree := tree\<rparr>, Some a)))
             else Ok (pa, Some allocation)))"

subsection \<open>Well-formed allocators\<close>

text \<open>
  What the constructor establishes: \<open>s\<close> and \<open>d\<close> are the logarithm of the smallest block and
  the depth.  The region, its end included, consists of canonical addresses.
\<close>

definition pa_shape :: "nat \<Rightarrow> nat \<Rightarrow> PmemAllocator \<Rightarrow> bool" where
  "pa_shape s d pa \<longleftrightarrow>
     s + d < 48 \<and> pa_depth pa = d \<and> pa_level_size pa = 2 ^ s \<and> pa_max_size pa = 2 ^ (s + d) \<and>
     r_size (pa_addr_range pa) = 2 ^ (s + d) \<and> length (pa_tree pa) = 2 ^ Suc d - 1 \<and>
     range_wf virt_ok (pa_addr_range pa)"

text \<open>The block of a node, by its number: where it starts, how long it is.\<close>

definition block_addr :: "PmemAllocator \<Rightarrow> nat \<Rightarrow> usize" where
  "block_addr pa m = pa_start_addr pa + node_size pa (m - 1) * (m - 2 ^ node_level (m - 1))"

definition block :: "PmemAllocator \<Rightarrow> nat \<Rightarrow> usize set" where
  "block pa m = {block_addr pa m ..< block_addr pa m + node_size pa (m - 1)}"

text \<open>The allocation that is handed out for a node.\<close>

definition block_allocation :: "PmemAllocator \<Rightarrow> nat \<Rightarrow> Allocation" where
  "block_allocation pa m = \<lparr>al_ptr = block_addr pa m, al_size = node_size pa (m - 1), zindex = None\<rparr>"

definition pa_inv :: "nat set \<Rightarrow> PmemAllocator \<Rightarrow> bool" where
  "pa_inv A pa \<longleftrightarrow>
     (\<exists>s d. pa_shape s d pa) \<and> tree_inv A (pa_tree pa) \<and>
     pa_free_space pa + (\<Sum>m \<in> A. node_size pa (m - 1)) = pa_max_size pa"

subsection \<open>Blocks\<close>

lemma heap_in_level: "0 < m \<Longrightarrow> 2 ^ node_level (m - 1) \<le> m \<and> m < 2 ^ Suc (node_level (m - 1))"
  using log2_bounds [of m] by (simp add: node_level_def)

lemma heap_level_le:
  assumes "0 < m" and "m < 2 ^ Suc d"
  shows "node_level (m - 1) \<le> d"
proof -
  have "(2 :: nat) ^ node_level (m - 1) < 2 ^ Suc d" using heap_in_level [OF assms(1)] assms(2) by linarith
  then show ?thesis by (simp only: power_strict_increasing_iff one_less_numeral_iff semiring_norm less_Suc_eq_le)
qed

text \<open>
  Facts about one block; \<open>l\<close> is its level.  Sizes and offsets are powers of two times the
  position of the node within its level.
\<close>

lemma block_facts:
  assumes sh: "pa_shape s d pa" and m: "0 < m" "m < 2 ^ Suc d"
  defines "l \<equiv> node_level (m - 1)"
  shows "l \<le> d" and "node_size pa (m - 1) = 2 ^ (s + (d - l))"
    and "block_addr pa m = pa_start_addr pa + 2 ^ (s + (d - l)) * (m - 2 ^ l)"
    and "2 ^ (s + (d - l)) * (m - 2 ^ l) + 2 ^ (s + (d - l)) \<le> 2 ^ (s + d)"
proof -
  show l: "l \<le> d" unfolding l_def by (rule heap_level_le [OF m])
  have "(2 :: nat) ^ (s + d) = 2 ^ (s + (d - l)) * 2 ^ l" using l by (simp flip: power_add)
  then show sz: "node_size pa (m - 1) = 2 ^ (s + (d - l))"
    using sh by (simp add: node_size_def pa_shape_def l_def)
  then show "block_addr pa m = pa_start_addr pa + 2 ^ (s + (d - l)) * (m - 2 ^ l)"
    by (simp add: block_addr_def l_def)
  have "m - 2 ^ l + 1 \<le> 2 ^ l"
    using heap_in_level [OF m(1)] unfolding l_def [symmetric] power_Suc by linarith
  then have "2 ^ (s + (d - l)) * (m - 2 ^ l + 1) \<le> (2 :: nat) ^ (s + (d - l)) * 2 ^ l" by (rule mult_le_mono2)
  then show "2 ^ (s + (d - l)) * (m - 2 ^ l) + 2 ^ (s + (d - l)) \<le> 2 ^ (s + d)"
    using l by (simp flip: power_add)
qed

lemma block_within:
  assumes sh: "pa_shape s d pa" and m: "0 < m" "m < 2 ^ Suc d"
  shows "block pa m \<subseteq> range_set (pa_addr_range pa)"
  using block_facts [OF assms] sh
  by (auto simp: block_def pa_start_addr_def pa_shape_def)

lemma shape_limits:
  assumes "pa_shape s d pa"
  shows "pa_start_addr pa + 2 ^ (s + d) < usize_limit" and "(2 :: nat) ^ (s + d) \<le> 2 ^ 47"
    and "\<And>a. pa_start_addr pa \<le> a \<Longrightarrow> a \<le> pa_start_addr pa + 2 ^ (s + d) \<Longrightarrow> virt_ok a"
proof -
  show v: "virt_ok a" if "pa_start_addr pa \<le> a" "a \<le> pa_start_addr pa + 2 ^ (s + d)" for a
    using assms that by (simp add: pa_shape_def range_wf_def pa_start_addr_def)
  show "pa_start_addr pa + 2 ^ (s + d) < usize_limit"
    using v [of "pa_start_addr pa + 2 ^ (s + d)"] by (auto simp: virt_ok_def)
  show "(2 :: nat) ^ (s + d) \<le> 2 ^ 47"
    using assms by (intro power_increasing) (auto simp: pa_shape_def)
qed

lemma node_allocation_eq:
  assumes sh: "pa_shape s d pa" and m: "0 < m" "m < 2 ^ Suc d"
  shows "node_allocation pa (m - 1) = Ok (block_allocation pa m)"
proof -
  let ?l = "node_level (m - 1)"
  note b = block_facts [OF assms] and lim = shape_limits [OF sh]
  let ?off = "2 ^ (s + (d - ?l)) * (m - 2 ^ ?l)"
  have diff: "usub (m - 1) (2 ^ ?l - 1) = Ok (m - 2 ^ ?l)"
    using heap_in_level [OF m(1)] m(1) by (simp add: usub_def) linarith
  have off: "?off \<le> 2 ^ (s + d)" using b(4) by linarith
  have mul: "umul (node_size pa (m - 1)) (m - 2 ^ ?l) = Ok ?off"
    using off lim(2) unfolding umul_def b(2) by simp
  have add: "uadd (pa_start_addr pa) ?off = Ok (block_addr pa m)"
    using off lim(1) unfolding uadd_def b(3) by simp
  have "virt_ok (block_addr pa m)" using off lim(3) unfolding b(3) by simp
  then show ?thesis
    by (simp add: node_allocation_def node_addr_def Let_def diff mul add Allocation_new_def block_allocation_def
        del: One_nat_def)
qed

lemma get_node_eq:
  assumes sh: "pa_shape s d pa" and m: "0 < m" "m < 2 ^ Suc d"
  shows "get_node_from_allocation pa (block_allocation pa m) = Ok (m - 1)"
proof -
  let ?l = "node_level (m - 1)" and ?al = "block_allocation pa m"
  note b = block_facts [OF assms] and lim = shape_limits [OF sh]
  let ?sz = "2 ^ (s + (d - ?l)) :: nat"
  have al: "al_size ?al = ?sz" "al_ptr ?al = block_addr pa m" 
    by (simp_all add: block_allocation_def b(2) del: One_nat_def)
  have "(2 :: nat) ^ (s + d) = 2 ^ ?l * ?sz" using b(1) by (simp flip: power_add)
  then have q: "udiv (pa_max_size pa) ?sz = Ok (2 ^ ?l)" using sh by (simp add: udiv_def pa_shape_def)
  have rs: "range_set (as_vrange ?al) = block pa m"
    by (simp add: as_vrange_def range_new_def range_set_def block_def block_allocation_def)
  have "range_wf virt_ok (as_vrange ?al)"
    using lim(3) b(3,4) by (auto simp: range_wf_def as_vrange_def range_new_def al)
  moreover have "0 < r_size (as_vrange ?al)" by (simp add: as_vrange_def range_new_def al)
  ultimately have inside: "full_contains_range virt_new (pa_addr_range pa) (as_vrange ?al) = Ok True"
    using va.full_contains_range_wf [of "pa_addr_range pa" "as_vrange ?al"] sh block_within [OF assms]
    unfolding rs pa_shape_def by simp
  have "2 ^ ?l - 1 + (m - 2 ^ ?l) = m - 1" using heap_in_level [OF m(1)] by auto
  moreover have "m \<le> 2 ^ Suc d" using m(2) by simp
  moreover have "(2 :: nat) ^ Suc d \<le> 2 ^ 48" using sh by (intro power_increasing) (auto simp: pa_shape_def)
  ultimately have add: "uadd (2 ^ ?l - 1) (m - 2 ^ ?l) = Ok (m - 1)" unfolding uadd_def by simp
  have "get_node_from_allocation pa ?al = uadd (2 ^ ?l - 1) (m - 2 ^ ?l)"
    using sh b(1) unfolding get_node_from_allocation_def al q inside
    by (simp add: Let_def pa_shape_def usub_def udiv_def b(3) pa_start_addr_def del: One_nat_def)
  with add show ?thesis by simp
qed

text \<open>The block of a node lies within the blocks of its ancestors; other blocks are disjoint.\<close>

lemma block_anc:
  assumes sh: "pa_shape s d pa" and b: "b < 2 ^ Suc d" and anc: "anc f b"
  shows "block pa b \<subseteq> block pa f"
proof -
  obtain k where k: "f = b div 2 ^ k" and f0: "0 < f" using anc by (auto simp: anc_def)
  have b0: "0 < b" and fb: "f \<le> b" using anc_le [OF anc] f0 by auto
  have f: "f < 2 ^ Suc d" using fb b by linarith
  let ?lb = "node_level (b - 1)" and ?lf = "node_level (f - 1)"
  have Sf: "Suc (f - 1) = Suc (b - 1) div 2 ^ k" using k f0 b0 by simp
  have kl: "?lb - ?lf = k" "k \<le> ?lb" using skip_progress(2,3) [OF Sf] by auto
  then have lb: "?lb = ?lf + k" using heap_in_level [OF f0] heap_in_level [OF b0] log2_mono [OF f0 fb]
    by (simp add: node_level_def f0 b0)
  note B = block_facts [OF sh b0 b] and F = block_facts [OF sh f0 f]
  define S where "S = (2 :: nat) ^ (s + (d - ?lb))"
  have SF: "2 ^ (s + (d - ?lf)) = S * 2 ^ k"
    using B(1) unfolding S_def lb by (simp flip: power_add)
  have off: "b - 2 ^ ?lb = 2 ^ k * (f - 2 ^ ?lf) + b mod 2 ^ k"
  proof -
    have "b = 2 ^ k * f + b mod 2 ^ k" unfolding k by simp
    moreover have "(2 :: nat) ^ ?lb = 2 ^ k * 2 ^ ?lf" unfolding lb by (simp add: power_add)
    moreover have "2 ^ k * 2 ^ ?lf \<le> 2 ^ k * f" using heap_in_level [OF f0] by simp
    ultimately show ?thesis by (simp add: diff_mult_distrib2)
  qed
  have "S * (b mod 2 ^ k) + S \<le> S * 2 ^ k"
    using mult_le_mono2 [of "Suc (b mod 2 ^ k)" "2 ^ k" S] by (simp add: Suc_le_eq add.commute)
  then show ?thesis
    unfolding block_def B(2,3) F(2,3) SF S_def [symmetric] off
    by (auto simp: algebra_simps)
qed

lemma block_same_level:
  assumes sh: "pa_shape s d pa" and "0 < a" "a < 2 ^ Suc d" and "0 < b" "b < 2 ^ Suc d"
    and l: "node_level (a - 1) = node_level (b - 1)" and "a < b"
  shows "block pa a \<inter> block pa b = {}"
proof -
  let ?l = "node_level (b - 1)"
  define S where "S = (2 :: nat) ^ (s + (d - ?l))"
  note A = block_facts [OF sh assms(2,3)] and B = block_facts [OF sh assms(4,5)]
  have "Suc (a - 2 ^ ?l) \<le> b - 2 ^ ?l"
    using heap_in_level [OF assms(2)] assms(7) l by (simp add: diff_less_mono Suc_leI)
  then have "S * (a - 2 ^ ?l) + S \<le> S * (b - 2 ^ ?l)"
    using mult_le_mono2 [of "Suc (a - 2 ^ ?l)" "b - 2 ^ ?l" S] by (simp add: add.commute)
  then show ?thesis
    unfolding block_def A(2,3) B(2,3) l S_def [symmetric] by auto
qed

lemma block_disjoint:
  assumes sh: "pa_shape s d pa" and "0 < a" "a < 2 ^ Suc d" and "0 < b" "b < 2 ^ Suc d"
    and "\<not> anc a b" and "\<not> anc b a"
  shows "block pa a \<inter> block pa b = {}"
proof -
  have lower: "block pa a \<inter> block pa b = {}"
    if ab: "0 < a" "a < 2 ^ Suc d" "0 < b" "b < 2 ^ Suc d" "\<not> anc a b"
      and le: "node_level (a - 1) \<le> node_level (b - 1)" for a b
  proof -
    let ?k = "node_level (b - 1) - node_level (a - 1)"
    let ?c = "b div 2 ^ ?k"
    have kb: "2 ^ ?k \<le> b"
      using heap_in_level [OF ab(3)] le_trans [OF power_increasing [of ?k "node_level (b - 1)" 2]] by simp
    then have c0: "0 < ?c" by (simp add: div_greater_zero_iff)
    then have anc: "anc ?c b" by (auto simp: anc_def)
    have cb: "?c < 2 ^ Suc d" using ab(4) by (meson div_le_dividend le_less_trans)
    have lc: "node_level (?c - 1) = node_level (a - 1)"
      using log2_div [OF kb] c0 ab(3) le by (simp add: node_level_def)
    have "?c \<noteq> a" using anc ab(5) by auto
    then have "block pa a \<inter> block pa ?c = {}"
      using block_same_level [OF sh ab(1,2) c0 cb lc [symmetric]]
        block_same_level [OF sh c0 cb ab(1,2) lc] by (auto simp: neq_iff)
    with block_anc [OF sh ab(4) anc] show ?thesis by blast
  qed
  show ?thesis
    using lower [OF assms(2-5,6)] lower [OF assms(4,5,2,3,7)]
    by (cases "node_level (a - 1) \<le> node_level (b - 1)") auto
qed

lemma sum_blocks:
  assumes sh: "pa_shape s d pa" and A: "antichain A" "A \<subseteq> {.. 2 ^ Suc d - 1}"
  shows "(\<Sum>m \<in> A. node_size pa (m - 1)) \<le> 2 ^ (s + d)"
proof -
  have fin: "finite A" using A(2) finite_subset by blast
  have rng: "0 < m" "m < 2 ^ Suc d" if "m \<in> A" for m
  proof -
    show "0 < m" using A(1) that by (cases m) (auto simp: antichain_def)
    have "m \<le> 2 ^ Suc d - 1" using A(2) that by auto
    moreover have "(0 :: nat) < 2 ^ Suc d" by simp
    ultimately show "m < 2 ^ Suc d" by linarith
  qed
  have "(\<Sum>m \<in> A. node_size pa (m - 1)) = (\<Sum>m \<in> A. card (block pa m))" by (simp add: block_def)
  also have "\<dots> = card (\<Union>m \<in> A. block pa m)"
  proof (rule card_UN_disjoint [symmetric, OF fin])
    show "\<forall>i \<in> A. \<forall>j \<in> A. i \<noteq> j \<longrightarrow> block pa i \<inter> block pa j = {}"
    proof (intro ballI impI)
      fix i j assume ij: "i \<in> A" "j \<in> A" "i \<noteq> j"
      with A(1) have "\<not> anc i j" "\<not> anc j i" by (auto simp: antichain_def)
      then show "block pa i \<inter> block pa j = {}" by (rule block_disjoint [OF sh rng [OF ij(1)] rng [OF ij(2)]])
    qed
  qed (simp add: block_def)
  also have "\<dots> \<le> card (range_set (pa_addr_range pa))"
  proof (rule card_mono)
    show "(\<Union>m \<in> A. block pa m) \<subseteq> range_set (pa_addr_range pa)"
      using block_within [OF sh rng] by blast
  qed (simp add: range_set_def)
  also have "\<dots> = 2 ^ (s + d)" using sh by (simp add: pa_shape_def range_set_def)
  finally show ?thesis .
qed

subsection \<open>The operations keep the invariant\<close>

lemma node_size_update [simp]:
  "node_size (pa\<lparr>pa_tree := t\<rparr>) i = node_size pa i"
  "node_size (pa\<lparr>pa_free_space := n\<rparr>) i = node_size pa i"
  by (simp_all add: node_size_def)

lemma block_update [simp]:
  "block_allocation (pa\<lparr>pa_tree := t\<rparr>) m = block_allocation pa m"
  "block_allocation (pa\<lparr>pa_free_space := n\<rparr>) m = block_allocation pa m"
  by (simp_all add: block_allocation_def block_addr_def pa_start_addr_def)

lemma pa_shape_update:
  "pa_shape s d pa \<Longrightarrow> length t = length (pa_tree pa) \<Longrightarrow> pa_shape s d (pa\<lparr>pa_tree := t, pa_free_space := n\<rparr>)"
  by (simp add: pa_shape_def)

text \<open>The level that serves a request, and the fit of its blocks.\<close>

definition request_level :: "PmemAllocator \<Rightarrow> usize \<Rightarrow> nat" where
  "request_level pa sz = min (log2 (pa_max_size pa div sz)) (pa_depth pa)"

lemma request_level_fit:
  assumes sh: "pa_shape s d pa" and sz: "0 < sz" "sz \<le> pa_max_size pa"
  defines "l \<equiv> request_level pa sz"
  shows "l \<le> d" and "sz \<le> pa_max_size pa div 2 ^ l"
    and "pa_max_size pa div 2 ^ l < 2 * sz \<or> pa_max_size pa div 2 ^ l = pa_level_size pa"
proof -
  let ?M = "pa_max_size pa" and ?q = "pa_max_size pa div sz"
  have q: "0 < ?q" using sz by (simp add: div_greater_zero_iff)
  have depth: "pa_depth pa = d" and M: "?M = 2 ^ s * 2 ^ d" and ls: "pa_level_size pa = 2 ^ s"
    using sh by (simp_all add: pa_shape_def power_add)
  show "l \<le> d" using depth by (simp add: l_def request_level_def)
  have "2 ^ l \<le> ?q"
    using log2_ge_iff [OF q, of l] by (simp add: l_def request_level_def)
  then have "sz * 2 ^ l \<le> ?M" using sz(1) by (simp add: less_eq_div_iff_mult_less_eq mult.commute)
  then show "sz \<le> ?M div 2 ^ l" by (simp add: less_eq_div_iff_mult_less_eq)
  show "?M div 2 ^ l < 2 * sz \<or> ?M div 2 ^ l = pa_level_size pa"
  proof (cases "l = d")
    case True
    then show ?thesis using M ls by simp
  next
    case False
    then have "l = log2 ?q" using depth by (auto simp: l_def request_level_def min_def split: if_splits)
    then have "?q < 2 ^ Suc l" using log2_bounds(2) [OF q] by simp
    then have "?M < 2 * sz * 2 ^ l" using sz(1) by (simp add: div_less_iff_less_mult algebra_simps)
    then show ?thesis by (simp add: less_mult_imp_div_less)
  qed
qed

lemma pa_alloc_cases:
  assumes inv: "pa_inv A pa" and sz: "0 < sz" "sz \<le> pa_max_size pa"
  defines "l \<equiv> request_level pa sz"
  obtains (none) "pa_alloc pa sz = Ok (pa, None)" "\<forall>m. 2 ^ l \<le> m \<and> m < 2 ^ Suc l \<longrightarrow> \<not> available A m"
    | (some) m t where "2 ^ l \<le> m" "m < 2 ^ Suc l" "available A m"
      "\<forall>n. 2 ^ l \<le> n \<and> n < m \<longrightarrow> \<not> available A n"
      "tree_inv (insert m A) t" "length t = length (pa_tree pa)"
      "pa_alloc pa sz = Ok (pa\<lparr>pa_tree := t, pa_free_space := pa_free_space pa - node_size pa (m - 1)\<rparr>,
         Some (block_allocation pa m))"
      "node_size pa (m - 1) \<le> pa_free_space pa" "pa_free_space pa < usize_limit"
proof -
  from inv obtain s d where sh: "pa_shape s d pa" and tr: "tree_inv A (pa_tree pa)"
    and fs: "pa_free_space pa + (\<Sum>m \<in> A. node_size pa (m - 1)) = pa_max_size pa" by (auto simp: pa_inv_def)
  have ld: "l \<le> d" unfolding l_def by (rule request_level_fit(1) [OF sh sz])
  have len: "length (pa_tree pa) = 2 ^ Suc d - 1" and M: "pa_max_size pa = 2 ^ (s + d)"
    using sh by (simp_all add: pa_shape_def)
  have le: "(2 :: nat) ^ Suc l \<le> 2 ^ Suc d" using ld by (intro power_increasing) auto
  have lvl: "get_level_for_allocation_size pa sz = Ok (Some l)"
    using sz by (simp add: get_level_for_allocation_size_def udiv_def l_def request_level_def)
  have len': "2 ^ Suc l - 1 \<le> length (pa_tree pa)" using le len by linarith
  have start: "Suc (2 ^ l - 1) = 2 ^ l" by simp
  consider (ok) m T where "alloc_loop (pa_tree pa) (2 ^ l - 1) (2 ^ Suc l - 1) = (T, Some (m - 1))"
      "2 ^ l \<le> m" "m < 2 ^ Suc l" "available A m" "\<forall>n. 2 ^ l \<le> n \<and> n < m \<longrightarrow> \<not> available A n"
      "tree_inv (insert m A) T" "length T = length (pa_tree pa)"
    | (no) "alloc_loop (pa_tree pa) (2 ^ l - 1) (2 ^ Suc l - 1) = (pa_tree pa, None)"
      "\<forall>n. 2 ^ l \<le> n \<and> n < 2 ^ Suc l \<longrightarrow> \<not> available A n"
    using alloc_loop_correct [OF tr len', of "2 ^ l - 1"] unfolding start by auto
  then show ?thesis
  proof cases
    case no
    have "pa_alloc pa sz = Ok (pa, None)" using no(1) by (simp add: pa_alloc_def lvl)
    with no(2) show ?thesis by (intro none)
  next
    case ok
    have "(0 :: nat) < 2 ^ l" by simp
    then have m: "0 < m" "m < 2 ^ Suc d" using ok(2,3) le by linarith+
    have mA: "m \<notin> A" using ok(4) occ_self [of m A] m(1) by (auto simp: available_def)
    have fin: "finite A" using tr finite_subset [of A "{..length (pa_tree pa)}"] by (auto simp: tree_inv_def)
    have "(\<Sum>n \<in> insert m A. node_size pa (n - 1)) \<le> 2 ^ (s + d)"
      using ok(6,7) len by (intro sum_blocks [OF sh]) (auto simp: tree_inv_def)
    then have room: "node_size pa (m - 1) \<le> pa_free_space pa"
      using fs M mA fin by simp
    have lim: "pa_free_space pa < usize_limit"
      using fs M shape_limits(1) [OF sh] by linarith
    have loop: "alloc_loop (pa_tree pa) (2 ^ l - 1) (2 ^ (l + 1) - 1) = (T, Some (m - 1))"
      using ok(1) by simp
    have "pa_alloc pa sz = Ok (pa\<lparr>pa_tree := T, pa_free_space := pa_free_space pa - node_size pa (m - 1)\<rparr>,
         Some (block_allocation pa m))"
      by (simp only: pa_alloc_def lvl rbind.simps option.case prod.case loop node_allocation_eq [OF sh m]
          wrap_sub [OF room lim])
    then show ?thesis using ok(2-7) room lim by (intro some)
  qed
qed

lemma pa_inv_range:
  assumes "tree_inv A (pa_tree pa)" and "pa_shape s d pa" and "m \<in> A"
  shows "0 < m" and "m < 2 ^ Suc d"
proof -
  show "0 < m" using assms(1,3) by (cases m) (auto simp: tree_inv_def antichain_def)
  have "m \<le> 2 ^ Suc d - 1" using assms by (auto simp: tree_inv_def pa_shape_def)
  moreover have "(0 :: nat) < 2 ^ Suc d" by simp
  ultimately show "m < 2 ^ Suc d" by linarith
qed

lemma pa_dealloc_run:
  assumes inv: "pa_inv A pa" and m: "m \<in> A"
  shows "pa_dealloc pa (block_allocation pa m) =
      Ok (pa\<lparr>pa_tree := dealloc_node (pa_tree pa) (m - 1) 0,
            pa_free_space := pa_free_space pa + node_size pa (m - 1)\<rparr>)"
    and "pa_inv (A - {m}) (pa\<lparr>pa_tree := dealloc_node (pa_tree pa) (m - 1) 0,
            pa_free_space := pa_free_space pa + node_size pa (m - 1)\<rparr>)"
proof -
  from inv obtain s d where sh: "pa_shape s d pa" and tr: "tree_inv A (pa_tree pa)"
    and fs: "pa_free_space pa + (\<Sum>m \<in> A. node_size pa (m - 1)) = pa_max_size pa" by (auto simp: pa_inv_def)
  note r = pa_inv_range [OF tr sh m] and dn = dealloc_node_correct [OF tr m]
  have fin: "finite A" using tr finite_subset [of A "{..length (pa_tree pa)}"] by (auto simp: tree_inv_def)
  have sum: "(\<Sum>n \<in> A. node_size pa (n - 1)) = node_size pa (m - 1) + (\<Sum>n \<in> A - {m}. node_size pa (n - 1))"
    by (rule sum.remove [OF fin m])
  have M: "pa_max_size pa = 2 ^ (s + d)" using sh by (simp add: pa_shape_def)
  have "pa_free_space pa + node_size pa (m - 1) < usize_limit"
    using fs sum shape_limits(1) [OF sh] M by linarith
  then have wrap: "(pa_free_space pa + node_size pa (m - 1)) mod usize_limit = pa_free_space pa + node_size pa (m - 1)"
    by (rule mod_less)
  show "pa_dealloc pa (block_allocation pa m) =
      Ok (pa\<lparr>pa_tree := dealloc_node (pa_tree pa) (m - 1) 0,
            pa_free_space := pa_free_space pa + node_size pa (m - 1)\<rparr>)"
    by (simp only: pa_dealloc_def get_node_eq [OF sh r] rbind.simps wrap)
  show "pa_inv (A - {m}) (pa\<lparr>pa_tree := dealloc_node (pa_tree pa) (m - 1) 0,
            pa_free_space := pa_free_space pa + node_size pa (m - 1)\<rparr>)"
    using pa_shape_update [OF sh dn(2)] dn(1) fs sum unfolding pa_inv_def by auto
qed

lemma pa_inv_alloc:
  assumes inv: "pa_inv A pa" and t: "tree_inv (insert m A) t" "length t = length (pa_tree pa)"
    and av: "available A m" and m: "0 < m" and fs: "node_size pa (m - 1) \<le> pa_free_space pa"
  shows "pa_inv (insert m A) (pa\<lparr>pa_tree := t, pa_free_space := pa_free_space pa - node_size pa (m - 1)\<rparr>)"
proof -
  from inv obtain s d where sh: "pa_shape s d pa" and tr: "tree_inv A (pa_tree pa)"
    and sum: "pa_free_space pa + (\<Sum>m \<in> A. node_size pa (m - 1)) = pa_max_size pa" by (auto simp: pa_inv_def)
  have "finite A" using tr finite_subset [of A "{..length (pa_tree pa)}"] by (auto simp: tree_inv_def)
  moreover have "m \<notin> A" using av occ_self [of m A] m by (auto simp: available_def)
  ultimately have "(\<Sum>n \<in> insert m A. node_size pa (n - 1)) =
      node_size pa (m - 1) + (\<Sum>n \<in> A. node_size pa (n - 1))" by simp
  with pa_shape_update [OF sh t(2)] t(1) sum fs show ?thesis
    unfolding pa_inv_def by auto
qed

text \<open>The outcome of an allocation.\<close>

lemma pa_alloc_law:
  assumes inv: "pa_inv A pa" and sz: "0 < sz"
  shows "\<exists>pa' r. pa_alloc pa sz = Ok (pa', r) \<and>
    (case r of
       None \<Rightarrow> pa' = pa \<and>
         (pa_max_size pa < sz \<or>
          (\<forall>m. 0 < m \<and> node_level (m - 1) = request_level pa sz \<longrightarrow> \<not> available A m))
     | Some a \<Rightarrow> \<exists>m. available A m \<and> a = block_allocation pa m \<and> pa_inv (insert m A) pa' \<and>
         sz \<le> al_size a \<and> (al_size a < 2 * sz \<or> al_size a = pa_level_size pa) \<and>
         block pa m \<subseteq> range_set (pa_addr_range pa) \<and> (\<forall>n \<in> A. block pa m \<inter> block pa n = {}))"
proof (cases "sz \<le> pa_max_size pa")
  case False
  then show ?thesis by (simp add: pa_alloc_def get_level_for_allocation_size_def)
next
  case True
  from inv obtain s d where sh: "pa_shape s d pa" and tr: "tree_inv A (pa_tree pa)" by (auto simp: pa_inv_def)
  let ?l = "request_level pa sz"
  show ?thesis
  proof (cases rule: pa_alloc_cases [OF inv sz True])
    case 1
    have "\<not> available A m" if "0 < m" "node_level (m - 1) = ?l" for m
      using 1(2) heap_in_level [OF that(1)] that(2) by simp
    with 1(1) show ?thesis by auto
  next
    case (2 m t)
    have m0: "0 < m" using 2(1) by (cases m) auto
    have lm: "node_level (m - 1) = ?l" by (rule heap_level [OF 2(1,2)])
    have "(2 :: nat) ^ Suc ?l \<le> 2 ^ Suc d" using request_level_fit(1) [OF sh sz True] by (intro power_increasing) auto
    then have md: "m < 2 ^ Suc d" using 2(2) by linarith
    have "al_size (block_allocation pa m) = pa_max_size pa div 2 ^ ?l"
      by (simp add: block_allocation_def node_size_def lm del: One_nat_def)
    then have fit: "sz \<le> al_size (block_allocation pa m)"
        "al_size (block_allocation pa m) < 2 * sz \<or> al_size (block_allocation pa m) = pa_level_size pa"
      using request_level_fit(2,3) [OF sh sz True] by simp_all
    have "block pa m \<inter> block pa n = {}" if "n \<in> A" for n
      using 2(3) that pa_inv_range [OF tr sh that]
      by (intro block_disjoint [OF sh m0 md]) (auto simp: available_def occ_def)
    with 2(3,7) fit block_within [OF sh m0 md] pa_inv_alloc [OF inv 2(5,6,3) m0 2(8)] show ?thesis by auto
  qed
qed

subsection \<open>Properties\<close>


text \<open>An allocator of eight pages, all free.\<close>

definition example_pa :: PmemAllocator where
  "example_pa =
     \<lparr>pa_addr_range = \<lparr>r_addr = 0x10000, r_size = 0x8000\<rparr>, pa_tree = replicate 15 0, pa_depth = 3,
      pa_max_size = 0x8000, pa_level_size = 0x1000, pa_free_space = 0x8000\<rparr>"

lemma tree_inv_empty: "tree_inv {} (replicate n 0)"
  by (simp add: tree_inv_def antichain_def tree_is_def status_def occ_def)

lemma example_pa_inv: "pa_inv {} example_pa"
proof -
  have "pa_shape 12 3 example_pa"
    by (auto simp: pa_shape_def example_pa_def range_wf_def virt_ok_def)
  then show ?thesis by (auto simp: pa_inv_def tree_inv_empty example_pa_def)
qed


text \<open>
  C18. Deallocation.  Giving back the block of an allocated node never panics and leaves a tree
  in which exactly that node is free again, with the free space grown by its size.
\<close>

theorem pmem_dealloc_spec:
  assumes "pa_inv A pa" and "m \<in> A"
  shows "\<exists>pa'. pa_dealloc pa (block_allocation pa m) = Ok pa' \<and> pa_inv (A - {m}) pa' \<and>
    pa_free_space pa' = pa_free_space pa + al_size (block_allocation pa m)"
  using pa_dealloc_run [OF assms] by (simp add: block_allocation_def)

theorem pmem_dealloc_spec_witness:
  "\<exists>pa' a pa''. pa_alloc example_pa 0x1000 = Ok (pa', Some a) \<and> pa_dealloc pa' a = Ok pa'' \<and> pa_inv {} pa''"
proof -
  have av: "available {} 8" by (simp add: available_def occ_def)
  have sz: "0 < (0x1000 :: nat)" "0x1000 \<le> pa_max_size example_pa" by (simp_all add: example_pa_def)
  have "log2 8 = 3" using log2_power [of 3] by simp
  then have l: "request_level example_pa 0x1000 = 3" by (simp add: request_level_def example_pa_def)
  show ?thesis
  proof (cases rule: pa_alloc_cases [OF example_pa_inv sz, unfolded l])
    case 1
    from 1(2) av show ?thesis by (elim allE [of _ 8]) simp
  next
    case (2 m t)
    have m0: "0 < m" using 2(1) by (cases m) auto
    let ?pa = "example_pa\<lparr>pa_tree := t, pa_free_space := pa_free_space example_pa - node_size example_pa (m - 1)\<rparr>"
    have "pa_inv {m} ?pa" using pa_inv_alloc [OF example_pa_inv 2(5,6,3) m0 2(8)] .
    from pmem_dealloc_spec [OF this, of m] 2(7) show ?thesis by auto
  qed
qed

text \<open>
  C29. Allocating and giving the block back restores the allocator exactly, every status byte
  and the free space included.
\<close>

theorem pmem_alloc_dealloc:
  assumes inv: "pa_inv A pa" and sz: "0 < sz" and run: "pa_alloc pa sz = Ok (pa', Some a)"
  shows "pa_dealloc pa' a = Ok pa"
proof -
  have le: "sz \<le> pa_max_size pa"
    using run by (cases "sz \<le> pa_max_size pa") (auto simp: pa_alloc_def get_level_for_allocation_size_def)
  have tr: "tree_inv A (pa_tree pa)" using inv by (auto simp: pa_inv_def)
  show ?thesis
  proof (cases rule: pa_alloc_cases [OF inv sz le])
    case 1
    with run show ?thesis by simp
  next
    case (2 m t)
    have m0: "0 < m" using 2(1) by (cases m) auto
    have mA: "m \<notin> A" using 2(3) occ_self [of m A] m0 by (auto simp: available_def)
    let ?sz = "node_size pa (m - 1)"
    let ?pa = "pa\<lparr>pa_tree := t, pa_free_space := pa_free_space pa - ?sz\<rparr>"
    have "pa' = ?pa \<and> a = block_allocation pa m" using run unfolding 2(7) by auto
    then have pa': "pa' = ?pa" and a: "a = block_allocation ?pa m" by simp_all
    have inv': "pa_inv (insert m A) ?pa" by (rule pa_inv_alloc [OF inv 2(5,6,3) m0 2(8)])
    have "tree_inv (insert m A - {m}) (dealloc_node t (m - 1) 0)"
        "length (dealloc_node t (m - 1) 0) = length (pa_tree pa)"
      using dealloc_node_correct [OF 2(5), of m] 2(6) by simp_all
    then have "dealloc_node t (m - 1) 0 = pa_tree pa"
      using mA tr by (intro tree_inv_unique [of A]) (simp_all add: insert_Diff_if)
    with pa_dealloc_run(1) [OF inv', of m] 2(8) pa' a show ?thesis by simp
  qed
qed

theorem pmem_alloc_dealloc_witness:
  "\<exists>pa' a. pa_alloc example_pa 0x1000 = Ok (pa', Some a) \<and> pa_dealloc pa' a = Ok example_pa"
proof -
  have av: "available {} 8" by (simp add: available_def occ_def)
  have sz: "0 < (0x1000 :: nat)" "0x1000 \<le> pa_max_size example_pa" by (simp_all add: example_pa_def)
  have "log2 8 = 3" using log2_power [of 3] by simp
  then have l: "request_level example_pa 0x1000 = 3" by (simp add: request_level_def example_pa_def)
  show ?thesis
  proof (cases rule: pa_alloc_cases [OF example_pa_inv sz, unfolded l])
    case 1
    from 1(2) av show ?thesis by (elim allE [of _ 8]) simp
  next
    case (2 m t)
    from pmem_alloc_dealloc [OF example_pa_inv sz(1) 2(7)] 2(7) show ?thesis by blast
  qed
qed

lemma canonical_range_small:
  assumes "range_wf virt_ok r"
  shows "r_size r < 2 ^ 48"
proof -
  have ok: "virt_ok (r_addr r)" "virt_ok (r_addr r + r_size r)" using assms by (simp_all add: range_wf_def)
  have "\<not> virt_ok (2 ^ 47)" by (simp add: virt_ok_def HIGHER_HALF_START_def)
  then have "\<not> (r_addr r \<le> 2 ^ 47 \<and> 2 ^ 47 \<le> r_addr r + r_size r)" using assms by (auto simp: range_wf_def)
  with ok show ?thesis by (auto simp: virt_ok_def HIGHER_HALF_START_def)
qed

text \<open>
  C30. The constructor establishes the invariant: an allocator it makes from a region of
  canonical addresses has every node free.
\<close>

theorem pmem_try_from_inv:
  assumes "pa_try_from vrange n level_size = Some pa" and wf: "range_wf virt_ok vrange"
  shows "pa_inv {} pa"
proof -
  from assms(1) have req: "required_tree_array_size vrange level_size = Some n"
    and pa: "pa = \<lparr>pa_addr_range = vrange, pa_tree = replicate n 0,
              pa_depth = log2 (r_size vrange div level_size), pa_max_size = r_size vrange,
              pa_level_size = level_size, pa_free_space = r_size vrange\<rparr>"
    by (auto simp: pa_try_from_def split: option.splits if_splits)
  from req obtain s e where s: "level_size = 2 ^ s" and e: "r_size vrange = 2 ^ e"
    and n: "n = 2 * (r_size vrange div level_size) - 1" and le: "(2 :: nat) ^ s \<le> 2 ^ e"
    by (auto simp: required_tree_array_size_def is_power2_size_align_def is_power_of_two_iff split: if_splits)
  have se: "s \<le> e" using le by (metis one_less_numeral_iff power_increasing_iff semiring_norm(76))
  have "(2 :: nat) ^ e < 2 ^ 48" using canonical_range_small [OF wf] e by simp
  then have "e < 48" by (metis one_less_numeral_iff power_strict_increasing_iff semiring_norm(76))
  moreover have "(2 :: nat) ^ e div 2 ^ s = 2 ^ (e - s)" using se by (simp add: power_diff)
  ultimately have "pa_shape s (e - s) pa"
    using wf se by (simp add: pa_shape_def pa s e n)
  then show ?thesis by (auto simp: pa_inv_def pa tree_inv_empty)
qed

theorem pmem_try_from_inv_witness:
  "\<exists>pa. pa_try_from (range_new 0x10000 0x8000) 15 0x1000 = Some pa \<and> pa_inv {} pa"
proof -
  have "(2 :: nat) ^ 15 \<le> align_of 0x10000 \<longleftrightarrow> 2 ^ 15 dvd (0x10000 :: nat)" by (rule align_of_dvd) simp_all
  moreover have "is_power_of_two 0x1000" "is_power_of_two 0x8000"
    unfolding is_power_of_two_iff by (intro exI [of _ 12], simp) (intro exI [of _ 15], simp)
  ultimately obtain pa where "pa_try_from (range_new 0x10000 0x8000) 15 0x1000 = Some pa"
    by (simp add: pa_try_from_def required_tree_array_size_def is_power2_size_align_def range_new_def)
  with pmem_try_from_inv [OF this] show ?thesis
    using low_range_wf [of "range_new 0x10000 0x8000"] by (simp add: range_new_def)
qed

text \<open>
  C31. Growing in place does not reach the requested size.  The loop that climbs to larger
  nodes tests the wrong inequality and stops after one level when three or more are needed:
  the caller, whose request is reported as a success, gets a block of twice the old size,
  smaller than what was asked for.  The count of free bytes is not adjusted either.
\<close>

theorem realloc_in_place_too_small:
  assumes inv: "pa_inv A pa" and m: "m \<in> A" "even m" "\<not> occ A (Suc m)"
    and sz: "0 < new_size" "new_size \<le> pa_max_size pa"
    and far: "request_level pa new_size + 3 \<le> node_level (m - 1)"
  shows "\<exists>pa' a. pa_realloc_in_place pa (block_allocation pa m) new_size = Ok (pa', Some a) \<and>
    al_size a = 2 * al_size (block_allocation pa m) \<and> al_size a < new_size \<and>
    pa_free_space pa' = pa_free_space pa"
proof -
  let ?l = "node_level (m - 1)" and ?r = "request_level pa new_size" and ?P = "m div 2"
  from inv obtain s d where sh: "pa_shape s d pa" and tr: "tree_inv A (pa_tree pa)" by (auto simp: pa_inv_def)
  note rg = pa_inv_range [OF tr sh m(1)]
  note fm = block_facts [OF sh rg]
  have two: "2 \<le> m" using m(2) rg(1) by presburger
  have P0: "0 < ?P" "?P < 2 ^ Suc d" using two rg(2) by auto
  have par: "node_parent (m - 1) = Some (?P - 1)" using two m(2) by (auto simp: node_parent_def elim!: evenE)
  have lP: "node_level (?P - 1) = ?l - 1" using log2_div [of 1 m] two P0(1) by (simp add: node_level_def)
  have P4: "2 \<le> ?P" using lP far by (cases "?P = 1") (use P0(1) in auto)
  from P4 have "?P - 1 \<noteq> 0" by linarith
  then obtain q where q: "node_parent (?P - 1) = Some q" by (simp only: node_parent_def if_False)
  have Sq: "Suc q = ?P div 2" using parent_Suc [OF q] P0(1) by simp
  have lq: "node_level q = ?l - 2" using log2_div [of 1 ?P] P4 Sq lP by (simp add: node_level_def) linarith
  have Pl: "?P - 1 < length (pa_tree pa)" using sh P0 by (auto simp: pa_shape_def)
  have "?P \<noteq> m" using two by simp
  then have PA: "?P \<notin> A" using tr m(1) anc_half [OF two] unfolding tree_inv_def antichain_def by blast
  have "pa_tree pa ! (?P - 1) = status A ?P"
    using tr tree_isD [of "pa_tree pa" "status A" "?P - 1"] Pl P0(1) by (simp add: tree_inv_def)
  then have nr: "\<not> ts_contains (pa_tree pa ! (?P - 1)) OCCUPY_RIGHT"
    using PA m(2,3) by (auto simp: status_def status_bits elim!: evenE)
  have grow: "grow_loop (pa_tree pa) (?P - 1) ?l ?r = ((pa_tree pa)[?P - 1 := BUSY], Some (?P - 1))"
  proof -
    have "?r < node_level q" using lq far by linarith
    with nr q show ?thesis by (subst grow_loop.simps) (simp add: Let_def del: One_nat_def)
  qed
  have lvl: "get_level_for_allocation_size pa new_size = Ok (Some ?r)"
    using sz by (simp add: get_level_for_allocation_size_def udiv_def request_level_def)
  note fP = block_facts [OF sh P0]
  have run: "pa_realloc_in_place pa (block_allocation pa m) new_size =
      Ok (pa\<lparr>pa_tree := clear_loop ((pa_tree pa)[?P - 1 := BUSY]) (?P - 1) ?l\<rparr>, Some (block_allocation pa ?P))"
    using far unfolding pa_realloc_in_place_def get_node_eq [OF sh rg] rbind.simps Let_def lvl option.case par
      expect_simps grow prod.case node_allocation_eq [OF sh P0] by simp
  have sizes: "al_size (block_allocation pa m) = 2 ^ (s + (d - ?l))"
      "al_size (block_allocation pa ?P) = 2 ^ (s + (d - (?l - 1)))"
    using fm(2) fP(2) lP by (simp_all add: block_allocation_def)
  have twice: "(2 :: nat) ^ (s + (d - (?l - 1))) = 2 * 2 ^ (s + (d - ?l))"
    using fm(1) far by (simp add: Suc_diff_le flip: power_Suc)
  have rd: "?r \<le> d" using far fm(1) by linarith
  have ls: "pa_level_size pa = 2 ^ s" and M: "pa_max_size pa = 2 ^ (s + (d - ?r)) * 2 ^ ?r"
    using sh rd by (simp_all add: pa_shape_def flip: power_add)
  have "(2 :: nat) ^ (s + (d - ?r)) \<noteq> 2 ^ s" using far fm(1) by simp
  moreover have "pa_max_size pa div 2 ^ ?r = 2 ^ (s + (d - ?r))" unfolding M by simp
  ultimately have "2 ^ (s + (d - ?r)) < 2 * new_size"
    using request_level_fit(3) [OF sh sz] unfolding ls by (elim disjE) (simp_all only:)
  moreover have "Suc (s + (d - (?l - 1))) \<le> s + (d - ?r)" using far fm(1) by linarith
  from power_increasing [OF this, of "2 :: nat"]
  have "2 * (2 :: nat) ^ (s + (d - (?l - 1))) \<le> 2 ^ (s + (d - ?r))" by simp
  ultimately have "2 ^ (s + (d - (?l - 1))) < new_size" by linarith
  with run sizes twice show ?thesis by simp
qed

text \<open>The witness: one page allocated out of eight, to be grown to all of them.\<close>

definition one_page_pa :: PmemAllocator where
  "one_page_pa =
     example_pa\<lparr>pa_tree := [2, 2, 0, 2, 0, 0, 0, 19, 0, 0, 0, 0, 0, 0, 0], pa_free_space := 0x7000\<rparr>"

lemma one_page_inv: "pa_inv {8} one_page_pa"
proof -
  have occ8: "occ {8} m \<longleftrightarrow> m \<in> {1, 2, 4, 8}" for m
  proof
    assume "occ {8} m"
    then obtain k where k: "m = 8 div 2 ^ k" "0 < m" by (auto simp: occ_def anc_def)
    then have "k < 4" using power_increasing [of 4 k "2 :: nat"] by (cases "k < 4") (auto simp: not_less)
    then consider "k = 0" | "k = 1" | "k = 2" | "k = 3" by linarith
    then show "m \<in> {1, 2, 4, 8}" using k(1) by cases simp_all
  next
    assume "m \<in> {1, 2, 4, 8}"
    then consider "m = 8 div 2 ^ 3" | "m = 8 div 2 ^ 2" | "m = 8 div 2 ^ 1" | "m = 8 div 2 ^ 0" by auto
    then have "\<exists>k. m = 8 div 2 ^ k" by cases blast+
    with \<open>m \<in> {1, 2, 4, 8}\<close> show "occ {8} m" by (auto simp: occ_def anc_def)
  qed
  have "pa_tree one_page_pa = map (\<lambda>i. status {8} (Suc i)) [0..<15]"
    by (simp add: one_page_pa_def upt_rec status_def occ8 status_bits)
  then have "tree_is (pa_tree one_page_pa) (status {8})" by (simp add: tree_is_def)
  then have "tree_inv {8} (pa_tree one_page_pa)"
    by (auto simp: tree_inv_def antichain_def one_page_pa_def)
  moreover have "pa_shape 12 3 one_page_pa"
    by (auto simp: pa_shape_def one_page_pa_def example_pa_def range_wf_def virt_ok_def)
  moreover have "node_level 7 = 3" using log2_power [of 3] by (simp add: node_level_def)
  then have "node_size one_page_pa 7 = 0x1000"
    by (simp add: node_size_def one_page_pa_def example_pa_def)
  moreover have "pa_free_space one_page_pa + 0x1000 = pa_max_size one_page_pa"
    by (simp add: one_page_pa_def example_pa_def)
  ultimately show ?thesis unfolding pa_inv_def by simp blast
qed

theorem realloc_in_place_too_small_witness:
  "\<exists>pa' a. pa_realloc_in_place one_page_pa (block_allocation one_page_pa 8) 0x8000 = Ok (pa', Some a) \<and>
     al_size a < 0x8000"
proof -
  have "\<not> occ {8} (Suc 8)" using anc_le(1) [of "Suc 8" 8] by (auto simp: occ_def)
  moreover have "node_level (8 - 1) = 3" using log2_power [of 3] by (simp add: node_level_def)
  moreover have "request_level one_page_pa 0x8000 = 0"
    using log2_power [of 0] by (simp add: request_level_def one_page_pa_def example_pa_def)
  moreover have "pa_max_size one_page_pa = 0x8000" by (simp add: one_page_pa_def example_pa_def)
  ultimately show ?thesis
    using realloc_in_place_too_small [OF one_page_inv, of 8 "0x8000"] by fastforce
qed

end
