(* ===== verification/Pmem_Manager.thy ===== *)
theory Pmem_Manager
  imports Pmem_Allocator
begin

text \<open>
  \<^verbatim>\<open>kernel/src/alloc/pmem_manager/mod.rs\<close>: the allocator of physical memory over all zones.  Each
  zone has an allocator of its own; a request is offered to all of them, beginning with a different
  one each time, and an allocation is returned to the zone it carries the index of, or to the one
  that a search for its address finds.

  The memory that \<open>realloc\<close> copies is not part of the state.
\<close>

record PmemManager =
  pm_allocers :: "PmemAllocator list"
  pm_next_index :: usize

definition get_allocation_size_for_layout :: "PageLayout \<Rightarrow> usize kresult" where
  "get_allocation_size_for_layout layout = rbind (log2_up (pl_size layout)) (\<lambda>k. if k < 64 then Ok (2 ^ k) else Panic)"

definition get_allocator_for_allocation :: "PmemManager \<Rightarrow> Allocation \<Rightarrow> nat kresult" where
  "get_allocator_for_allocation pm allocation =
     (case zindex allocation of
        Some index \<Rightarrow> if index < length (pm_allocers pm) then Ok index else Panic
      | None \<Rightarrow>
          (case binary_search_by_key pa_start_addr (al_ptr allocation) (pm_allocers pm) of
             Found index \<Rightarrow> Ok index
           | NotFound index \<Rightarrow> if index \<noteq> 0 then Ok (index - 1) else Panic))"

text \<open>The loop of \<open>alloc\<close>: \<open>k\<close> more allocators to ask, \<open>i\<close> the index before the reduction.\<close>

primrec pm_alloc_loop ::
  "nat \<Rightarrow> nat \<Rightarrow> PmemAllocator list \<Rightarrow> usize \<Rightarrow> (PmemAllocator list \<times> Allocation option) kresult" where
  "pm_alloc_loop 0 i as sz = Ok (as, None)"
| "pm_alloc_loop (Suc k) i as sz =
     (let j = i mod length as in
      rbind (pa_alloc (as ! j) sz) (\<lambda>(pa, r).
        case r of
          Some allocation \<Rightarrow> Ok (as[j := pa], Some (allocation\<lparr>zindex := Some j\<rparr>))
        | None \<Rightarrow> pm_alloc_loop k (i + 1) (as[j := pa]) sz))"

definition pm_alloc :: "PmemManager \<Rightarrow> PageLayout \<Rightarrow> (PmemManager \<times> Allocation option) kresult" where
  "pm_alloc pm layout =
     rbind (assert_r (pl_align layout \<le> align_of (pl_size layout))) (\<lambda>_.
     let start_index = pm_next_index pm in
     rbind (uadd start_index (length (pm_allocers pm))) (\<lambda>_.
     rbind (pm_alloc_loop (length (pm_allocers pm)) start_index (pm_allocers pm) (pl_size layout)) (\<lambda>(as, r).
     Ok (\<lparr>pm_allocers = as, pm_next_index = (start_index + 1) mod usize_limit\<rparr>, r))))"

definition pm_dealloc :: "PmemManager \<Rightarrow> Allocation \<Rightarrow> PmemManager kresult" where
  "pm_dealloc pm allocation =
     rbind (get_allocator_for_allocation pm allocation) (\<lambda>j.
     rbind (pa_dealloc (pm_allocers pm ! j) allocation) (\<lambda>pa.
     Ok (pm\<lparr>pm_allocers := (pm_allocers pm)[j := pa]\<rparr>)))"

definition pm_realloc_inner ::
  "PmemManager \<Rightarrow> nat \<Rightarrow> Allocation \<Rightarrow> PageLayout \<Rightarrow> (PmemManager \<times> Allocation option) kresult" where
  "pm_realloc_inner pm j allocation layout =
     rbind (assert_r (pl_align layout \<le> align_of (pl_size layout))) (\<lambda>_.
     rbind (pa_realloc_in_place (pm_allocers pm ! j) allocation (pl_size layout)) (\<lambda>(pa, r).
     let pm1 = pm\<lparr>pm_allocers := (pm_allocers pm)[j := pa]\<rparr> in
     case r of
       Some new_allocation \<Rightarrow> Ok (pm1, Some new_allocation)
     | None \<Rightarrow>
         rbind (pm_alloc pm1 layout) (\<lambda>(pm2, out).
         case out of
           None \<Rightarrow> Ok (pm2, None)
         | Some out \<Rightarrow>
             rbind (pa_dealloc (pm_allocers pm2 ! j) allocation) (\<lambda>pa.
             Ok (pm2\<lparr>pm_allocers := (pm_allocers pm2)[j := pa]\<rparr>, Some out)))))"

definition pm_realloc ::
  "PmemManager \<Rightarrow> Allocation \<Rightarrow> PageLayout \<Rightarrow> (PmemManager \<times> Allocation option) kresult" where
  "pm_realloc pm allocation layout =
     rbind (get_allocator_for_allocation pm allocation) (\<lambda>j. pm_realloc_inner pm j allocation layout)"

definition pm_realloc_in_place ::
  "PmemManager \<Rightarrow> Allocation \<Rightarrow> PageLayout \<Rightarrow> (PmemManager \<times> Allocation option) kresult" where
  "pm_realloc_in_place pm allocation layout =
     rbind (assert_r (pl_align layout \<le> align_of (pl_size layout))) (\<lambda>_.
     rbind (get_allocator_for_allocation pm allocation) (\<lambda>j.
     rbind (pa_realloc_in_place (pm_allocers pm ! j) allocation (pl_size layout)) (\<lambda>(pa, r).
     Ok (pm\<lparr>pm_allocers := (pm_allocers pm)[j := pa]\<rparr>, r))))"

subsection \<open>Well-formed managers\<close>

text \<open>
  Each zone satisfies the invariant of its allocator; the zones are sorted by address and do not
  overlap.  \<open>AA j\<close> is the set of nodes that are allocated in zone \<open>j\<close>.
\<close>

definition zone_before :: "PmemAllocator \<Rightarrow> PmemAllocator \<Rightarrow> bool" where
  "zone_before a b \<longleftrightarrow> pa_start_addr a + pa_max_size a \<le> pa_start_addr b"

definition pm_inv :: "(nat \<Rightarrow> nat set) \<Rightarrow> PmemManager \<Rightarrow> bool" where
  "pm_inv AA pm \<longleftrightarrow>
     (\<forall>j < length (pm_allocers pm). pa_inv (AA j) (pm_allocers pm ! j)) \<and> sorted_wrt zone_before (pm_allocers pm)"

text \<open>What identifies an allocation, whether or not it carries the index of its zone.\<close>

definition zone_allocation :: "PmemManager \<Rightarrow> nat \<Rightarrow> nat \<Rightarrow> usize option \<Rightarrow> Allocation" where
  "zone_allocation pm j m z = (block_allocation (pm_allocers pm ! j) m)\<lparr>zindex := z\<rparr>"

abbreviation zone_block :: "PmemManager \<Rightarrow> nat \<Rightarrow> nat \<Rightarrow> usize set" where
  "zone_block pm j m \<equiv> block (pm_allocers pm ! j) m"

lemma pa_alloc_frame:
  assumes "pa_alloc pa sz = Ok (pa', r)"
  shows "\<exists>t f. pa' = pa\<lparr>pa_tree := t, pa_free_space := f\<rparr>"
proof -
  obtain l where l: "get_level_for_allocation_size pa sz = Ok l"
    and rest: "(case l of None \<Rightarrow> Ok (pa, None)
       | Some level \<Rightarrow>
           (case alloc_loop (pa_tree pa) (2 ^ level - 1) (2 ^ (level + 1) - 1) of
              (tree, None) \<Rightarrow> Ok (pa\<lparr>pa_tree := tree\<rparr>, None)
            | (tree, Some node) \<Rightarrow>
                rbind (node_allocation pa node) (\<lambda>a.
                  Ok (pa\<lparr>pa_tree := tree,
                        pa_free_space := (pa_free_space pa + (usize_limit - node_size pa node)) mod usize_limit\<rparr>,
                      Some a)))) = Ok (pa', r)"
    using assms unfolding pa_alloc_def rbind_Ok_iff by blast
  have same: "pa = pa\<lparr>pa_tree := pa_tree pa, pa_free_space := pa_free_space pa\<rparr>"
    "pa\<lparr>pa_tree := t\<rparr> = pa\<lparr>pa_tree := t, pa_free_space := pa_free_space pa\<rparr>" for t by simp_all
  show ?thesis
  proof (cases l)
    case None
    then have "pa' = pa" using rest by simp
    then show ?thesis using same(1) by blast
  next
    case (Some level)
    obtain t x where t: "alloc_loop (pa_tree pa) (2 ^ level - 1) (2 ^ (level + 1) - 1) = (t, x)" by fastforce
    show ?thesis
    proof (cases x)
      case None
      then have "pa' = pa\<lparr>pa_tree := t\<rparr>" using rest Some t by simp
      then show ?thesis using same(2) by blast
    next
      case x: (Some node)
      have "rbind (node_allocation pa node) (\<lambda>a. Ok (pa\<lparr>pa_tree := t,
          pa_free_space := (pa_free_space pa + (usize_limit - node_size pa node)) mod usize_limit\<rparr>, Some a)) = Ok (pa', r)"
        using rest Some t x by simp
      then show ?thesis unfolding rbind_Ok_iff by blast
    qed
  qed
qed

lemma pa_dealloc_zindex: "pa_dealloc pa (a\<lparr>zindex := z\<rparr>) = pa_dealloc pa a"
  by (simp add: pa_dealloc_def get_node_from_allocation_def as_vrange_def)

lemma pa_inv_pos: "pa_inv A pa \<Longrightarrow> 0 < pa_max_size pa"
  by (auto simp: pa_inv_def pa_shape_def)

lemma zone_starts:
  assumes "pm_inv AA pm"
  shows "sorted_wrt (<) (map pa_start_addr (pm_allocers pm))"
proof -
  have "pa_start_addr (pm_allocers pm ! i) < pa_start_addr (pm_allocers pm ! j)" if "i < j" "j < length (pm_allocers pm)" for i j
  proof -
    have "zone_before (pm_allocers pm ! i) (pm_allocers pm ! j)" "pa_inv (AA i) (pm_allocers pm ! i)"
      using assms that by (auto simp: pm_inv_def sorted_wrt_iff_nth_less)
    then show ?thesis using pa_inv_pos by (fastforce simp: zone_before_def)
  qed
  then show ?thesis by (auto simp: sorted_wrt_map sorted_wrt_iff_nth_less)
qed

lemma block_in_zone:
  assumes "pa_inv A pa" and "m \<in> A"
  shows "block pa m \<subseteq> {pa_start_addr pa ..< pa_start_addr pa + pa_max_size pa}" and "0 < m"
    and "block_addr pa m \<in> block pa m"
proof -
  obtain s d where sh: "pa_shape s d pa" and tr: "tree_inv A (pa_tree pa)" using assms(1) by (auto simp: pa_inv_def)
  note m = pa_inv_range [OF tr sh assms(2)]
  show "0 < m" by (rule m)
  have "range_set (pa_addr_range pa) = {pa_start_addr pa ..< pa_start_addr pa + pa_max_size pa}"
    using sh by (simp add: range_set_def pa_start_addr_def pa_shape_def)
  with block_within [OF sh m] show "block pa m \<subseteq> {pa_start_addr pa ..< pa_start_addr pa + pa_max_size pa}" by simp
  show "block_addr pa m \<in> block pa m" using block_facts(2) [OF sh m] by (simp add: block_def)
qed

lemma zones_disjoint:
  assumes "pm_inv AA pm" and "i < length (pm_allocers pm)" "j < length (pm_allocers pm)" "i \<noteq> j"
    and "X \<subseteq> {pa_start_addr (pm_allocers pm ! i) ..< pa_start_addr (pm_allocers pm ! i) + pa_max_size (pm_allocers pm ! i)}"
    and "Y \<subseteq> {pa_start_addr (pm_allocers pm ! j) ..< pa_start_addr (pm_allocers pm ! j) + pa_max_size (pm_allocers pm ! j)}"
  shows "X \<inter> Y = {}"
proof -
  have "zone_before (pm_allocers pm ! i) (pm_allocers pm ! j) \<or> zone_before (pm_allocers pm ! j) (pm_allocers pm ! i)"
    using assms(1-4) by (cases "i < j") (auto simp: pm_inv_def sorted_wrt_iff_nth_less)
  then show ?thesis using assms(5,6) by (fastforce simp: zone_before_def)
qed

text \<open>A change of one zone.\<close>

lemma pm_inv_upd:
  assumes inv: "pm_inv AA pm" and j: "j < length (pm_allocers pm)" and pa: "pa_inv A pa"
    and same: "pa_start_addr pa = pa_start_addr (pm_allocers pm ! j)" "pa_max_size pa = pa_max_size (pm_allocers pm ! j)"
  shows "pm_inv (AA(j := A)) \<lparr>pm_allocers = (pm_allocers pm)[j := pa], pm_next_index = n\<rparr>"
proof -
  have "zone_before pa b \<longleftrightarrow> zone_before (pm_allocers pm ! j) b" "zone_before b pa \<longleftrightarrow> zone_before b (pm_allocers pm ! j)" for b
    using same by (simp_all add: zone_before_def)
  then show ?thesis
    using inv pa j by (auto simp: pm_inv_def nth_list_update sorted_wrt_iff_nth_less)
qed

subsection \<open>Allocation\<close>

definition zone_alloc_ok :: "(nat \<Rightarrow> nat set) \<Rightarrow> PmemManager \<Rightarrow> usize \<Rightarrow> nat \<Rightarrow> nat \<Rightarrow> PmemAllocator \<Rightarrow> bool" where
  "zone_alloc_ok AA pm sz j m pa' \<longleftrightarrow>
     j < length (pm_allocers pm) \<and> m \<notin> AA j \<and> pa_inv (insert m (AA j)) pa' \<and>
     (\<exists>t f. pa' = (pm_allocers pm ! j)\<lparr>pa_tree := t, pa_free_space := f\<rparr>) \<and>
     sz \<le> al_size (block_allocation (pm_allocers pm ! j) m) \<and>
     (al_size (block_allocation (pm_allocers pm ! j) m) < 2 * sz \<or>
      al_size (block_allocation (pm_allocers pm ! j) m) = pa_level_size (pm_allocers pm ! j)) \<and>
     zone_block pm j m \<subseteq> range_set (pa_addr_range (pm_allocers pm ! j)) \<and>
     (\<forall>n \<in> AA j. zone_block pm j m \<inter> zone_block pm j n = {})"

lemma zone_alloc:
  assumes inv: "pm_inv AA pm" and sz: "0 < sz" and j: "j < length (pm_allocers pm)"
  obtains (no) "pa_alloc (pm_allocers pm ! j) sz = Ok (pm_allocers pm ! j, None)"
    | (yes) m pa' where "pa_alloc (pm_allocers pm ! j) sz = Ok (pa', Some (block_allocation (pm_allocers pm ! j) m))"
        "zone_alloc_ok AA pm sz j m pa'"
proof -
  let ?pa = "pm_allocers pm ! j"
  have pj: "pa_inv (AA j) ?pa" using inv j by (simp add: pm_inv_def)
  obtain pa' r where run: "pa_alloc ?pa sz = Ok (pa', r)" and r: "case r of
       None \<Rightarrow> pa' = ?pa \<and>
         (pa_max_size ?pa < sz \<or>
          (\<forall>m. 0 < m \<and> node_level (m - 1) = request_level ?pa sz \<longrightarrow> \<not> available (AA j) m))
     | Some a \<Rightarrow> \<exists>m. available (AA j) m \<and> a = block_allocation ?pa m \<and> pa_inv (insert m (AA j)) pa' \<and>
         sz \<le> al_size a \<and> (al_size a < 2 * sz \<or> al_size a = pa_level_size ?pa) \<and>
         block ?pa m \<subseteq> range_set (pa_addr_range ?pa) \<and> (\<forall>n \<in> AA j. block ?pa m \<inter> block ?pa n = {})"
    using pa_alloc_law [OF pj sz] by blast
  show thesis
  proof (cases r)
    case None
    then show thesis using run r by (intro no) simp
  next
    case (Some a)
    then obtain m where m: "available (AA j) m" "a = block_allocation ?pa m" "pa_inv (insert m (AA j)) pa'"
      "sz \<le> al_size a" "al_size a < 2 * sz \<or> al_size a = pa_level_size ?pa"
      "block ?pa m \<subseteq> range_set (pa_addr_range ?pa)" "\<forall>n \<in> AA j. block ?pa m \<inter> block ?pa n = {}" using r by auto
    have "0 < m" using block_in_zone(2) [OF m(3)] by simp
    then have "m \<notin> AA j" using m(1) occ_self [of m "AA j"] by (auto simp: available_def)
    then have "zone_alloc_ok AA pm sz j m pa'"
      using m j pa_alloc_frame [OF run] by (simp add: zone_alloc_ok_def)
    then show thesis using run Some m(2) by (intro yes [of pa' m]) simp_all
  qed
qed

lemma pm_alloc_loop_spec:
  assumes inv: "pm_inv AA pm" and sz: "0 < sz" and ne: "pm_allocers pm \<noteq> []"
  shows "(pm_alloc_loop k i (pm_allocers pm) sz = Ok (pm_allocers pm, None) \<and>
      (\<forall>x. i \<le> x \<and> x < i + k \<longrightarrow>
         pa_alloc (pm_allocers pm ! (x mod length (pm_allocers pm))) sz = Ok (pm_allocers pm ! (x mod length (pm_allocers pm)), None))) \<or>
    (\<exists>j m pa'. pm_alloc_loop k i (pm_allocers pm) sz = Ok ((pm_allocers pm)[j := pa'], Some (zone_allocation pm j m (Some j))) \<and>
       zone_alloc_ok AA pm sz j m pa')"
proof (induction k arbitrary: i)
  case (Suc k)
  let ?as = "pm_allocers pm"
  define j where "j = i mod length ?as"
  have j: "j < length ?as" using ne by (simp add: j_def)
  show ?case
  proof (cases rule: zone_alloc [OF inv sz j])
    case 1
    then have step: "pm_alloc_loop (Suc k) i ?as sz = pm_alloc_loop k (i + 1) ?as sz" by (simp add: j_def [symmetric])
    have "pa_alloc (?as ! (x mod length ?as)) sz = Ok (?as ! (x mod length ?as), None)"
      if "\<forall>x. i + 1 \<le> x \<and> x < i + 1 + k \<longrightarrow> pa_alloc (?as ! (x mod length ?as)) sz = Ok (?as ! (x mod length ?as), None)"
        "i \<le> x" "x < i + Suc k" for x
      using that 1 by (cases "x = i") (auto simp: j_def [symmetric])
    with Suc.IH [of "i + 1"] show ?thesis unfolding step by blast
  next
    case (2 m pa')
    then have "pm_alloc_loop (Suc k) i ?as sz = Ok (?as[j := pa'], Some (zone_allocation pm j m (Some j)))"
      by (simp add: j_def [symmetric] zone_allocation_def)
    with 2(2) show ?thesis by blast
  qed
qed auto

lemma mod_cover:
  assumes "j < n"
  shows "\<exists>x :: nat. i \<le> x \<and> x < i + n \<and> x mod n = j"
proof -
  let ?x = "i + (j + n - i mod n) mod n"
  have le: "i mod n \<le> j + n" using assms mod_less_divisor [of n i] by linarith
  have "?x mod n = (i mod n + (j + n - i mod n)) mod n" by (simp add: mod_simps)
  also have "\<dots> = j" using le assms by simp
  finally show ?thesis using assms by (intro exI [of _ ?x]) simp
qed

lemma zone_alloc_disjoint:
  assumes inv: "pm_inv AA pm" and ok: "zone_alloc_ok AA pm sz j m pa'" and i: "i < length (pm_allocers pm)" "n \<in> AA i"
  shows "zone_block pm j m \<inter> zone_block pm i n = {}"
proof (cases "i = j")
  case False
  have j: "j < length (pm_allocers pm)" using ok by (simp add: zone_alloc_ok_def)
  then have "pa_inv (AA j) (pm_allocers pm ! j)" and pi: "pa_inv (AA i) (pm_allocers pm ! i)" using inv i(1) by (simp_all add: pm_inv_def)
  then have "zone_block pm j m \<subseteq> {pa_start_addr (pm_allocers pm ! j) ..< pa_start_addr (pm_allocers pm ! j) + pa_max_size (pm_allocers pm ! j)}"
    using ok by (auto simp: zone_alloc_ok_def range_set_def pa_start_addr_def pa_inv_def pa_shape_def)
  from zones_disjoint [OF inv j i(1) False [symmetric] this block_in_zone(1) [OF pi i(2)]] show ?thesis .
qed (use ok i(2) in \<open>simp add: zone_alloc_ok_def\<close>)

lemma zone_alloc_inv:
  assumes inv: "pm_inv AA pm" and ok: "zone_alloc_ok AA pm sz j m pa'"
  shows "pm_inv (AA(j := insert m (AA j))) \<lparr>pm_allocers = (pm_allocers pm)[j := pa'], pm_next_index = n\<rparr>"
  using ok by (intro pm_inv_upd [OF inv]) (auto simp: zone_alloc_ok_def pa_start_addr_def)

lemma pm_alloc_cases:
  assumes inv: "pm_inv AA pm" and sz: "0 < pl_size layout" "pl_align layout \<le> align_of (pl_size layout)"
    and room: "pm_next_index pm + length (pm_allocers pm) < usize_limit"
  obtains (no) "pm_alloc pm layout = Ok (pm\<lparr>pm_next_index := (pm_next_index pm + 1) mod usize_limit\<rparr>, None)"
      "\<forall>pa \<in> set (pm_allocers pm). pa_alloc pa (pl_size layout) = Ok (pa, None)"
    | (yes) j m pa' where "pm_alloc pm layout = Ok (\<lparr>pm_allocers = (pm_allocers pm)[j := pa'],
          pm_next_index = (pm_next_index pm + 1) mod usize_limit\<rparr>, Some (zone_allocation pm j m (Some j)))"
        "zone_alloc_ok AA pm (pl_size layout) j m pa'"
proof -
  let ?as = "pm_allocers pm" and ?n = "length (pm_allocers pm)" and ?i = "pm_next_index pm"
  have pm: "\<lparr>pm_allocers = ?as, pm_next_index = (?i + 1) mod usize_limit\<rparr> = pm\<lparr>pm_next_index := (?i + 1) mod usize_limit\<rparr>" by simp
  have out: "pm_alloc pm layout = Ok (\<lparr>pm_allocers = as', pm_next_index = (?i + 1) mod usize_limit\<rparr>, r)"
    if "pm_alloc_loop ?n ?i ?as (pl_size layout) = Ok (as', r)" for as' r
    using that sz(2) room by (simp add: pm_alloc_def uadd_def)
  show thesis
  proof (cases "?as = []")
    case True
    then show thesis using out [of "[]" None] pm no by simp
  next
    case False
    from pm_alloc_loop_spec [OF inv sz(1) False, of ?n ?i] show thesis
    proof (elim disjE exE conjE)
      assume run: "pm_alloc_loop ?n ?i ?as (pl_size layout) = Ok (?as, None)"
        and all: "\<forall>x. ?i \<le> x \<and> x < ?i + ?n \<longrightarrow> pa_alloc (?as ! (x mod ?n)) (pl_size layout) = Ok (?as ! (x mod ?n), None)"
      have "pa_alloc pa (pl_size layout) = Ok (pa, None)" if "pa \<in> set ?as" for pa
      proof -
        obtain j where "j < ?n" "pa = ?as ! j" using \<open>pa \<in> set ?as\<close> by (auto simp: in_set_conv_nth)
        then show ?thesis using mod_cover [of j ?n ?i] all by auto
      qed
      then show thesis using out [OF run] pm by (intro no) simp_all
    next
      fix j m pa'
      assume "pm_alloc_loop ?n ?i ?as (pl_size layout) = Ok (?as[j := pa'], Some (zone_allocation pm j m (Some j)))"
        and ok: "zone_alloc_ok AA pm (pl_size layout) j m pa'"
      from out [OF this(1)] ok show thesis by (rule yes)
    qed
  qed
qed

subsection \<open>Deallocation\<close>

lemma search_finds_zone:
  assumes inv: "pm_inv AA pm" and j: "j < length (pm_allocers pm)" and m: "m \<in> AA j" and z: "z = None \<or> z = Some j"
  shows "get_allocator_for_allocation pm (zone_allocation pm j m z) = Ok j"
proof (cases z)
  case None
  let ?as = "pm_allocers pm" and ?a = "block_addr (pm_allocers pm ! j) m"
  have pj: "pa_inv (AA j) (?as ! j)" using inv j by (simp add: pm_inv_def)
  have addr: "pa_start_addr (?as ! j) \<le> ?a" "?a < pa_start_addr (?as ! j) + pa_max_size (?as ! j)"
    using block_in_zone(1,3) [OF pj m] by auto
  have before: "pa_start_addr (?as ! i) + pa_max_size (?as ! i) \<le> pa_start_addr (?as ! k)" if "i < k" "k < length ?as" for i k
    using inv that by (auto simp: pm_inv_def sorted_wrt_iff_nth_less zone_before_def)
  have al: "al_ptr (zone_allocation pm j m z) = ?a" "zindex (zone_allocation pm j m z) = None"
    using None by (simp_all add: zone_allocation_def block_allocation_def)
  note bs = binary_search_sorted [OF zone_starts [OF inv], of ?a]
  show ?thesis
  proof (cases "binary_search_by_key pa_start_addr ?a ?as")
    case (Found i)
    then have i: "i < length ?as" "pa_start_addr (?as ! i) = ?a" using bs by simp_all
    have "i = j"
    proof (rule ccontr)
      assume "i \<noteq> j"
      then consider "i < j" | "j < i" by linarith
      then show False
      proof cases
        case 1
        have "0 < pa_max_size (?as ! i)" using inv i(1) pa_inv_pos by (auto simp: pm_inv_def)
        then show False using before [OF 1 j] i(2) addr(1) by linarith
      qed (use before [OF _ i(1)] i(2) addr(2) in force)
    qed
    then show ?thesis using Found al by (simp add: get_allocator_for_allocation_def)
  next
    case (NotFound i)
    then have i: "i \<le> length ?as" "\<forall>k < i. pa_start_addr (?as ! k) < ?a" "\<forall>k. i \<le> k \<and> k < length ?as \<longrightarrow> ?a < pa_start_addr (?as ! k)"
      using bs by simp_all
    have "j < i" using i(3) j addr(1) by (meson leD leI)
    moreover have "\<not> j < i - 1"
    proof
      assume less: "j < i - 1"
      then have "pa_start_addr (?as ! j) + pa_max_size (?as ! j) \<le> pa_start_addr (?as ! (i - 1))" using before i(1) by simp
      moreover have "pa_start_addr (?as ! (i - 1)) < ?a" using i(2) less by simp
      ultimately show False using addr(2) by linarith
    qed
    ultimately have "i - 1 = j" by linarith
    then show ?thesis using NotFound al \<open>j < i\<close> by (simp add: get_allocator_for_allocation_def)
  qed
next
  case (Some k)
  then show ?thesis using z j by (simp add: get_allocator_for_allocation_def zone_allocation_def)
qed

lemma pm_dealloc_law:
  assumes inv: "pm_inv AA pm" and j: "j < length (pm_allocers pm)" and m: "m \<in> AA j"
  obtains t f where "\<And>z. z = None \<or> z = Some j \<Longrightarrow> pm_dealloc pm (zone_allocation pm j m z) =
      Ok (pm\<lparr>pm_allocers := (pm_allocers pm)[j := (pm_allocers pm ! j)\<lparr>pa_tree := t, pa_free_space := f\<rparr>]\<rparr>)"
    "pm_inv (AA(j := AA j - {m})) (pm\<lparr>pm_allocers := (pm_allocers pm)[j := (pm_allocers pm ! j)\<lparr>pa_tree := t, pa_free_space := f\<rparr>]\<rparr>)"
proof -
  let ?pa = "pm_allocers pm ! j"
  have pj: "pa_inv (AA j) ?pa" using inv j by (simp add: pm_inv_def)
  define t f where "t = dealloc_node (pa_tree ?pa) (m - 1) 0" and "f = pa_free_space ?pa + node_size ?pa (m - 1)"
  note run = pa_dealloc_run [OF pj m, folded t_def f_def]
  have "pm_dealloc pm (zone_allocation pm j m z) = Ok (pm\<lparr>pm_allocers := (pm_allocers pm)[j := ?pa\<lparr>pa_tree := t, pa_free_space := f\<rparr>]\<rparr>)"
    if "z = None \<or> z = Some j" for z
    unfolding pm_dealloc_def search_finds_zone [OF inv j m that]
    by (simp add: zone_allocation_def pa_dealloc_zindex run(1))
  moreover have "pm_inv (AA(j := AA j - {m})) \<lparr>pm_allocers = (pm_allocers pm)[j := ?pa\<lparr>pa_tree := t, pa_free_space := f\<rparr>], pm_next_index = pm_next_index pm\<rparr>"
    by (rule pm_inv_upd [OF inv j run(2)]) (simp_all add: pa_start_addr_def)
  then have "pm_inv (AA(j := AA j - {m})) (pm\<lparr>pm_allocers := (pm_allocers pm)[j := ?pa\<lparr>pa_tree := t, pa_free_space := f\<rparr>]\<rparr>)"
    by (simp add: pm_inv_def)
  ultimately show thesis by (rule that)
qed

subsection \<open>Properties\<close>

text \<open>Two zones of eight pages; the first page of the first zone is in use.\<close>

definition second_zone :: PmemAllocator where
  "second_zone = example_pa\<lparr>pa_addr_range := \<lparr>r_addr = 0x20000, r_size = 0x8000\<rparr>\<rparr>"

definition example_pm :: PmemManager where
  "example_pm = \<lparr>pm_allocers = [one_page_pa, second_zone], pm_next_index = 7\<rparr>"

lemma example_pm_inv: "pm_inv (\<lambda>j. if j = 0 then {8} else {}) example_pm"
proof -
  have "pa_shape 12 3 second_zone"
    by (auto simp: pa_shape_def second_zone_def example_pa_def range_wf_def virt_ok_def)
  then have "pa_inv {} second_zone" by (auto simp: pa_inv_def tree_inv_empty second_zone_def example_pa_def)
  then show ?thesis
    using one_page_inv
    by (auto simp: pm_inv_def example_pm_def zone_before_def nth_Cons' pa_start_addr_def one_page_pa_def example_pa_def second_zone_def)
qed

lemma align_of_page: "4096 \<le> align_of 4096"
  using align_of_dvd [of 4096 12] by simp



text \<open>
  C39.  An allocation goes back to the zone it came from, with and without the index of its zone:
  the search by address among the zones finds the same one, so both calls have the same effect,
  which is that the block is free again.
\<close>

theorem pmem_manager_dealloc_equiv:
  assumes "pm_inv AA pm" and "j < length (pm_allocers pm)" and "m \<in> AA j"
  shows "\<exists>pm'. pm_dealloc pm (zone_allocation pm j m (Some j)) = Ok pm' \<and>
    pm_dealloc pm (zone_allocation pm j m None) = Ok pm' \<and> pm_inv (AA(j := AA j - {m})) pm'"
  by (rule pm_dealloc_law [OF assms]) blast

theorem pmem_manager_dealloc_equiv_witness:
  "\<exists>pm'. pm_dealloc example_pm \<lparr>al_ptr = 0x10000, al_size = 0x1000, zindex = None\<rparr> = Ok pm' \<and>
     pm_dealloc example_pm \<lparr>al_ptr = 0x10000, al_size = 0x1000, zindex = Some 0\<rparr> = Ok pm'"
proof -
  have "node_level 7 = 3" using log2_power [of 3] by (simp add: node_level_def)
  then have "zone_allocation example_pm 0 8 z = \<lparr>al_ptr = 0x10000, al_size = 0x1000, zindex = z\<rparr>" for z
    by (simp add: zone_allocation_def block_allocation_def block_addr_def node_size_def example_pm_def one_page_pa_def
        example_pa_def pa_start_addr_def)
  then show ?thesis
    using pmem_manager_dealloc_equiv [OF example_pm_inv, of 0 8] by (auto simp: example_pm_def)
qed

end
