(* ===== verification/Page_Frames.thy ===== *)
theory Page_Frames
  imports Page_Space Pmem_Manager
begin

text \<open>
  The allocator of physical memory as the provider of frames for page tables: every law of the
  interface is discharged for it, so that mapping and unmapping are correct on top of the buddy
  allocator.
\<close>

subsection \<open>Frames in use\<close>

text \<open>The status bytes say which nodes are allocated.\<close>

definition pa_allocated :: "PmemAllocator \<Rightarrow> nat set" where
  "pa_allocated pa = {m. 0 < m \<and> m \<le> length (pa_tree pa) \<and> ts_contains (pa_tree pa ! (m - 1)) OCCUPY}"

lemma pa_allocated_unique:
  assumes "pa_inv A pa"
  shows "pa_allocated pa = A"
proof -
  have tr: "antichain A" "A \<subseteq> {.. length (pa_tree pa)}" "tree_is (pa_tree pa) (status A)"
    using assms by (simp_all add: pa_inv_def tree_inv_def)
  have "ts_contains (pa_tree pa ! (m - 1)) OCCUPY \<longleftrightarrow> m \<in> A" if "0 < m" "m \<le> length (pa_tree pa)" for m
    using tree_isD [OF tr(3), of "m - 1"] that status_occupied [of A m] by simp
  moreover have "0 < m \<and> m \<le> length (pa_tree pa)" if "m \<in> A" for m
    using tr(1,2) that by (cases m) (auto simp: antichain_def)
  ultimately show ?thesis by (auto simp: pa_allocated_def)
qed

definition pm_live :: "PmemManager \<Rightarrow> usize set" where
  "pm_live pm = {f. \<exists>j m. j < length (pm_allocers pm) \<and> m \<in> pa_allocated (pm_allocers pm ! j) \<and>
     f = block_addr (pm_allocers pm ! j) m \<and> node_size (pm_allocers pm ! j) (m - 1) = PAGE_SIZE}"

definition pm_full :: "PmemManager \<Rightarrow> bool" where
  "pm_full pm \<longleftrightarrow> (\<forall>pa \<in> set (pm_allocers pm). pa_alloc pa PAGE_SIZE = Ok (pa, None))"

text \<open>A zone inside the window to physical memory whose smallest blocks are pages.\<close>

definition zone_ok :: "usize \<Rightarrow> PmemAllocator \<Rightarrow> bool" where
  "zone_ok vma pa \<longleftrightarrow> pa_level_size pa = PAGE_SIZE \<and> 4096 dvd pa_start_addr pa \<and> vma \<le> pa_start_addr pa \<and>
     pa_start_addr pa + pa_max_size pa \<le> vma + 2 ^ 48"

definition pm_ready :: "usize \<Rightarrow> nat \<Rightarrow> PmemManager \<Rightarrow> bool" where
  "pm_ready vma n pm \<longleftrightarrow> 4096 dvd vma \<and> pm_inv (\<lambda>j. pa_allocated (pm_allocers pm ! j)) pm \<and>
     (\<forall>pa \<in> set (pm_allocers pm). zone_ok vma pa) \<and>
     pm_next_index pm + length (pm_allocers pm) + n \<le> usize_limit"

lemma pm_inv_allocated:
  assumes "pm_inv AA pm"
  shows "j < length (pm_allocers pm) \<Longrightarrow> pa_allocated (pm_allocers pm ! j) = AA j"
    and "pm_inv (\<lambda>j. pa_allocated (pm_allocers pm ! j)) pm"
  using assms pa_allocated_unique by (auto simp: pm_inv_def)

text \<open>Two blocks in use are the same or apart, in whatever zones they are.\<close>

lemma pm_blocks_apart:
  assumes inv: "pm_inv AA pm" and i: "i < length (pm_allocers pm)" "m \<in> AA i" and j: "j < length (pm_allocers pm)" "n \<in> AA j"
    and eq: "block_addr (pm_allocers pm ! i) m = block_addr (pm_allocers pm ! j) n"
  shows "i = j \<and> m = n"
proof -
  have p: "pa_inv (AA i) (pm_allocers pm ! i)" "pa_inv (AA j) (pm_allocers pm ! j)" using inv i(1) j(1) by (simp_all add: pm_inv_def)
  note bi = block_in_zone [OF p(1) i(2)] and bj = block_in_zone [OF p(2) j(2)]
  have meet: "zone_block pm i m \<inter> zone_block pm j n \<noteq> {}" using bi(3) bj(3) eq by auto
  then have ij: "i = j" using zones_disjoint [OF inv i(1) j(1) _ bi(1) bj(1)] by blast
  obtain s d where sh: "pa_shape s d (pm_allocers pm ! i)" and tr: "tree_inv (AA i) (pa_tree (pm_allocers pm ! i))"
    using p(1) by (auto simp: pa_inv_def)
  have "anc m n \<or> anc n m"
    using block_disjoint [OF sh pa_inv_range [OF tr sh i(2)] pa_inv_range [OF tr sh, of n]] meet j(2) ij by blast
  then have "m = n" using tr i(2) j(2) ij by (auto simp: tree_inv_def antichain_def)
  then show ?thesis using ij by simp
qed

text \<open>A block of one page is a frame.\<close>

lemma page_block_frame:
  assumes "pa_inv A pa" and "zone_ok vma pa" "4096 dvd vma" and m: "m \<in> A" and sz: "node_size pa (m - 1) = PAGE_SIZE"
  shows "frame_ok vma (block_addr pa m)"
proof -
  obtain s d where sh: "pa_shape s d pa" and tr: "tree_inv A (pa_tree pa)" using assms(1) by (auto simp: pa_inv_def)
  note b = block_facts [OF sh pa_inv_range [OF tr sh m]]
  have "block_addr pa m \<in> {pa_start_addr pa ..< pa_start_addr pa + pa_max_size pa}"
    using block_in_zone(1,3) [OF assms(1) m] by blast
  moreover have "virt_ok (block_addr pa m)"
    using shape_limits(3) [OF sh, of "block_addr pa m"] calculation sh by (simp add: pa_shape_def)
  moreover have "4096 dvd block_addr pa m"
    using assms(2) sz by (simp add: block_addr_def zone_ok_def PAGE_SIZE_def)
  ultimately show ?thesis using assms(2,3) by (auto simp: frame_ok_def zone_ok_def phys_ok_def)
qed

subsection \<open>The laws of the interface\<close>

text \<open>Another tree and another count of free bytes leave the blocks of a zone where they are.\<close>

lemma zone_upd [simp]:
  "block_addr (pa\<lparr>pa_tree := t, pa_free_space := k\<rparr>) m = block_addr pa m"
  "node_size (pa\<lparr>pa_tree := t, pa_free_space := k\<rparr>) i = node_size pa i"
  "zone_ok vma (pa\<lparr>pa_tree := t, pa_free_space := k\<rparr>) = zone_ok vma pa"
  by (simp_all add: block_addr_def node_size_def zone_ok_def pa_start_addr_def)

lemma indexed_insert:
  assumes "j < N" and "S j m"
  shows "{f. \<exists>i l. i < N \<and> l \<in> (AA(j := insert m (AA j))) i \<and> f = B i l \<and> S i l} =
    insert (B j m) {f. \<exists>i l. i < (N :: nat) \<and> l \<in> AA i \<and> f = B i l \<and> S i l}"
  using assms by (auto split: if_splits)

lemma indexed_remove:
  assumes "\<And>i l. i < (N :: nat) \<Longrightarrow> l \<in> AA i \<Longrightarrow> B i l = B j m \<Longrightarrow> i = j \<and> l = m"
  shows "{f. \<exists>i l. i < N \<and> l \<in> (AA(j := AA j - {m})) i \<and> f = B i l \<and> S i l} =
    {f. \<exists>i l. i < N \<and> l \<in> AA i \<and> f = B i l \<and> S i l} - {B j m}"
proof (intro equalityI subsetI)
  fix f
  assume "f \<in> {f. \<exists>i l. i < N \<and> l \<in> AA i \<and> f = B i l \<and> S i l} - {B j m}"
  then obtain i l where il: "i < N" "l \<in> AA i" "f = B i l" "S i l" "B i l \<noteq> B j m" by blast
  then have "l \<in> (AA(j := AA j - {m})) i" by auto
  then show "f \<in> {f. \<exists>i l. i < N \<and> l \<in> (AA(j := AA j - {m})) i \<and> f = B i l \<and> S i l}" using il by blast
qed (use assms in \<open>auto split: if_splits\<close>)

lemma pm_live_eq:
  assumes "pm_inv AA pm"
  shows "pm_live pm = {f. \<exists>j m. j < length (pm_allocers pm) \<and> m \<in> AA j \<and>
    f = block_addr (pm_allocers pm ! j) m \<and> node_size (pm_allocers pm ! j) (m - 1) = PAGE_SIZE}"
  using pm_inv_allocated(1) [OF assms] unfolding pm_live_def by blast

lemma pm_live_upd:
  assumes inv: "pm_inv AA' pm'" and pm': "pm_allocers pm' = (pm_allocers pm)[j := (pm_allocers pm ! j)\<lparr>pa_tree := t, pa_free_space := k\<rparr>]"
  shows "pm_live pm' = {f. \<exists>i m. i < length (pm_allocers pm) \<and> m \<in> AA' i \<and>
    f = block_addr (pm_allocers pm ! i) m \<and> node_size (pm_allocers pm ! i) (m - 1) = PAGE_SIZE}"
proof -
  have "block_addr (pm_allocers pm' ! i) m = block_addr (pm_allocers pm ! i) m"
    "node_size (pm_allocers pm' ! i) l = node_size (pm_allocers pm ! i) l" if "i < length (pm_allocers pm)" for i l m
    using that by (cases "i = j"; simp add: pm')+
  moreover have "length (pm_allocers pm') = length (pm_allocers pm)" by (simp add: pm')
  ultimately show ?thesis unfolding pm_live_eq [OF inv] by (simp cong: conj_cong)
qed

lemma pm_ready_upd:
  assumes rd: "pm_ready vma (Suc n) pm \<or> pm_ready vma n pm \<and> pm_next_index pm' = pm_next_index pm" and inv: "pm_inv AA' pm'"
    and j: "j < length (pm_allocers pm)"
    and pm': "pm_allocers pm' = (pm_allocers pm)[j := (pm_allocers pm ! j)\<lparr>pa_tree := t, pa_free_space := k\<rparr>]"
    and ix: "pm_next_index pm' \<le> Suc (pm_next_index pm)"
  shows "pm_ready vma n pm'"
proof -
  have "zone_ok vma pa" if "pa \<in> set (pm_allocers pm')" for pa
  proof -
    have "zone_ok vma (pm_allocers pm ! j)" using rd j by (auto simp: pm_ready_def)
    moreover have "pa = (pm_allocers pm ! j)\<lparr>pa_tree := t, pa_free_space := k\<rparr> \<or> pa \<in> set (pm_allocers pm)"
      using that set_update_subset_insert unfolding pm' by fast
    ultimately show ?thesis using rd by (auto simp: pm_ready_def)
  qed
  then show ?thesis using rd ix pm_inv_allocated(2) [OF inv] by (auto simp: pm_ready_def pm')
qed

lemma page_request:
  assumes "pm_inv AA pm" and "zone_ok vma (pm_allocers pm ! j)" and "zone_alloc_ok AA pm PAGE_SIZE j m pa'"
  shows "node_size (pm_allocers pm ! j) (m - 1) = PAGE_SIZE"
proof -
  let ?pa = "pm_allocers pm ! j"
  obtain t f where pa': "pa' = ?pa\<lparr>pa_tree := t, pa_free_space := f\<rparr>" and inv: "pa_inv (insert m (AA j)) pa'"
    using assms(3) by (auto simp: zone_alloc_ok_def)
  obtain s d where sh: "pa_shape s d pa'" and tr: "tree_inv (insert m (AA j)) (pa_tree pa')" using inv by (auto simp: pa_inv_def)
  have "node_size pa' (m - 1) = 2 ^ (s + (d - node_level (m - 1)))"
    using block_facts(2) [OF sh pa_inv_range [OF tr sh]] by simp
  then have sz: "node_size ?pa (m - 1) = 2 ^ (s + (d - node_level (m - 1)))" by (simp add: pa')
  let ?k = "s + (d - node_level (m - 1))"
  have fit: "2 ^ 12 \<le> (2 :: nat) ^ ?k" "(2 :: nat) ^ ?k < 2 ^ 13 \<or> (2 :: nat) ^ ?k = 2 ^ 12"
    using assms(2,3) sz by (auto simp: zone_alloc_ok_def block_allocation_def zone_ok_def PAGE_SIZE_def)
  have "12 \<le> ?k" using fit(1) by (simp only: power_increasing_iff one_less_numeral_iff semiring_norm)
  moreover have "?k < 13"
    using fit(2) by (auto simp only: power_strict_increasing_iff power_inject_exp one_less_numeral_iff semiring_norm)
  ultimately have "?k = 12" by simp
  then show ?thesis unfolding sz by (simp add: PAGE_SIZE_def)
qed

lemma pm_alloc_frame:
  assumes rd: "pm_ready vma (Suc n) pm"
  shows "(\<exists>pm'. pm_alloc pm frame_layout = Ok (pm', None) \<and> pm_ready vma n pm' \<and> pm_live pm' = pm_live pm \<and> pm_full pm') \<or>
    (\<exists>pm' al. pm_alloc pm frame_layout = Ok (pm', Some al) \<and> pm_ready vma n pm' \<and> frame_ok vma (al_ptr al) \<and>
       al_ptr al \<notin> pm_live pm \<and> pm_live pm' = insert (al_ptr al) (pm_live pm))"
proof -
  let ?AA = "\<lambda>j. pa_allocated (pm_allocers pm ! j)" and ?n = "(pm_next_index pm + 1) mod usize_limit"
  have inv: "pm_inv ?AA pm" and room: "pm_next_index pm + length (pm_allocers pm) < usize_limit"
    and vma: "4096 dvd vma" and zones: "\<forall>pa \<in> set (pm_allocers pm). zone_ok vma pa"
    using rd by (simp_all add: pm_ready_def)
  have le: "?n \<le> Suc (pm_next_index pm)" by simp
  have sz: "0 < pl_size frame_layout" "pl_align frame_layout \<le> align_of (pl_size frame_layout)"
    using align_of_page by (simp_all add: PAGE_SIZE_def)
  show ?thesis
  proof (cases rule: pm_alloc_cases [OF inv sz room])
    case 1
    let ?pm = "pm\<lparr>pm_next_index := ?n\<rparr>"
    have "pm_ready vma n ?pm" using rd le by (auto simp: pm_ready_def pm_inv_def)
    moreover have "pm_live ?pm = pm_live pm" "pm_full ?pm" using 1(2) by (simp_all add: pm_live_def pm_full_def)
    ultimately show ?thesis using 1(1) by blast
  next
    case (2 j m pa')
    let ?pm = "\<lparr>pm_allocers = (pm_allocers pm)[j := pa'], pm_next_index = ?n\<rparr>" and ?pa = "pm_allocers pm ! j"
    have ok: "zone_alloc_ok ?AA pm PAGE_SIZE j m pa'" using 2(2) by simp
    then obtain t f where j: "j < length (pm_allocers pm)" and pa': "pa' = ?pa\<lparr>pa_tree := t, pa_free_space := f\<rparr>"
      and pi: "pa_inv (insert m (?AA j)) pa'"
      by (auto simp: zone_alloc_ok_def)
    have zj: "zone_ok vma ?pa" using zones j by simp
    note page = page_request [OF inv zj ok] and inv' = zone_alloc_inv [OF inv ok, of ?n]
    have fr: "frame_ok vma (block_addr ?pa m)"
      using page_block_frame [OF pi _ vma, of m] zj page by (simp add: pa')
    have new: "block_addr ?pa m \<notin> pm_live pm"
    proof
      assume "block_addr ?pa m \<in> pm_live pm"
      then obtain i k where ik: "i < length (pm_allocers pm)" "k \<in> ?AA i" "block_addr ?pa m = block_addr (pm_allocers pm ! i) k"
        by (auto simp: pm_live_def)
      have "block_addr ?pa m \<in> zone_block pm j m" using page by (simp add: block_def PAGE_SIZE_def)
      moreover have "block_addr ?pa m \<in> zone_block pm i k"
        using block_in_zone(3) [of "?AA i" "pm_allocers pm ! i" k] inv ik by (simp add: pm_inv_def)
      ultimately show False using zone_alloc_disjoint [OF inv ok ik(1,2)] by blast
    qed
    have live: "pm_live ?pm = insert (block_addr ?pa m) (pm_live pm)"
      unfolding pm_live_def [of pm] using page
      by (subst pm_live_upd [OF inv', where pm = pm and j = j and t = t and k = f], simp add: pa') (rule indexed_insert [OF j])
    have ready: "pm_ready vma n ?pm"
      using rd le j by (intro pm_ready_upd [OF _ inv']) (auto simp: pa')
    have al: "al_ptr (zone_allocation pm j m (Some j)) = block_addr ?pa m"
      by (simp add: zone_allocation_def block_allocation_def)
    show ?thesis
      using 2(1) ready fr new live unfolding al [symmetric] by blast
  qed
qed

lemma pm_dealloc_frame:
  assumes rd: "pm_ready vma n pm" and f: "f \<in> pm_live pm"
  shows "\<exists>pm'. pm_dealloc pm \<lparr>al_ptr = f, al_size = PAGE_SIZE, zindex = None\<rparr> = Ok pm' \<and> pm_ready vma n pm' \<and>
    pm_live pm' = pm_live pm - {f}"
proof -
  let ?AA = "\<lambda>j. pa_allocated (pm_allocers pm ! j)"
  have inv: "pm_inv ?AA pm" using rd by (simp add: pm_ready_def)
  obtain j m where j: "j < length (pm_allocers pm)" and m: "m \<in> ?AA j" and f': "f = block_addr (pm_allocers pm ! j) m"
    and sz: "node_size (pm_allocers pm ! j) (m - 1) = PAGE_SIZE"
    using f by (auto simp: pm_live_def)
  from pm_dealloc_law [OF inv j m] obtain t k where
    run: "\<And>z. z = None \<or> z = Some j \<Longrightarrow> pm_dealloc pm (zone_allocation pm j m z) =
      Ok (pm\<lparr>pm_allocers := (pm_allocers pm)[j := (pm_allocers pm ! j)\<lparr>pa_tree := t, pa_free_space := k\<rparr>]\<rparr>)"
    and inv': "pm_inv (?AA(j := ?AA j - {m})) (pm\<lparr>pm_allocers := (pm_allocers pm)[j := (pm_allocers pm ! j)\<lparr>pa_tree := t, pa_free_space := k\<rparr>]\<rparr>)"
    by metis
  let ?pm = "pm\<lparr>pm_allocers := (pm_allocers pm)[j := (pm_allocers pm ! j)\<lparr>pa_tree := t, pa_free_space := k\<rparr>]\<rparr>"
  have "zone_allocation pm j m None = \<lparr>al_ptr = f, al_size = PAGE_SIZE, zindex = None\<rparr>"
    using sz by (simp add: zone_allocation_def block_allocation_def f')
  then have "pm_dealloc pm \<lparr>al_ptr = f, al_size = PAGE_SIZE, zindex = None\<rparr> = Ok ?pm" using run [of None] by simp
  moreover have "pm_ready vma n ?pm" using rd j by (intro pm_ready_upd [OF _ inv']) auto
  moreover have "pm_live ?pm = pm_live pm - {f}"
  proof -
    have same: "i = j \<and> l = m" if "i < length (pm_allocers pm)" "l \<in> ?AA i" "block_addr (pm_allocers pm ! i) l = f" for i l
      using pm_blocks_apart [OF inv that(1,2) j m] that(3) f' by simp
    show ?thesis
      unfolding pm_live_def [of pm] f' using same [unfolded f']
      by (subst pm_live_upd [OF inv', where pm = pm and j = j and t = t and k = k], simp) (rule indexed_remove)
  qed
  ultimately show ?thesis by blast
qed

interpretation pmf: frame_allocator vma "pm_ready vma" pm_live pm_full pm_alloc pm_dealloc for vma
proof
  show "pm_ready vma n a" if "pm_ready vma (Suc n) a" for n a using that by (auto simp: pm_ready_def)
qed (rule pm_alloc_frame pm_dealloc_frame; assumption)+

subsection \<open>An example\<close>

text \<open>
  The window of the kernel, with one zone of eight pages in it.  The first page is the root table
  of an address space in which nothing is mapped.
\<close>

definition KERNEL_VMA :: usize where
  "KERNEL_VMA = 0xffffff8000000000"

definition example_root :: usize where
  "example_root = 0xffffff8000100000"

definition window_pm :: PmemManager where
  "window_pm = \<lparr>pm_allocers = [one_page_pa\<lparr>pa_addr_range := \<lparr>r_addr = example_root, r_size = 0x8000\<rparr>\<rparr>], pm_next_index = 0\<rparr>"

definition example_space :: "PmemManager VirtAddrSpace" where
  "example_space =
     \<lparr>vs_cr3 = (example_root - KERNEL_VMA) OR 513,
      vs_mem = (\<lambda>_. replicate NUM_ENTRIES 0)(example_root := add_entry (replicate NUM_ENTRIES 0) 511 3),
      vs_alloc = window_pm\<rparr>"

lemma pa_inv_move:
  assumes "pa_inv A pa" and "range_wf virt_ok \<lparr>r_addr = a, r_size = r_size (pa_addr_range pa)\<rparr>"
  shows "pa_inv A (pa\<lparr>pa_addr_range := \<lparr>r_addr = a, r_size = r_size (pa_addr_range pa)\<rparr>\<rparr>)"
  using assms by (auto simp: pa_inv_def pa_shape_def node_size_def)

lemma window_pm_inv: "pm_inv (\<lambda>_. {8}) window_pm"
proof -
  have "r_size (pa_addr_range one_page_pa) = 0x8000" by (simp add: one_page_pa_def example_pa_def)
  moreover have "range_wf virt_ok \<lparr>r_addr = example_root, r_size = 0x8000\<rparr>"
    by (auto simp: range_wf_def virt_ok_def example_root_def HIGHER_HALF_START_def)
  ultimately show ?thesis using pa_inv_move [OF one_page_inv, of example_root] by (simp add: pm_inv_def window_pm_def)
qed

lemma example_space_ok:
  assumes "n \<le> 1000"
  shows "space_ok KERNEL_VMA (pm_ready KERNEL_VMA) pm_live n example_space"
    and "user_page b \<Longrightarrow> translate KERNEL_VMA example_space b = None" and "\<not> has_table KERNEL_VMA example_space 0x1000"
proof -
  note al = pm_inv_allocated [OF window_pm_inv]
  have z: "zone_ok KERNEL_VMA pa" if "pa \<in> set (pm_allocers window_pm)" for pa
    using that by (auto simp: window_pm_def zone_ok_def one_page_pa_def example_pa_def pa_start_addr_def
        example_root_def KERNEL_VMA_def PAGE_SIZE_def)
  then have rd: "pm_ready KERNEL_VMA n window_pm"
    using al(2) assms by (simp add: pm_ready_def KERNEL_VMA_def) (simp add: window_pm_def)
  have "node_level 7 = 3" using log2_power [of 3] by (simp add: node_level_def)
  then have b: "block_addr (pm_allocers window_pm ! 0) 8 = example_root" "node_size (pm_allocers window_pm ! 0) (8 - 1) = PAGE_SIZE"
    by (simp_all add: window_pm_def block_addr_def node_size_def pa_start_addr_def one_page_pa_def example_pa_def PAGE_SIZE_def)
  have "example_root \<in> pm_live window_pm"
    unfolding pm_live_eq [OF window_pm_inv] using b by (intro CollectI exI [of _ 0] exI [of _ 8]) (simp add: window_pm_def)
  moreover have fr: "frame_ok KERNEL_VMA example_root"
    by (simp add: frame_ok_def KERNEL_VMA_def example_root_def virt_ok_def phys_ok_def HIGHER_HALF_START_def)
  moreover have ptr: "entry_present (vs_cr3 example_space)" "space_root KERNEL_VMA example_space = example_root"
    using pointer_flags [OF fr, of 513] by (simp_all add: bit_0 example_space_def space_root_def)
  moreover have k: "entry_present 3" by (simp add: entry_present_bit bit_0)
  moreover have M: "vs_mem example_space example_root = add_entry (replicate NUM_ENTRIES 0) 511 3" by (simp add: example_space_def)
  moreover have va: "vs_alloc example_space = window_pm" by (simp add: example_space_def)
  ultimately show "space_ok KERNEL_VMA (pm_ready KERNEL_VMA) pm_live n example_space"
    using rd fresh_space [where M = "vs_mem example_space" and root = example_root, OF k M fr, of "pm_live window_pm"]
    by (simp add: space_ok_def)
  note fresh = fresh_root [where M = "vs_mem example_space" and root = example_root, OF k M]
  show "translate KERNEL_VMA example_space b = None" if "user_page b"
    using fresh(2) [OF indices_path [OF that]] by (simp add: translate_def ptr(2) page_table_indicies_def)
  have "butlast (page_table_indicies 0x1000) = [0, 0, 0]" by (simp add: indices_eq)
  then show "\<not> has_table KERNEL_VMA example_space 0x1000"
    using fresh(1) [of "[0, 0, 0]"] by (simp add: has_table_def ptr(2) user_path_def)
qed

subsection \<open>Address spaces over the physical memory manager\<close>

abbreviation pm_space :: "usize \<Rightarrow> nat \<Rightarrow> PmemManager VirtAddrSpace \<Rightarrow> bool" where
  "pm_space vma \<equiv> space_ok vma (pm_ready vma) pm_live"

text \<open>
  C4.  Mapping a page over the allocator of physical memory, in an address space whose tables are
  well formed: the call ends with the page mapped to the frame with the access that the options ask
  for and every other page translated as before, or it reports \<open>OutOfMem\<close> when no frame is left for a
  missing table, or \<open>InvlArgs\<close> when the options grant no access, and then every page is translated as
  before.  The tables stay well formed, and the frames in use outside of the tables are the same.
\<close>
theorem map_page_refines:
  assumes "pm_space vma (n + 3) vs" and "user_page va" and "va < kstart" and "phys_ok pa" and "4096 dvd pa"
  shows "\<exists>vs' r. map_page vma kstart pm_alloc vs va pa options = (vs', r) \<and> pm_space vma n vs' \<and>
    spare vma pm_live vs' = spare vma pm_live vs \<and>
    (if po_exists options then r = Ok () \<or> r = Err OutOfMem \<and> pm_full (vs_alloc vs') \<and> \<not> has_table vma vs va
     else r = Err InvlArgs) \<and>
    (\<forall>b. user_page b \<longrightarrow> translate vma vs' b =
       (if r = Ok () \<and> b = va then Some (view_options pa options) else translate vma vs b))"
proof (cases "po_exists options")
  case True
  then show ?thesis using pmf.map_page_law [OF assms True] by simp
next
  case False
  then have "map_page vma kstart pm_alloc vs va pa options = (vs, Err InvlArgs)"
    using assms(2,3) by (simp add: map_page_def map_page_inner_def user_page_def)
  then show ?thesis using False pmf.space_ok_le [OF assms(1)] by simp
qed

definition example_options :: PageMappingOptions where
  "example_options = \<lparr>po_read = True, po_write = True, po_exec = False, po_user = True, po_cacheing = WriteBack\<rparr>"

lemma example_pages: "user_page 0x1000" "user_page 0x2000" "phys_ok 0x200000" "phys_ok 0x201000"
proof -
  have "page_aligned 0x1000" "page_aligned 0x2000" by (simp_all add: page_aligned_iff PAGE_SIZE_def)
  then show "user_page 0x1000" "user_page 0x2000" "phys_ok 0x200000" "phys_ok 0x201000"
    by (simp_all add: user_page_def virt_ok_def phys_ok_def)
qed

theorem map_page_refines_witness:
  "\<exists>vs' r. map_page KERNEL_VMA KERNEL_VMA pm_alloc example_space 0x1000 0x200000 example_options = (vs', r) \<and>
    pm_space KERNEL_VMA 5 vs' \<and> (r = Ok () \<or> r = Err OutOfMem) \<and>
    translate KERNEL_VMA vs' 0x1000 = (if r = Ok () then Some (view_options 0x200000 example_options) else None)"
proof -
  have "pm_space KERNEL_VMA (5 + 3) example_space" by (rule example_space_ok(1)) simp
  moreover have "0x1000 < KERNEL_VMA" by (simp add: KERNEL_VMA_def)
  moreover have "po_exists example_options" by (simp add: example_options_def po_exists_def)
  moreover have "translate KERNEL_VMA example_space 0x1000 = None" by (rule example_space_ok(2) [of 0]) (simp_all add: example_pages)
  moreover have "4096 dvd (0x200000 :: nat)" by simp
  ultimately show ?thesis
    using map_page_refines [where vma = KERNEL_VMA and n = 5 and vs = example_space and va = "0x1000" and kstart = KERNEL_VMA
        and pa = "0x200000" and options = example_options] example_pages(1,3)
    by (auto split del: if_split)
qed




definition example_actions :: "MapAction list" where
  "example_actions =
     [\<lparr>ma_virt_addr = 0x1000, ma_phys_addr = 0x200000, ma_options = example_options\<rparr>,
      \<lparr>ma_virt_addr = 0x2000, ma_phys_addr = 0x201000, ma_options = example_options\<rparr>]"

lemma example_actions_ok:
  "a \<in> set example_actions \<Longrightarrow> action_ok KERNEL_VMA KERNEL_VMA a" "distinct (map ma_virt_addr example_actions)"
  using example_pages
  by (auto simp: example_actions_def action_ok_def KERNEL_VMA_def virt_ok_def HIGHER_HALF_START_def)


subsection \<open>The life of an address space\<close>

text \<open>
  The calls made on an address space: pages are mapped and unmapped, one by one or many at once, in
  any order, whether the call succeeds or reports an error.  The number counts the tables that may
  be allocated.
\<close>

inductive space_run :: "usize \<Rightarrow> usize \<Rightarrow> PmemManager VirtAddrSpace \<Rightarrow> nat \<Rightarrow> PmemManager VirtAddrSpace \<Rightarrow> bool"
  for vma kstart vs where
  space_start: "space_run vma kstart vs 0 vs"
| space_map: "space_run vma kstart vs k vs1 \<Longrightarrow> action_ok vma kstart a \<Longrightarrow>
     map_page vma kstart pm_alloc vs1 (ma_virt_addr a) (ma_phys_addr a) (ma_options a) = (vs2, r) \<Longrightarrow>
     space_run vma kstart vs (k + 3) vs2"
| space_unmap: "space_run vma kstart vs k vs1 \<Longrightarrow> user_page va \<Longrightarrow> va < kstart \<Longrightarrow>
     unmap_page vma kstart pm_dealloc vs1 va = Ok (vs2, r) \<Longrightarrow> space_run vma kstart vs k vs2"
| space_map_many: "space_run vma kstart vs k vs1 \<Longrightarrow> (\<And>a. a \<in> set actions \<Longrightarrow> action_ok vma kstart a) \<Longrightarrow>
     distinct (map ma_virt_addr actions) \<Longrightarrow> (\<And>a. a \<in> set actions \<Longrightarrow> translate vma vs1 (ma_virt_addr a) = None) \<Longrightarrow>
     map_many vma kstart pm_alloc pm_dealloc vs1 actions = (vs2, r) \<Longrightarrow>
     space_run vma kstart vs (k + 3 * length actions) vs2"

definition windowed :: "usize \<Rightarrow> PmemManager VirtAddrSpace \<Rightarrow> bool" where
  "windowed vma vs \<longleftrightarrow> (\<forall>b v. user_page b \<longrightarrow> translate vma vs b = Some v \<longrightarrow> in_window vma v)"

lemma windowed_update:
  assumes "windowed vma vs" and "\<And>b v. user_page b \<Longrightarrow> translate vma vs' b = Some v \<Longrightarrow> in_window vma v \<or> translate vma vs b = Some v"
  shows "windowed vma vs'"
  using assms unfolding windowed_def by blast

lemma translate_actions_windowed:
  assumes "\<And>a. a \<in> set actions \<Longrightarrow> action_ok vma kstart a" and "translate_actions actions t b = Some v"
  shows "in_window vma v \<or> t b = Some v"
  using assms action_window by (fastforce simp: translate_actions_def map_add_Some_iff dest!: map_of_SomeD)

lemma map_page_windowed:
  assumes "pm_space vma (n + 3) vs" and "windowed vma vs" and "action_ok vma kstart a"
    and run: "map_page vma kstart pm_alloc vs (ma_virt_addr a) (ma_phys_addr a) (ma_options a) = (vs', r)"
  shows "pm_space vma n vs' \<and> spare vma pm_live vs' = spare vma pm_live vs \<and> windowed vma vs'"
proof (cases "po_exists (ma_options a)")
  case True
  have a: "user_page (ma_virt_addr a)" "ma_virt_addr a < kstart" "phys_ok (ma_phys_addr a)" "4096 dvd ma_phys_addr a"
    using assms(3) by (simp_all add: action_ok_def)
  have w: "in_window vma (view_options (ma_phys_addr a) (ma_options a))"
    using action_window [OF assms(3)] by (simp add: action_view_def)
  from pmf.map_page_law [OF assms(1) a True] run
  have *: "pm_space vma n vs'" "spare vma pm_live vs' = spare vma pm_live vs"
    "\<forall>b. user_page b \<longrightarrow> translate vma vs' b =
       (if r = Ok () \<and> b = ma_virt_addr a then Some (view_options (ma_phys_addr a) (ma_options a)) else translate vma vs b)"
    by auto
  moreover have "windowed vma vs'" using *(3) w by (intro windowed_update [OF assms(2)]) (auto split: if_splits)
  ultimately show ?thesis by simp
next
  case False
  then have "vs' = vs" using assms(3) run by (simp add: action_ok_def map_page_def map_page_inner_def user_page_def)
  then show ?thesis using assms(2) pmf.space_ok_le [OF assms(1)] by simp
qed

lemma unmap_page_windowed:
  assumes "pm_space vma n vs" and "windowed vma vs" and "user_page va" "va < kstart" "0 < vma"
    and run: "unmap_page vma kstart pm_dealloc vs va = Ok (vs', r)"
  shows "pm_space vma n vs' \<and> spare vma pm_live vs' = spare vma pm_live vs \<and> windowed vma vs'"
proof -
  have "in_window vma v" if "translate vma vs va = Some v" for v using assms(2,3) that by (simp add: windowed_def)
  from pmf.unmap_page_law [OF assms(1,3,4) this assms(5)] run
  have *: "pm_space vma n vs'" "spare vma pm_live vs' = spare vma pm_live vs"
    "\<forall>b. user_page b \<longrightarrow> translate vma vs' b = (if b = va then None else translate vma vs b)"
    by (auto split: if_splits)
  moreover have "windowed vma vs'" using *(3) by (intro windowed_update [OF assms(2)]) (auto split: if_splits)
  ultimately show ?thesis by simp
qed

lemma map_many_windowed:
  assumes "pm_space vma (n + 3 * length actions) vs" and "windowed vma vs" "0 < vma"
    and acts: "\<And>a. a \<in> set actions \<Longrightarrow> action_ok vma kstart a" "distinct (map ma_virt_addr actions)"
      "\<And>a. a \<in> set actions \<Longrightarrow> translate vma vs (ma_virt_addr a) = None"
    and run: "map_many vma kstart pm_alloc pm_dealloc vs actions = (vs', r)"
  shows "pm_space vma n vs' \<and> spare vma pm_live vs' = spare vma pm_live vs \<and> windowed vma vs'"
proof -
  have *: "pm_space vma n vs'" "spare vma pm_live vs' = spare vma pm_live vs"
    "\<forall>b. user_page b \<longrightarrow> translate vma vs' b =
       (if r = Ok () then translate_actions actions (translate vma vs) b else translate vma vs b)"
    using pmf.map_many_loop_law [of vma n actions vs "[]" kstart] assms by (auto simp: map_many_def)
  moreover have "windowed vma vs'"
    using *(3) translate_actions_windowed [OF acts(1)] by (intro windowed_update [OF assms(2)]) (auto split: if_splits)
  ultimately show ?thesis by simp
qed

lemma space_run_ok:
  assumes "space_run vma kstart vs k vs'" and "pm_space vma (n + k) vs" and "windowed vma vs" and "0 < vma"
  shows "pm_space vma n vs' \<and> spare vma pm_live vs' = spare vma pm_live vs \<and> windowed vma vs'"
  using assms(1,2)
proof (induction arbitrary: n rule: space_run.induct)
  case space_start
  then show ?case using assms(3) by simp
next
  case (space_map k vs1 a vs2 r)
  then show ?case using map_page_windowed [of vma n vs1 kstart a vs2 r] space_map.IH [of "n + 3"] by (simp add: algebra_simps)
next
  case (space_unmap k vs1 va vs2 r)
  then show ?case using unmap_page_windowed [of vma n vs1 va kstart vs2 r] space_unmap.IH [of n] assms(4) by simp
next
  case (space_map_many k vs1 actions vs2 r)
  then show ?case
    using map_many_windowed [of vma n actions vs1 kstart vs2 r] space_map_many.IH [of "n + 3 * length actions"] assms(4)
    by (simp add: algebra_simps)
qed

text \<open>
  C2.  The life of an address space.  A new one has no page mapped.  After any sequence of calls
  that map and unmap pages in it, dropping it ends without a panic and gives back every table, so
  that exactly the frames are in use that were in use before it was made.
\<close>
theorem address_space_life:
  assumes "pm_ready vma (Suc n) pm" and "entry_present kernel_pointer" and "0 < vma"
  shows "VirtAddrSpace_new vma pm_alloc mem pm kernel_pointer = Err OutOfMem \<and> (\<exists>pm'. pm_alloc pm frame_layout = Ok (pm', None)) \<or>
    (\<exists>new. VirtAddrSpace_new vma pm_alloc mem pm kernel_pointer = Ok new \<and> (\<forall>b. user_page b \<longrightarrow> translate vma new b = None) \<and>
       (\<forall>k vs. k \<le> n \<longrightarrow> space_run vma kstart new k vs \<longrightarrow>
         (\<exists>pm'. dealloc_addr_space vma pm_dealloc vs = Ok (vs\<lparr>vs_alloc := pm'\<rparr>) \<and> pm_live pm' = pm_live pm)))"
proof -
  have "\<exists>pm'. dealloc_addr_space vma pm_dealloc vs = Ok (vs\<lparr>vs_alloc := pm'\<rparr>) \<and> pm_live pm' = pm_live pm"
    if "pm_space vma n new" "spare vma pm_live new = pm_live pm" "\<forall>b. user_page b \<longrightarrow> translate vma new b = None"
      "k \<le> n" "space_run vma kstart new k vs" for new k vs
  proof -
    have "windowed vma new" using that(3) by (simp add: windowed_def)
    with space_run_ok [OF that(5), of "n - k"] that(1,2,4) assms(3)
    have "pm_space vma (n - k) vs" "spare vma pm_live vs = pm_live pm" by simp_all
    then show ?thesis using pmf.dealloc_addr_space_law [of vma "n - k" vs] by auto
  qed
  then show ?thesis using pmf.VirtAddrSpace_new_law [OF assms(1,2), of mem] by blast
qed

theorem address_space_life_witness:
  "VirtAddrSpace_new KERNEL_VMA pm_alloc (\<lambda>_. []) window_pm 3 = Err OutOfMem \<or>
   (\<exists>new vs pm'. VirtAddrSpace_new KERNEL_VMA pm_alloc (\<lambda>_. []) window_pm 3 = Ok new \<and>
      vs = fst (map_page KERNEL_VMA KERNEL_VMA pm_alloc new 0x1000 0x200000 example_options) \<and>
      dealloc_addr_space KERNEL_VMA pm_dealloc vs = Ok (vs\<lparr>vs_alloc := pm'\<rparr>) \<and> pm_live pm' = pm_live window_pm)"
proof -
  have rd: "pm_ready KERNEL_VMA (Suc 5) window_pm"
    using example_space_ok(1) [of "Suc 5"] by (simp add: space_ok_def example_space_def)
  have k: "entry_present 3" by (simp add: entry_present_bit bit_0)
  have "action_ok KERNEL_VMA KERNEL_VMA (hd example_actions)" by (rule example_actions_ok(1)) (simp add: example_actions_def)
  then have run: "space_run KERNEL_VMA KERNEL_VMA new 3 (fst (map_page KERNEL_VMA KERNEL_VMA pm_alloc new 0x1000 0x200000 example_options))" for new
    using space_map [OF space_start, of KERNEL_VMA KERNEL_VMA "hd example_actions" new] by (simp add: example_actions_def prod_eq_iff)
  have "0 < KERNEL_VMA" by (simp add: KERNEL_VMA_def)
  note life = address_space_life [OF rd k this, of "\<lambda>_. []" KERNEL_VMA]
  from life show ?thesis
  proof (elim disjE exE conjE)
    fix new
    assume new: "VirtAddrSpace_new KERNEL_VMA pm_alloc (\<lambda>_. []) window_pm 3 = Ok new"
      and drop: "\<forall>k vs. k \<le> 5 \<longrightarrow> space_run KERNEL_VMA KERNEL_VMA new k vs \<longrightarrow>
         (\<exists>pm'. dealloc_addr_space KERNEL_VMA pm_dealloc vs = Ok (vs\<lparr>vs_alloc := pm'\<rparr>) \<and> pm_live pm' = pm_live window_pm)"
    from drop [rule_format, OF _ run] new show ?thesis by auto
  qed simp
qed

end
