(* ===== verification/Kernel_Vec.thy ===== *)
theory Kernel_Vec
  imports Prelude
begin

text \<open>
  The growable array of the kernel, \<^verbatim>\<open>kernel/src/container/vec.rs\<close>.

  A \<open>RawVec\<close> owns a buffer: its address, its capacity in elements, and the contents of its
  cells, \<open>None\<close> where nothing has been written yet.  The element type enters through its
  layout \<open>T\<close>, the heap through the two functions \<open>h_alloc\<close> and \<open>h_realloc\<close> of a
  \<open>heap_ops\<close>; what the code relies on of them is \<open>heap_ok\<close>.  A raw read of a cell that holds
  nothing and a raw write or copy outside of the buffer are undefined behaviour in the source;
  here they are \<open>Panic\<close>, and the lemmas show that they do not happen.
\<close>

subsection \<open>Layouts and the heap\<close>

record layout =
  l_size :: usize
  l_align :: usize

abbreviation isize_max :: nat where
  "isize_max \<equiv> 2 ^ 63 - 1"

text \<open>\<open>Layout::array\<close>: refused when the size, rounded up to the alignment, exceeds \<open>isize::MAX\<close>.\<close>

definition layout_array :: "layout \<Rightarrow> usize \<Rightarrow> layout option" where
  "layout_array T n =
     (if l_size T \<noteq> 0 \<and> (2 ^ 63 - l_align T) div l_size T < n then None
      else Some \<lparr>l_size = l_size T * n, l_align = l_align T\<rparr>)"

record heap_ops =
  h_alloc :: "layout \<Rightarrow> usize option"
  h_realloc :: "usize \<Rightarrow> layout \<Rightarrow> layout \<Rightarrow> usize option"

text \<open>What an allocator returns lies in one half of the canonical address space.\<close>

definition heap_ok :: "heap_ops \<Rightarrow> bool" where
  "heap_ok H \<longleftrightarrow>
     (\<forall>l p. h_alloc H l = Some p \<longrightarrow> l_size l \<le> 2 ^ 47 \<and> p + l_size l < usize_limit) \<and>
     (\<forall>q o' l p. h_realloc H q o' l = Some p \<longrightarrow> l_size l \<le> 2 ^ 47 \<and> p + l_size l < usize_limit)"

subsection \<open>The buffer\<close>

record 'a RawVec =
  rv_ptr :: usize
  rv_cap :: usize
  rv_mem :: "nat \<Rightarrow> 'a option"

definition RawVec_new :: "layout \<Rightarrow> 'a RawVec" where
  "RawVec_new T =
     \<lparr>rv_ptr = l_align T, rv_cap = (if l_size T = 0 then usize_limit - 1 else 0), rv_mem = (\<lambda>_. None)\<rparr>"

definition RawVec_try_with_capacity :: "layout \<Rightarrow> heap_ops \<Rightarrow> usize \<Rightarrow> 'a RawVec kresult" where
  "RawVec_try_with_capacity T H cap =
     (if l_size T = 0 then Ok (RawVec_new T)
      else
        rbind (expect (layout_array T cap)) (\<lambda>layout.
        rbind (ok_or (h_alloc H layout) OutOfMem) (\<lambda>ptr.
        Ok \<lparr>rv_ptr = ptr, rv_cap = cap, rv_mem = (\<lambda>_. None)\<rparr>)))"

text \<open>The second half of \<open>try_grow\<close>: a new buffer, with the cells of the old one.\<close>

definition RawVec_grow_to ::
  "layout \<Rightarrow> heap_ops \<Rightarrow> 'a RawVec \<Rightarrow> usize \<Rightarrow> 'a RawVec \<times> unit kresult" where
  "RawVec_grow_to T H rv new_cap =
     (case layout_array T new_cap of
        None \<Rightarrow> (rv, Panic)
      | Some new_layout \<Rightarrow>
          if isize_max < l_size new_layout then (rv, Panic)
          else
            (case (if rv_cap rv = 0 then Some (h_alloc H new_layout)
                   else map_option (\<lambda>old. h_realloc H (rv_ptr rv) old new_layout) (layout_array T (rv_cap rv))) of
               None \<Rightarrow> (rv, Panic)
             | Some None \<Rightarrow> (rv, Err OutOfMem)
             | Some (Some ptr) \<Rightarrow>
                 (\<lparr>rv_ptr = ptr, rv_cap = new_cap,
                   rv_mem = (\<lambda>i. if i < rv_cap rv then rv_mem rv i else None)\<rparr>, Ok ())))"

definition RawVec_try_grow ::
  "layout \<Rightarrow> heap_ops \<Rightarrow> 'a RawVec \<Rightarrow> usize option \<Rightarrow> 'a RawVec \<times> unit kresult" where
  "RawVec_try_grow T H rv required_cap =
     (if l_size T = 0 then (rv, Panic)
      else
        (case (if rv_cap rv = 0 then Ok 1 else umul 2 (rv_cap rv)) of
           Ok new_cap \<Rightarrow>
             (case required_cap of
                None \<Rightarrow> RawVec_grow_to T H rv new_cap
              | Some req \<Rightarrow>
                  if isize_max < req then (rv, Panic)
                  else if req \<le> rv_cap rv then (rv, Ok ())
                  else RawVec_grow_to T H rv (max new_cap req))
         | _ \<Rightarrow> (rv, Panic)))"

text \<open>The layout that the destructor gives back, if any.\<close>

definition RawVec_drop :: "layout \<Rightarrow> 'a RawVec \<Rightarrow> (usize \<times> layout) option kresult" where
  "RawVec_drop T rv =
     (if rv_cap rv \<noteq> 0 \<and> l_size T \<noteq> 0
      then rbind (expect (layout_array T (rv_cap rv))) (\<lambda>layout. Ok (Some (rv_ptr rv, layout)))
      else Ok None)"

text \<open>\<open>ptr::write\<close>, \<open>ptr::read\<close> and \<open>ptr::copy\<close> (which allows for overlap) on the cells.\<close>

definition ptr_write :: "'a RawVec \<Rightarrow> nat \<Rightarrow> 'a \<Rightarrow> 'a RawVec kresult" where
  "ptr_write rv i x = (if i < rv_cap rv then Ok (rv\<lparr>rv_mem := (rv_mem rv)(i \<mapsto> x)\<rparr>) else Panic)"

definition ptr_read :: "'a RawVec \<Rightarrow> nat \<Rightarrow> 'a kresult" where
  "ptr_read rv i = (if i < rv_cap rv then expect (rv_mem rv i) else Panic)"

definition ptr_copy :: "'a RawVec \<Rightarrow> nat \<Rightarrow> nat \<Rightarrow> nat \<Rightarrow> 'a RawVec kresult" where
  "ptr_copy rv src dst n =
     (if src + n \<le> rv_cap rv \<and> dst + n \<le> rv_cap rv
      then Ok (rv\<lparr>rv_mem := (\<lambda>i. if dst \<le> i \<and> i < dst + n then rv_mem rv (i - dst + src) else rv_mem rv i)\<rparr>)
      else Panic)"

subsection \<open>The vector\<close>

record 'a Vec =
  v_inner :: "'a RawVec"
  v_len :: usize

definition Vec_new :: "layout \<Rightarrow> 'a Vec" where
  "Vec_new T = \<lparr>v_inner = RawVec_new T, v_len = 0\<rparr>"

definition Vec_try_with_capacity :: "layout \<Rightarrow> heap_ops \<Rightarrow> usize \<Rightarrow> 'a Vec kresult" where
  "Vec_try_with_capacity T H capacity =
     rbind (RawVec_try_with_capacity T H capacity) (\<lambda>rv. Ok \<lparr>v_inner = rv, v_len = 0\<rparr>)"

abbreviation Vec_capacity :: "'a Vec \<Rightarrow> usize" where
  "Vec_capacity v \<equiv> rv_cap (v_inner v)"

text \<open>The initialised part, \<open>as_slice\<close>.\<close>

definition vec_list :: "'a Vec \<Rightarrow> 'a list" where
  "vec_list v = map (\<lambda>i. the (rv_mem (v_inner v) i)) [0..<v_len v]"

definition Vec_get :: "'a Vec \<Rightarrow> nat \<Rightarrow> 'a option" where
  "Vec_get v i = (if i < v_len v then Some (vec_list v ! i) else None)"

text \<open>Growing when the buffer is full, the first step of \<open>push\<close> and of \<open>insert\<close>.\<close>

definition Vec_reserve :: "layout \<Rightarrow> heap_ops \<Rightarrow> 'a Vec \<Rightarrow> 'a Vec \<times> unit kresult" where
  "Vec_reserve T H v =
     (if v_len v = Vec_capacity v
      then (case RawVec_try_grow T H (v_inner v) None of (rv, r) \<Rightarrow> (v\<lparr>v_inner := rv\<rparr>, r))
      else (v, Ok ()))"

text \<open>The steps after it run on a buffer with a free cell and change the vector only at the end.\<close>

definition finish :: "'a Vec \<times> unit kresult \<Rightarrow> ('a Vec \<Rightarrow> 'a Vec kresult) \<Rightarrow> 'a Vec \<times> unit kresult" where
  "finish p f =
     (case p of
        (v, Ok _) \<Rightarrow> (case f v of Ok v' \<Rightarrow> (v', Ok ()) | Err e \<Rightarrow> (v, Err e) | Panic \<Rightarrow> (v, Panic))
      | (v, r) \<Rightarrow> (v, r))"

definition Vec_push :: "layout \<Rightarrow> heap_ops \<Rightarrow> 'a Vec \<Rightarrow> 'a \<Rightarrow> 'a Vec \<times> unit kresult" where
  "Vec_push T H v object =
     finish (Vec_reserve T H v) (\<lambda>v.
       rbind (ptr_write (v_inner v) (v_len v) object) (\<lambda>rv.
       rbind (uadd (v_len v) 1) (\<lambda>len.
       Ok \<lparr>v_inner = rv, v_len = len\<rparr>)))"

definition Vec_pop :: "'a Vec \<Rightarrow> 'a Vec \<times> 'a option kresult" where
  "Vec_pop v =
     (if v_len v = 0 then (v, Ok None)
      else
        let v' = v\<lparr>v_len := v_len v - 1\<rparr>
        in (v', rbind (ptr_read (v_inner v') (v_len v')) (\<lambda>x. Ok (Some x))))"

definition Vec_insert :: "layout \<Rightarrow> heap_ops \<Rightarrow> 'a Vec \<Rightarrow> usize \<Rightarrow> 'a \<Rightarrow> 'a Vec \<times> unit kresult" where
  "Vec_insert T H v index object =
     (if \<not> index \<le> v_len v then (v, Panic)
      else
        finish (Vec_reserve T H v) (\<lambda>v.
          rbind (ptr_copy (v_inner v) index (index + 1) (v_len v - index)) (\<lambda>rv.
          rbind (ptr_write rv index object) (\<lambda>rv.
          rbind (uadd (v_len v) 1) (\<lambda>len.
          Ok \<lparr>v_inner = rv, v_len = len\<rparr>)))))"

definition Vec_try_remove :: "'a Vec \<Rightarrow> usize \<Rightarrow> 'a Vec \<times> 'a option kresult" where
  "Vec_try_remove v index =
     (if v_len v \<le> index then (v, Ok None)
      else
        (case ptr_read (v_inner v) index of
           Ok out \<Rightarrow>
             let len = v_len v - 1
             in (case ptr_copy (v_inner v) (index + 1) index (len - index) of
                   Ok rv \<Rightarrow> (\<lparr>v_inner = rv, v_len = len\<rparr>, Ok (Some out))
                 | _ \<Rightarrow> (v\<lparr>v_len := len\<rparr>, Panic))
         | _ \<Rightarrow> (v, Panic)))"

definition Vec_remove :: "'a Vec \<Rightarrow> usize \<Rightarrow> 'a Vec \<times> 'a kresult" where
  "Vec_remove v index = (case Vec_try_remove v index of (v', r) \<Rightarrow> (v', rbind r expect))"

definition Vec_push_front :: "layout \<Rightarrow> heap_ops \<Rightarrow> 'a Vec \<Rightarrow> 'a \<Rightarrow> 'a Vec \<times> unit kresult" where
  "Vec_push_front T H v object = Vec_insert T H v 0 object"

definition Vec_pop_front :: "'a Vec \<Rightarrow> 'a Vec \<times> 'a option kresult" where
  "Vec_pop_front v = Vec_try_remove v 0"

definition Vec_replace :: "'a Vec \<Rightarrow> usize \<Rightarrow> 'a \<Rightarrow> 'a Vec \<times> 'a kresult" where
  "Vec_replace v index object =
     (if \<not> index < v_len v then (v, Panic)
      else
        (case ptr_read (v_inner v) index of
           Ok out \<Rightarrow>
             (case ptr_write (v_inner v) index object of
                Ok rv \<Rightarrow> (v\<lparr>v_inner := rv\<rparr>, Ok out)
              | _ \<Rightarrow> (v, Panic))
         | _ \<Rightarrow> (v, Panic)))"

text \<open>Equal indices are not checked against the length.\<close>

definition Vec_swap :: "'a Vec \<Rightarrow> usize \<Rightarrow> usize \<Rightarrow> 'a Vec \<times> unit kresult" where
  "Vec_swap v a b =
     (if a = b then (v, Ok ())
      else if a < v_len v \<and> b < v_len v
      then (v\<lparr>v_inner := (v_inner v)\<lparr>rv_mem := (rv_mem (v_inner v))
              (a := rv_mem (v_inner v) b, b := rv_mem (v_inner v) a)\<rparr>\<rparr>, Ok ())
      else (v, Panic))"

text \<open>The loops that pop elements; the second component lists the elements dropped, in order.\<close>

function Vec_truncate :: "'a Vec \<Rightarrow> usize \<Rightarrow> 'a Vec \<times> 'a list kresult" where
  "Vec_truncate v len =
     (if len < v_len v then
        (case Vec_pop v of
           (v', Ok x) \<Rightarrow>
             (case Vec_truncate v' len of (v'', r) \<Rightarrow> (v'', rbind r (\<lambda>xs. Ok (case x of None \<Rightarrow> xs | Some y \<Rightarrow> y # xs))))
         | (v', _) \<Rightarrow> (v', Panic))
      else (v, Ok []))"
  by pat_completeness auto
termination
  by (relation "measure (\<lambda>(v, len). v_len v)") (auto simp: Vec_pop_def Let_def split: if_splits)

function Vec_clear :: "'a Vec \<Rightarrow> 'a Vec \<times> 'a list kresult" where
  "Vec_clear v =
     (case Vec_pop v of
        (v', Ok (Some x)) \<Rightarrow> (case Vec_clear v' of (v'', r) \<Rightarrow> (v'', rbind r (\<lambda>xs. Ok (x # xs))))
      | (v', Ok None) \<Rightarrow> (v', Ok [])
      | (v', _) \<Rightarrow> (v', Panic))"
  by pat_completeness auto
termination
  by (relation "measure v_len") (auto simp: Vec_pop_def Let_def split: if_splits)

declare Vec_truncate.simps [simp del] Vec_clear.simps [simp del]

fun Vec_push_all :: "layout \<Rightarrow> heap_ops \<Rightarrow> 'a Vec \<Rightarrow> 'a list \<Rightarrow> 'a Vec \<times> unit kresult" where
  "Vec_push_all T H v [] = (v, Ok ())"
| "Vec_push_all T H v (x # xs) =
     (case Vec_push T H v x of (v', Ok _) \<Rightarrow> Vec_push_all T H v' xs | (v', r) \<Rightarrow> (v', r))"

definition Vec_extend :: "layout \<Rightarrow> heap_ops \<Rightarrow> 'a Vec \<Rightarrow> 'a list \<Rightarrow> 'a Vec \<times> unit kresult" where
  "Vec_extend T H v xs =
     (case Vec_push_all T H v xs of
        (v', Err e) \<Rightarrow> (case Vec_truncate v' (v_len v) of (v'', Ok _) \<Rightarrow> (v'', Err e) | (v'', _) \<Rightarrow> (v'', Panic))
      | (v', r) \<Rightarrow> (v', r))"

text \<open>A failure of one of the pushes is unwrapped.\<close>

definition Vec_extend_from_slice :: "layout \<Rightarrow> heap_ops \<Rightarrow> 'a Vec \<Rightarrow> 'a list \<Rightarrow> 'a Vec \<times> unit kresult" where
  "Vec_extend_from_slice T H v xs =
     (case uadd (v_len v) (length xs) of
        Ok required \<Rightarrow>
          (case RawVec_try_grow T H (v_inner v) (Some required) of
             (rv, Ok _) \<Rightarrow>
               (case Vec_push_all T H (v\<lparr>v_inner := rv\<rparr>) xs of
                  (v', Ok _) \<Rightarrow> (v', Ok ()) | (v', _) \<Rightarrow> (v', Panic))
           | (rv, r) \<Rightarrow> (v\<lparr>v_inner := rv\<rparr>, r))
      | _ \<Rightarrow> (v, Panic))"

definition Vec_from_slice :: "layout \<Rightarrow> heap_ops \<Rightarrow> 'a list \<Rightarrow> 'a Vec kresult" where
  "Vec_from_slice T H xs =
     rbind (Vec_try_with_capacity T H (length xs)) (\<lambda>out.
     case Vec_push_all T H out xs of (v, r) \<Rightarrow> rbind r (\<lambda>_. Ok v))"

text \<open>The destructor: the elements dropped and the buffer given back.\<close>

definition Vec_drop :: "layout \<Rightarrow> 'a Vec \<Rightarrow> ('a list \<times> (usize \<times> layout) option) kresult" where
  "Vec_drop T v =
     (case Vec_clear v of (v', r) \<Rightarrow>
        rbind r (\<lambda>xs. rbind (RawVec_drop T (v_inner v')) (\<lambda>d. Ok (xs, d))))"

subsection \<open>Iteration by value\<close>

record RawIter =
  ri_start :: usize
  ri_end :: usize

definition elem_size :: "layout \<Rightarrow> usize" where
  "elem_size T = (if l_size T = 0 then 1 else l_size T)"

definition RawIter_new :: "layout \<Rightarrow> usize \<Rightarrow> nat \<Rightarrow> RawIter kresult" where
  "RawIter_new T addr n =
     rbind (umul (elem_size T) n) (\<lambda>bytes.
     rbind (uadd addr bytes) (\<lambda>e.
     Ok \<lparr>ri_start = addr, ri_end = e\<rparr>))"

definition RawIter_next :: "layout \<Rightarrow> RawIter \<Rightarrow> (RawIter \<times> usize option) kresult" where
  "RawIter_next T it =
     (if ri_start it = ri_end it then Ok (it, None)
      else
        rbind (uadd (ri_start it) (elem_size T)) (\<lambda>s.
        Ok (it\<lparr>ri_start := s\<rparr>, Some (ri_start it))))"

definition RawIter_next_back :: "layout \<Rightarrow> RawIter \<Rightarrow> (RawIter \<times> usize option) kresult" where
  "RawIter_next_back T it =
     (if ri_start it = ri_end it then Ok (it, None)
      else
        rbind (usub (ri_start it) (elem_size T)) (\<lambda>s.
        Ok (it\<lparr>ri_start := s\<rparr>, Some s)))"

record 'a IntoIter =
  it_inner :: RawIter
  it_buffer :: "'a RawVec"

definition Vec_into_iter :: "layout \<Rightarrow> 'a Vec \<Rightarrow> 'a IntoIter kresult" where
  "Vec_into_iter T v =
     rbind (RawIter_new T (rv_ptr (v_inner v)) (v_len v)) (\<lambda>it.
     Ok \<lparr>it_inner = it, it_buffer = v_inner v\<rparr>)"

text \<open>Reading through a pointer: the cell at its offset from the buffer, or undefined behaviour.\<close>

definition read_at :: "layout \<Rightarrow> 'a RawVec \<Rightarrow> usize \<Rightarrow> 'a kresult" where
  "read_at T rv p = (if p < rv_ptr rv then Panic else ptr_read rv ((p - rv_ptr rv) div elem_size T))"

definition IntoIter_next :: "layout \<Rightarrow> 'a IntoIter \<Rightarrow> ('a IntoIter \<times> 'a option) kresult" where
  "IntoIter_next T it =
     rbind (RawIter_next T (it_inner it)) (\<lambda>(raw, p).
     case p of
       None \<Rightarrow> Ok (it\<lparr>it_inner := raw\<rparr>, None)
     | Some a \<Rightarrow> rbind (read_at T (it_buffer it) a) (\<lambda>x. Ok (it\<lparr>it_inner := raw\<rparr>, Some x)))"

definition IntoIter_next_back :: "layout \<Rightarrow> 'a IntoIter \<Rightarrow> ('a IntoIter \<times> 'a option) kresult" where
  "IntoIter_next_back T it =
     rbind (RawIter_next_back T (it_inner it)) (\<lambda>(raw, p).
     case p of
       None \<Rightarrow> Ok (it\<lparr>it_inner := raw\<rparr>, None)
     | Some a \<Rightarrow> rbind (read_at T (it_buffer it) a) (\<lambda>x. Ok (it\<lparr>it_inner := raw\<rparr>, Some x)))"

text \<open>Draining the iterator, as its destructor and a \<open>for\<close> loop do.\<close>

function IntoIter_drain :: "layout \<Rightarrow> 'a IntoIter \<Rightarrow> 'a list kresult" where
  "IntoIter_drain T it =
     (case IntoIter_next T it of
        Ok (it', Some x) \<Rightarrow> rbind (IntoIter_drain T it') (\<lambda>xs. Ok (x # xs))
      | Ok (it', None) \<Rightarrow> Ok []
      | Err e \<Rightarrow> Err e
      | Panic \<Rightarrow> Panic)"
  by pat_completeness auto
termination
  by (relation "measure (\<lambda>(T, it). usize_limit - ri_start (it_inner it))")
    (auto simp: IntoIter_next_def RawIter_next_def elem_size_def res_simps split: if_splits option.splits)

declare IntoIter_drain.simps [simp del]


subsection \<open>The invariant and the list a vector stands for\<close>

text \<open>The layout of a type: a size that is itself allowed, an alignment that the compiler accepts.\<close>

definition elem_ok :: "layout \<Rightarrow> bool" where
  "elem_ok T \<longleftrightarrow> 0 < l_align T \<and> l_align T \<le> 2 ^ 29 \<and> l_size T + l_align T \<le> 2 ^ 63"

definition buffer_ok :: "layout \<Rightarrow> 'a RawVec \<Rightarrow> bool" where
  "buffer_ok T rv \<longleftrightarrow> elem_ok T \<and>
     (if l_size T = 0 then rv_cap rv = usize_limit - 1
      else l_size T * rv_cap rv \<le> 2 ^ 47 \<and> rv_ptr rv + l_size T * rv_cap rv < usize_limit)"

definition Vec_inv :: "layout \<Rightarrow> 'a Vec \<Rightarrow> bool" where
  "Vec_inv T v \<longleftrightarrow> buffer_ok T (v_inner v) \<and> v_len v \<le> Vec_capacity v \<and>
     (\<forall>i < v_len v. rv_mem (v_inner v) i \<noteq> None)"

text \<open>The cells below the length hold the elements of the list.\<close>

definition holds :: "'a RawVec \<Rightarrow> 'a list \<Rightarrow> bool" where
  "holds rv xs \<longleftrightarrow> length xs \<le> rv_cap rv \<and> (\<forall>i < length xs. rv_mem rv i = Some (xs ! i))"

lemma length_vec_list [simp]: "length (vec_list v) = v_len v"
  by (simp add: vec_list_def)

lemma Vec_inv_holds: "Vec_inv T v \<Longrightarrow> holds (v_inner v) (vec_list v)"
  by (auto simp: Vec_inv_def holds_def vec_list_def)

lemma holds_Vec_inv:
  assumes "buffer_ok T (v_inner v)" and "holds (v_inner v) xs" and "v_len v = length xs"
  shows "Vec_inv T v" and "vec_list v = xs"
  using assms by (auto simp: Vec_inv_def holds_def vec_list_def intro: nth_equalityI)

lemma buffer_ok_mem [simp]: "buffer_ok T (rv\<lparr>rv_mem := m\<rparr>) \<longleftrightarrow> buffer_ok T rv"
  by (simp add: buffer_ok_def)

lemma heap_okD:
  "heap_ok H \<Longrightarrow> h_alloc H l = Some p \<Longrightarrow> l_size l \<le> 2 ^ 47 \<and> p + l_size l < usize_limit"
  "heap_ok H \<Longrightarrow> h_realloc H q old l = Some p \<Longrightarrow> l_size l \<le> 2 ^ 47 \<and> p + l_size l < usize_limit"
  unfolding heap_ok_def by blast+

lemma buffer_cap_bound:
  assumes "buffer_ok T rv"
  shows "rv_cap rv < usize_limit"
proof (cases "l_size T = 0")
  case False
  then have "rv_cap rv \<le> l_size T * rv_cap rv" by simp
  also have "\<dots> \<le> 2 ^ 47" using assms False by (simp add: buffer_ok_def)
  finally show ?thesis by simp
qed (use assms in \<open>simp add: buffer_ok_def\<close>)

lemma ptr_write_holds:
  assumes "holds rv xs" and "length xs < rv_cap rv"
  shows "\<exists>rv'. ptr_write rv (length xs) x = Ok rv' \<and> holds rv' (xs @ [x]) \<and> (buffer_ok T rv' \<longleftrightarrow> buffer_ok T rv)"
  using assms by (auto simp: ptr_write_def holds_def nth_append)

lemma ptr_read_holds: "holds rv xs \<Longrightarrow> i < length xs \<Longrightarrow> ptr_read rv i = Ok (xs ! i)"
  by (simp add: ptr_read_def holds_def)

text \<open>Moving the tail up by one cell and filling the gap; moving it down over the removed cell.\<close>

lemma ptr_shift_up:
  assumes h: "holds rv xs" and c: "length xs < rv_cap rv" and i: "i \<le> length xs"
  obtains rv' rv'' where "ptr_copy rv i (i + 1) (length xs - i) = Ok rv'" "ptr_write rv' i x = Ok rv''"
    "holds rv'' (vec_insert i x xs)" "buffer_ok T rv'' \<longleftrightarrow> buffer_ok T rv"
proof -
  let ?rv = "rv\<lparr>rv_mem := (\<lambda>j. if i + 1 \<le> j \<and> j < i + 1 + (length xs - i)
      then rv_mem rv (j - (i + 1) + i) else rv_mem rv j)\<rparr>"
  have "ptr_copy rv i (i + 1) (length xs - i) = Ok ?rv"
    unfolding ptr_copy_def by (rule if_P) (use c i in simp)
  moreover have "ptr_write ?rv i x = Ok (?rv\<lparr>rv_mem := (rv_mem ?rv)(i \<mapsto> x)\<rparr>)"
    using c i by (simp add: ptr_write_def)
  moreover have "holds (?rv\<lparr>rv_mem := (rv_mem ?rv)(i \<mapsto> x)\<rparr>) (vec_insert i x xs)"
    unfolding holds_def
  proof (intro conjI allI impI)
    fix j assume j: "j < length (vec_insert i x xs)"
    consider "j < i" | "j = i" | k where "j = Suc k" "i \<le> k" "k < length xs"
      using j by (cases j) (auto simp: not_less less_Suc_eq_le; linarith)+
    then show "rv_mem (?rv\<lparr>rv_mem := (rv_mem ?rv)(i \<mapsto> x)\<rparr>) j = Some (vec_insert i x xs ! j)"
    proof cases
      case 3
      then show ?thesis using h i by (simp add: holds_def vec_insert_def nth_append)
    qed (use h i in \<open>simp_all add: holds_def vec_insert_def nth_append\<close>)
  qed (use c in simp)
  ultimately show ?thesis by (rule that) simp
qed

lemma ptr_shift_down:
  assumes h: "holds rv xs" and i: "i < length xs"
  obtains rv' where "ptr_copy rv (i + 1) i (length xs - 1 - i) = Ok rv'"
    "holds rv' (vec_remove i xs)" "buffer_ok T rv' \<longleftrightarrow> buffer_ok T rv"
proof -
  let ?rv = "rv\<lparr>rv_mem := (\<lambda>j. if i \<le> j \<and> j < i + (length xs - 1 - i)
      then rv_mem rv (j - i + (i + 1)) else rv_mem rv j)\<rparr>"
  have "ptr_copy rv (i + 1) i (length xs - 1 - i) = Ok ?rv"
    unfolding ptr_copy_def by (rule if_P) (use h i in \<open>auto simp: holds_def\<close>)
  moreover have "holds ?rv (vec_remove i xs)"
    using h i by (auto simp: holds_def vec_remove_def nth_append)
  ultimately show ?thesis by (rule that) simp
qed

subsection \<open>Growing\<close>

lemma layout_array_fits:
  assumes "elem_ok T" and "l_size T * n \<le> 2 ^ 48 \<or> n \<le> 1"
  shows "layout_array T n = Some \<lparr>l_size = l_size T * n, l_align = l_align T\<rparr>"
    and "l_size T * n \<le> isize_max"
proof -
  have e: "0 < l_align T" "l_align T \<le> 2 ^ 29" "l_size T + l_align T \<le> 2 ^ 63"
    using assms(1) by (simp_all add: elem_ok_def)
  from assms(2) have le: "l_size T * n + l_align T \<le> 2 ^ 63"
  proof
    assume "n \<le> 1"
    then have "l_size T * n \<le> l_size T" by (cases n) auto
    then show ?thesis using e(3) by linarith
  next
    assume "l_size T * n \<le> 2 ^ 48"
    then show ?thesis using e(2) by simp
  qed
  then have "n * l_size T \<le> 2 ^ 63 - l_align T" by (simp add: mult.commute)
  then have "l_size T \<noteq> 0 \<Longrightarrow> n \<le> (2 ^ 63 - l_align T) div l_size T"
    by (simp only: less_eq_div_iff_mult_less_eq)
  then show "layout_array T n = Some \<lparr>l_size = l_size T * n, l_align = l_align T\<rparr>"
    by (auto simp: layout_array_def not_less)
  show "l_size T * n \<le> isize_max" using le e(1) by linarith
qed

lemma RawVec_grow_to_cases:
  assumes ok: "buffer_ok T rv" and T: "l_size T \<noteq> 0" and H: "heap_ok H"
    and n: "rv_cap rv < n" "l_size T * n \<le> 2 ^ 48 \<or> n \<le> 1"
  obtains (oom) "RawVec_grow_to T H rv n = (rv, Err OutOfMem)"
    | (grown) rv' where "RawVec_grow_to T H rv n = (rv', Ok ())" "buffer_ok T rv'" "rv_cap rv' = n"
        "\<And>xs. holds rv xs \<Longrightarrow> holds rv' xs"
proof -
  have e: "elem_ok T" using ok by (simp add: buffer_ok_def)
  note fits = layout_array_fits [OF e n(2)]
  have "l_size T * rv_cap rv \<le> 2 ^ 48" using ok T by (simp add: buffer_ok_def)
  then have old: "layout_array T (rv_cap rv) = Some \<lparr>l_size = l_size T * rv_cap rv, l_align = l_align T\<rparr>"
    using layout_array_fits(1) [OF e] by blast
  define new where "new = \<lparr>l_size = l_size T * n, l_align = l_align T\<rparr>"
  define got where "got = (if rv_cap rv = 0 then h_alloc H new
    else h_realloc H (rv_ptr rv) \<lparr>l_size = l_size T * rv_cap rv, l_align = l_align T\<rparr> new)"
  have run: "RawVec_grow_to T H rv n =
      (case got of None \<Rightarrow> (rv, Err OutOfMem)
       | Some p \<Rightarrow> (\<lparr>rv_ptr = p, rv_cap = n, rv_mem = (\<lambda>i. if i < rv_cap rv then rv_mem rv i else None)\<rparr>, Ok ()))"
    using fits by (auto simp: RawVec_grow_to_def old got_def new_def split: option.splits)
  show ?thesis
  proof (cases got)
    case None
    with run oom show ?thesis by simp
  next
    case (Some p)
    have "l_size T * n \<le> 2 ^ 47 \<and> p + l_size T * n < usize_limit"
      using heap_okD [OF H] Some by (cases "rv_cap rv = 0") (fastforce simp: got_def new_def)+
    then show ?thesis
      using run Some T e n(1)
      by (intro grown [of "\<lparr>rv_ptr = p, rv_cap = n, rv_mem = (\<lambda>i. if i < rv_cap rv then rv_mem rv i else None)\<rparr>"])
        (auto simp: buffer_ok_def holds_def)
  qed
qed

lemma Vec_reserve_cases:
  assumes inv: "Vec_inv T v" and T: "l_size T \<noteq> 0" and H: "heap_ok H"
  obtains (oom) "Vec_reserve T H v = (v, Err OutOfMem)"
    | (room) rv where "Vec_reserve T H v = (v\<lparr>v_inner := rv\<rparr>, Ok ())" "buffer_ok T rv"
        "holds rv (vec_list v)" "v_len v < rv_cap rv"
proof (cases "v_len v = Vec_capacity v")
  case False
  then show ?thesis
    using inv Vec_inv_holds [OF inv] by (intro room [of "v_inner v"]) (auto simp: Vec_reserve_def Vec_inv_def)
next
  case True
  let ?rv = "v_inner v"
  have ok: "buffer_ok T ?rv" using inv by (simp add: Vec_inv_def)
  have c: "l_size T * rv_cap ?rv \<le> 2 ^ 47" using ok T by (simp add: buffer_ok_def)
  have "rv_cap ?rv \<le> l_size T * rv_cap ?rv" using T by simp
  with c have "rv_cap ?rv \<le> 2 ^ 47" by linarith
  then have grow: "RawVec_try_grow T H ?rv None =
      RawVec_grow_to T H ?rv (if rv_cap ?rv = 0 then 1 else 2 * rv_cap ?rv)"
    using T by (simp add: RawVec_try_grow_def umul_def)
  have "l_size T * (2 * rv_cap ?rv) \<le> 2 ^ 48" using c by simp
  then have n: "rv_cap ?rv < (if rv_cap ?rv = 0 then 1 else 2 * rv_cap ?rv)"
      "l_size T * (if rv_cap ?rv = 0 then 1 else 2 * rv_cap ?rv) \<le> 2 ^ 48 \<or>
       (if rv_cap ?rv = 0 then 1 else 2 * rv_cap ?rv) \<le> (1 :: nat)" by auto
  show ?thesis
  proof (cases rule: RawVec_grow_to_cases [OF ok T H n])
    case 1
    then show ?thesis using True grow by (intro oom) (simp add: Vec_reserve_def)
  next
    case (2 rv')
    then show ?thesis
      using True grow Vec_inv_holds [OF inv] n(1) by (intro room [of rv']) (auto simp: Vec_reserve_def)
  qed
qed

subsection \<open>The operations on the list\<close>

lemma Vec_push_cases:
  assumes inv: "Vec_inv T v" and T: "l_size T \<noteq> 0" and H: "heap_ok H"
  obtains (oom) "Vec_push T H v x = (v, Err OutOfMem)"
    | (ok) v' where "Vec_push T H v x = (v', Ok ())" "Vec_inv T v'" "vec_list v' = vec_list v @ [x]"
        "v_len v < Vec_capacity v \<Longrightarrow> Vec_capacity v' = Vec_capacity v"
proof (cases rule: Vec_reserve_cases [OF assms])
  case 1
  then show ?thesis by (intro oom) (simp add: Vec_push_def finish_def)
next
  case (2 rv)
  obtain rv' where w: "ptr_write rv (v_len v) x = Ok rv'" "holds rv' (vec_list v @ [x])" "buffer_ok T rv'"
    using ptr_write_holds [OF 2(3), of x T] 2(2,4) by auto
  have cap: "rv_cap rv' = rv_cap rv" using w(1) by (auto simp: ptr_write_def split: if_splits)
  have "v_len v + 1 < usize_limit" using buffer_cap_bound [OF 2(2)] 2(4) by linarith
  then have "Vec_push T H v x = (\<lparr>v_inner = rv', v_len = length (vec_list v @ [x])\<rparr>, Ok ())"
    using 2(1) w(1) by (simp add: Vec_push_def finish_def uadd_def)
  moreover have "v_len v < Vec_capacity v \<Longrightarrow> rv = v_inner v"
    using 2(1) by (simp add: Vec_reserve_def) (metis Vec.select_convs(1) Vec.surjective Vec.update_convs(1))
  ultimately show ?thesis
    using holds_Vec_inv [of T "\<lparr>v_inner = rv', v_len = length (vec_list v @ [x])\<rparr>" "vec_list v @ [x]"] w(2,3) cap
    by (intro ok [of "\<lparr>v_inner = rv', v_len = length (vec_list v @ [x])\<rparr>"]) simp_all
qed

lemma Vec_insert_cases:
  assumes inv: "Vec_inv T v" and T: "l_size T \<noteq> 0" and H: "heap_ok H" and i: "i \<le> v_len v"
  obtains (oom) "Vec_insert T H v i x = (v, Err OutOfMem)"
    | (ok) v' where "Vec_insert T H v i x = (v', Ok ())" "Vec_inv T v'" "vec_list v' = vec_insert i x (vec_list v)"
proof (cases rule: Vec_reserve_cases [OF inv T H])
  case 1
  then show ?thesis using i by (intro oom) (simp add: Vec_insert_def finish_def)
next
  case (2 rv)
  obtain rv' rv'' where w: "ptr_copy rv i (i + 1) (v_len v - i) = Ok rv'" "ptr_write rv' i x = Ok rv''"
    "holds rv'' (vec_insert i x (vec_list v))" "buffer_ok T rv''"
    using ptr_shift_up [OF 2(3), of i x T] 2(2,4) i by auto
  have "v_len v + 1 < usize_limit" using buffer_cap_bound [OF 2(2)] 2(4) by linarith
  then have "Vec_insert T H v i x = (\<lparr>v_inner = rv'', v_len = length (vec_insert i x (vec_list v))\<rparr>, Ok ())"
    using 2(1) w(1,2) i by (simp add: Vec_insert_def finish_def uadd_def)
  then show ?thesis
    using holds_Vec_inv [of T "\<lparr>v_inner = rv'', v_len = length (vec_insert i x (vec_list v))\<rparr>" "vec_insert i x (vec_list v)"] w(3,4)
    by (intro ok [of "\<lparr>v_inner = rv'', v_len = length (vec_insert i x (vec_list v))\<rparr>"]) simp_all
qed

lemma Vec_insert_out: "v_len v < i \<Longrightarrow> Vec_insert T H v i x = (v, Panic)"
  by (simp add: Vec_insert_def)

lemma Vec_try_remove_some:
  assumes inv: "Vec_inv T v" and i: "i < v_len v"
  obtains v' where "Vec_try_remove v i = (v', Ok (Some (vec_list v ! i)))" "Vec_inv T v'"
    "vec_list v' = vec_remove i (vec_list v)"
proof -
  note h = Vec_inv_holds [OF inv]
  have ok: "buffer_ok T (v_inner v)" using inv by (simp add: Vec_inv_def)
  obtain rv' where w: "ptr_copy (v_inner v) (i + 1) i (v_len v - 1 - i) = Ok rv'"
    "holds rv' (vec_remove i (vec_list v))" "buffer_ok T rv'"
    using ptr_shift_down [OF h, of i T] i ok by auto
  have "Vec_try_remove v i =
      (\<lparr>v_inner = rv', v_len = length (vec_remove i (vec_list v))\<rparr>, Ok (Some (vec_list v ! i)))"
    using i w(1) ptr_read_holds [OF h, of i] by (simp add: Vec_try_remove_def Let_def)
  then show ?thesis
    using holds_Vec_inv [of T "\<lparr>v_inner = rv', v_len = length (vec_remove i (vec_list v))\<rparr>" "vec_remove i (vec_list v)"] w(2,3)
    by (intro that [of "\<lparr>v_inner = rv', v_len = length (vec_remove i (vec_list v))\<rparr>"]) simp_all
qed

lemma Vec_try_remove_none: "v_len v \<le> i \<Longrightarrow> Vec_try_remove v i = (v, Ok None)"
  by (simp add: Vec_try_remove_def)

lemma Vec_pop_some:
  assumes inv: "Vec_inv T v" and n: "0 < v_len v"
  shows "Vec_pop v = (v\<lparr>v_len := v_len v - 1\<rparr>, Ok (Some (last (vec_list v))))"
    and "Vec_inv T (v\<lparr>v_len := v_len v - 1\<rparr>)"
    and "vec_list (v\<lparr>v_len := v_len v - 1\<rparr>) = butlast (vec_list v)"
proof -
  have "ptr_read (v_inner v) (v_len v - 1) = Ok (vec_list v ! (v_len v - 1))"
    using ptr_read_holds [OF Vec_inv_holds [OF inv], of "v_len v - 1"] n by simp
  moreover have "vec_list v \<noteq> []" using n by (metis length_vec_list list.size(3) less_irrefl)
  ultimately show "Vec_pop v = (v\<lparr>v_len := v_len v - 1\<rparr>, Ok (Some (last (vec_list v))))"
    using n by (simp add: Vec_pop_def Let_def last_conv_nth)
  show "Vec_inv T (v\<lparr>v_len := v_len v - 1\<rparr>)" using inv by (auto simp: Vec_inv_def)
  show "vec_list (v\<lparr>v_len := v_len v - 1\<rparr>) = butlast (vec_list v)"
    by (rule nth_equalityI) (auto simp: vec_list_def nth_butlast)
qed

lemma Vec_pop_none: "v_len v = 0 \<Longrightarrow> Vec_pop v = (v, Ok None)"
  by (simp add: Vec_pop_def)

lemma Vec_replace_ok:
  assumes inv: "Vec_inv T v" and i: "i < v_len v"
  obtains v' where "Vec_replace v i x = (v', Ok (vec_list v ! i))" "Vec_inv T v'" "vec_list v' = (vec_list v)[i := x]"
proof -
  note h = Vec_inv_holds [OF inv]
  have c: "i < rv_cap (v_inner v)" using i inv by (simp add: Vec_inv_def)
  let ?rv = "(v_inner v)\<lparr>rv_mem := (rv_mem (v_inner v))(i \<mapsto> x)\<rparr>"
  have "buffer_ok T ?rv" using inv by (simp add: Vec_inv_def)
  moreover have "holds ?rv ((vec_list v)[i := x])" using h i by (auto simp: holds_def nth_list_update)
  ultimately have "Vec_inv T (v\<lparr>v_inner := ?rv\<rparr>)" "vec_list (v\<lparr>v_inner := ?rv\<rparr>) = (vec_list v)[i := x]"
    using holds_Vec_inv [of T "v\<lparr>v_inner := ?rv\<rparr>" "(vec_list v)[i := x]"] by simp_all
  then show ?thesis
    using i c ptr_read_holds [OF h, of i] by (intro that) (simp_all add: Vec_replace_def ptr_write_def)
qed

lemma Vec_swap_ok:
  assumes inv: "Vec_inv T v" and ij: "i < v_len v" "j < v_len v"
  obtains v' where "Vec_swap v i j = (v', Ok ())" "Vec_inv T v'"
    "vec_list v' = (vec_list v)[i := vec_list v ! j, j := vec_list v ! i]"
proof (cases "i = j")
  case True
  then show ?thesis using inv that [of v] by (simp add: Vec_swap_def)
next
  case False
  let ?m = "rv_mem (v_inner v)"
  let ?rv = "(v_inner v)\<lparr>rv_mem := ?m(i := ?m j, j := ?m i)\<rparr>"
  let ?xs = "(vec_list v)[i := vec_list v ! j, j := vec_list v ! i]"
  have "buffer_ok T ?rv" using inv by (simp add: Vec_inv_def)
  moreover have "holds ?rv ?xs"
    using Vec_inv_holds [OF inv] ij False by (auto simp: holds_def nth_list_update)
  ultimately have "Vec_inv T (v\<lparr>v_inner := ?rv\<rparr>)" "vec_list (v\<lparr>v_inner := ?rv\<rparr>) = ?xs"
    using holds_Vec_inv [of T "v\<lparr>v_inner := ?rv\<rparr>" ?xs] by simp_all
  then show ?thesis using ij False by (intro that) (simp_all add: Vec_swap_def)
qed

subsection \<open>The contract of a vector\<close>

text \<open>
  What the containers built on a vector rely on: the list it stands for after each operation,
  and that an operation that fails leaves the vector as it was.
\<close>

locale vector =
  fixes inv :: "'s \<Rightarrow> bool" and elems :: "'s \<Rightarrow> 'a list"
    and push :: "'s \<Rightarrow> 'a \<Rightarrow> 's \<times> unit kresult"
    and pop :: "'s \<Rightarrow> 's \<times> 'a option kresult"
    and insert_at :: "'s \<Rightarrow> nat \<Rightarrow> 'a \<Rightarrow> 's \<times> unit kresult"
    and try_remove :: "'s \<Rightarrow> nat \<Rightarrow> 's \<times> 'a option kresult"
    and replace :: "'s \<Rightarrow> nat \<Rightarrow> 'a \<Rightarrow> 's \<times> 'a kresult"
    and swap :: "'s \<Rightarrow> nat \<Rightarrow> nat \<Rightarrow> 's \<times> unit kresult"
  assumes push_law: "inv s \<Longrightarrow> push s x = (s, Err OutOfMem) \<or>
      (\<exists>s'. push s x = (s', Ok ()) \<and> inv s' \<and> elems s' = elems s @ [x])"
    and pop_law: "inv s \<Longrightarrow> \<exists>s'. pop s = (s', Ok (if elems s = [] then None else Some (last (elems s)))) \<and>
      inv s' \<and> elems s' = butlast (elems s)"
    and insert_law: "inv s \<Longrightarrow> i \<le> length (elems s) \<Longrightarrow> insert_at s i x = (s, Err OutOfMem) \<or>
      (\<exists>s'. insert_at s i x = (s', Ok ()) \<and> inv s' \<and> elems s' = vec_insert i x (elems s))"
    and remove_law: "inv s \<Longrightarrow> i < length (elems s) \<Longrightarrow>
      \<exists>s'. try_remove s i = (s', Ok (Some (elems s ! i))) \<and> inv s' \<and> elems s' = vec_remove i (elems s)"
    and remove_out: "inv s \<Longrightarrow> length (elems s) \<le> i \<Longrightarrow> try_remove s i = (s, Ok None)"
    and replace_law: "inv s \<Longrightarrow> i < length (elems s) \<Longrightarrow>
      \<exists>s'. replace s i x = (s', Ok (elems s ! i)) \<and> inv s' \<and> elems s' = (elems s)[i := x]"
    and swap_law: "inv s \<Longrightarrow> i < length (elems s) \<Longrightarrow> j < length (elems s) \<Longrightarrow>
      \<exists>s'. swap s i j = (s', Ok ()) \<and> inv s' \<and> elems s' = (elems s)[i := elems s ! j, j := elems s ! i]"
begin

lemma push_pop:
  assumes "inv s" and "push s x = (s', Ok ())"
  shows "\<exists>s''. pop s' = (s'', Ok (Some x)) \<and> inv s'' \<and> elems s'' = elems s"
  using push_law [OF assms(1), of x] pop_law [of s'] assms(2) by auto

lemma insert_remove:
  assumes "inv s" and "i \<le> length (elems s)" and "insert_at s i x = (s', Ok ())"
  shows "\<exists>s''. try_remove s' i = (s'', Ok (Some x)) \<and> inv s'' \<and> elems s'' = elems s"
  using insert_law [OF assms(1,2), of x] remove_law [of s' i] assms by auto

lemma failure_is_silent:
  assumes "inv s" and "push s x = (s', Err e)"
  shows "s' = s \<and> e = OutOfMem"
  using push_law [OF assms(1), of x] assms(2) by auto

end

text \<open>A vector of elements that take up space, on a heap that keeps its promise.\<close>

definition vec_ready :: "layout \<Rightarrow> heap_ops \<Rightarrow> 'a Vec \<Rightarrow> bool" where
  "vec_ready T H v \<longleftrightarrow> Vec_inv T v \<and> l_size T \<noteq> 0 \<and> heap_ok H"

lemma elems_empty_iff: "vec_list v = [] \<longleftrightarrow> v_len v = 0"
  by (metis length_0_conv length_vec_list)

interpretation kv: vector "vec_ready T H" vec_list "Vec_push T H" Vec_pop "Vec_insert T H" Vec_try_remove
  Vec_replace Vec_swap for T H
proof
  fix s :: "'a Vec" and x :: 'a and i j
  assume "vec_ready T H s"
  then have inv: "Vec_inv T s" and T: "l_size T \<noteq> 0" and H: "heap_ok H" by (simp_all add: vec_ready_def)
  show "Vec_push T H s x = (s, Err OutOfMem) \<or>
      (\<exists>s'. Vec_push T H s x = (s', Ok ()) \<and> vec_ready T H s' \<and> vec_list s' = vec_list s @ [x])"
    by (cases rule: Vec_push_cases [OF inv T H, of x]) (auto simp: vec_ready_def T H)
  show "\<exists>s'. Vec_pop s = (s', Ok (if vec_list s = [] then None else Some (last (vec_list s)))) \<and>
      vec_ready T H s' \<and> vec_list s' = butlast (vec_list s)"
    using Vec_pop_some [OF inv] Vec_pop_none [of s] elems_empty_iff [of s] inv
    by (cases "v_len s = 0") (auto simp: vec_ready_def T H)
  show "Vec_insert T H s i x = (s, Err OutOfMem) \<or>
      (\<exists>s'. Vec_insert T H s i x = (s', Ok ()) \<and> vec_ready T H s' \<and> vec_list s' = vec_insert i x (vec_list s))"
    if "i \<le> length (vec_list s)"
    by (cases rule: Vec_insert_cases [OF inv T H, of i x]) (use that in \<open>auto simp: vec_ready_def T H\<close>)
  show "\<exists>s'. Vec_try_remove s i = (s', Ok (Some (vec_list s ! i))) \<and> vec_ready T H s' \<and>
      vec_list s' = vec_remove i (vec_list s)"
    if "i < length (vec_list s)"
    using Vec_try_remove_some [OF inv, of i] that by (auto simp: vec_ready_def T H)
  show "Vec_try_remove s i = (s, Ok None)" if "length (vec_list s) \<le> i"
    using that by (simp add: Vec_try_remove_none)
  show "\<exists>s'. Vec_replace s i x = (s', Ok (vec_list s ! i)) \<and> vec_ready T H s' \<and> vec_list s' = (vec_list s)[i := x]"
    if "i < length (vec_list s)"
    using Vec_replace_ok [OF inv, of i x] that by (auto simp: vec_ready_def T H)
  show "\<exists>s'. Vec_swap s i j = (s', Ok ()) \<and> vec_ready T H s' \<and>
      vec_list s' = (vec_list s)[i := vec_list s ! j, j := vec_list s ! i]"
    if "i < length (vec_list s)" "j < length (vec_list s)"
    using Vec_swap_ok [OF inv, of i j] that by (auto simp: vec_ready_def T H)
qed

lemma Vec_new_ready:
  "elem_ok T \<Longrightarrow> l_size T \<noteq> 0 \<Longrightarrow> heap_ok H \<Longrightarrow> vec_ready T H (Vec_new T) \<and> vec_list (Vec_new T) = []"
  by (auto simp: vec_ready_def Vec_inv_def Vec_new_def RawVec_new_def buffer_ok_def elem_ok_def vec_list_def)

subsection \<open>Loops over a vector\<close>

text \<open>The elements above the new length are dropped, the last one first.\<close>

lemma Vec_truncate_spec:
  assumes "Vec_inv T v"
  shows "\<exists>v'. Vec_truncate v n = (v', Ok (rev (drop n (vec_list v)))) \<and> Vec_inv T v' \<and>
    vec_list v' = take n (vec_list v) \<and> v_inner v' = v_inner v"
  using assms
proof (induction v n rule: Vec_truncate.induct)
  case (1 v n)
  show ?case
  proof (cases "n < v_len v")
    case False
    then show ?thesis using "1.prems" by (auto simp: Vec_truncate.simps [of v])
  next
    case True
    let ?v = "v\<lparr>v_len := v_len v - 1\<rparr>"
    note pop = Vec_pop_some [OF "1.prems"] True
    have ne: "vec_list v \<noteq> []" using True by (auto simp: elems_empty_iff)
    obtain v' where v': "Vec_truncate ?v n = (v', Ok (rev (drop n (butlast (vec_list v)))))" "Vec_inv T v'"
      "vec_list v' = take n (butlast (vec_list v))" "v_inner v' = v_inner v"
      using "1.IH" [OF True] pop by auto
    have "last (vec_list v) # rev (drop n (butlast (vec_list v))) = rev (drop n (butlast (vec_list v) @ [last (vec_list v)]))"
      using True by simp
    then have "last (vec_list v) # rev (drop n (butlast (vec_list v))) = rev (drop n (vec_list v))"
      by (simp only: append_butlast_last_id [OF ne])
    moreover have "take n (butlast (vec_list v)) = take n (vec_list v)"
      using True by (simp add: take_butlast)
    ultimately show ?thesis
      using v' pop(1) True by (intro exI [of _ v']) (simp add: Vec_truncate.simps [of v])
  qed
qed

lemma Vec_clear_spec:
  assumes "Vec_inv T v"
  shows "\<exists>v'. Vec_clear v = (v', Ok (rev (vec_list v))) \<and> Vec_inv T v' \<and> v_len v' = 0 \<and> v_inner v' = v_inner v"
  using assms
proof (induction v rule: Vec_clear.induct)
  case (1 v)
  show ?case
  proof (cases "v_len v = 0")
    case True
    then have "vec_list v = []" and "Vec_pop v = (v, Ok None)" by (simp_all add: elems_empty_iff Vec_pop_none)
    then have "Vec_clear v = (v, Ok (rev (vec_list v)))" by (subst Vec_clear.simps) simp
    then show ?thesis using "1.prems" True by blast
  next
    case False
    let ?v = "v\<lparr>v_len := v_len v - 1\<rparr>"
    note pop = Vec_pop_some [OF "1.prems"] False
    have ne: "vec_list v \<noteq> []" using False by (auto simp: elems_empty_iff)
    obtain v' where v': "Vec_clear ?v = (v', Ok (rev (butlast (vec_list v))))" "Vec_inv T v'"
      "v_len v' = 0" "v_inner v' = v_inner v"
      using "1.IH" [of ?v] pop by auto
    have "last (vec_list v) # rev (butlast (vec_list v)) = rev (butlast (vec_list v) @ [last (vec_list v)])" by simp
    then have "last (vec_list v) # rev (butlast (vec_list v)) = rev (vec_list v)"
      by (simp only: append_butlast_last_id [OF ne])
    then show ?thesis
      using v' pop(1) False by (intro exI [of _ v']) (simp add: Vec_clear.simps [of v])
  qed
qed

lemma Vec_push_all_spec:
  assumes "vec_ready T H v"
  shows "\<exists>v' ys. vec_ready T H v' \<and> vec_list v' = vec_list v @ ys \<and>
    (Vec_push_all T H v xs = (v', Ok ()) \<and> ys = xs \<or> Vec_push_all T H v xs = (v', Err OutOfMem))"
  using assms
proof (induction xs arbitrary: v)
  case Nil
  then show ?case by auto
next
  case (Cons x xs)
  from kv.push_law [OF Cons.prems, of x]
  consider "Vec_push T H v x = (v, Err OutOfMem)"
    | v' where "Vec_push T H v x = (v', Ok ())" "vec_ready T H v'" "vec_list v' = vec_list v @ [x]" by blast
  then show ?case
  proof cases
    case 1
    then show ?thesis using Cons.prems by (intro exI [of _ v] exI [of _ "[]"]) simp
  next
    case (2 v')
    from Cons.IH [OF 2(2)] obtain v'' ys where "vec_ready T H v''" "vec_list v'' = vec_list v' @ ys"
      "Vec_push_all T H v' xs = (v'', Ok ()) \<and> ys = xs \<or> Vec_push_all T H v' xs = (v'', Err OutOfMem)" by blast
    then show ?thesis using 2 by (intro exI [of _ v''] exI [of _ "x # ys"]) auto
  qed
qed

text \<open>With room for all of them no push needs the heap.\<close>

lemma Vec_push_all_room:
  assumes "vec_ready T H v" and "v_len v + length xs \<le> Vec_capacity v"
  shows "\<exists>v'. Vec_push_all T H v xs = (v', Ok ()) \<and> vec_ready T H v' \<and> vec_list v' = vec_list v @ xs"
  using assms
proof (induction xs arbitrary: v)
  case Nil
  then show ?case by auto
next
  case (Cons x xs)
  have inv: "Vec_inv T v" "l_size T \<noteq> 0" "heap_ok H" using Cons.prems(1) by (simp_all add: vec_ready_def)
  have lt: "v_len v < Vec_capacity v" using Cons.prems(2) by simp
  show ?case
  proof (cases rule: Vec_push_cases [OF inv, of x])
    case 1
    have "Vec_reserve T H v = (v, Ok ())" using lt by (simp add: Vec_reserve_def)
    then have "snd (Vec_push T H v x) \<noteq> Err OutOfMem"
      using lt by (simp add: Vec_push_def finish_def ptr_write_def uadd_def)
    with 1 show ?thesis by simp
  next
    case (2 v')
    have "length (vec_list v') = length (vec_list v @ [x])" using 2(3) by simp
    then have "v_len v' + length xs \<le> Vec_capacity v'" using Cons.prems(2) 2(4) [OF lt] by simp
    from Cons.IH [OF _ this] obtain v'' where "Vec_push_all T H v' xs = (v'', Ok ())" "vec_ready T H v''"
      "vec_list v'' = vec_list v' @ xs" using 2(2) inv by (auto simp: vec_ready_def)
    then show ?thesis using 2(1,3) by auto
  qed
qed

text \<open>The destructor drops every element once, the last first, and gives the buffer back whole.\<close>

lemma Vec_drop_spec:
  assumes "vec_ready T H v"
  shows "Vec_drop T v = Ok (rev (vec_list v),
    if Vec_capacity v = 0 then None
    else Some (rv_ptr (v_inner v), \<lparr>l_size = l_size T * Vec_capacity v, l_align = l_align T\<rparr>))"
proof -
  have inv: "Vec_inv T v" and T: "l_size T \<noteq> 0" using assms by (simp_all add: vec_ready_def)
  then have e: "elem_ok T" and c: "l_size T * Vec_capacity v \<le> 2 ^ 48" by (simp_all add: Vec_inv_def buffer_ok_def)
  obtain v' where "Vec_clear v = (v', Ok (rev (vec_list v)))" "v_inner v' = v_inner v"
    using Vec_clear_spec [OF inv] by blast
  then show ?thesis
    using T layout_array_fits(1) [OF e disjI1, OF c] by (simp add: Vec_drop_def RawVec_drop_def)
qed

text \<open>Copying from a slice reserves once and then cannot fail.\<close>

lemma Vec_extend_from_slice_spec:
  assumes rdy: "vec_ready T H v" and small: "l_size T * (v_len v + length xs) \<le> 2 ^ 48"
  shows "\<exists>v'. vec_ready T H v' \<and>
    (Vec_extend_from_slice T H v xs = (v', Ok ()) \<and> vec_list v' = vec_list v @ xs \<or>
     Vec_extend_from_slice T H v xs = (v', Err OutOfMem) \<and> v' = v)"
proof -
  let ?rv = "v_inner v" and ?req = "v_len v + length xs"
  have inv: "Vec_inv T v" and T: "l_size T \<noteq> 0" and H: "heap_ok H" using rdy by (simp_all add: vec_ready_def)
  have ok: "buffer_ok T ?rv" and c: "l_size T * rv_cap ?rv \<le> 2 ^ 47"
    using inv T by (simp_all add: Vec_inv_def buffer_ok_def)
  have req: "?req \<le> 2 ^ 48" "rv_cap ?rv \<le> 2 ^ 47"
    using small c T by (metis le_trans mult_le_cancel1 mult.right_neutral mult_1 mult_le_mono1 neq0_conv Suc_leI One_nat_def)+
  have "?req < usize_limit" using req(1) by simp
  then have u: "uadd (v_len v) (length xs) = Ok ?req" by (simp add: uadd_def)
  have push: "\<exists>v'. Vec_push_all T H (v\<lparr>v_inner := rv\<rparr>) xs = (v', Ok ()) \<and> vec_ready T H v' \<and> vec_list v' = vec_list v @ xs"
    if "buffer_ok T rv" "holds rv (vec_list v)" "?req \<le> rv_cap rv" for rv
    using Vec_push_all_room [of T H "v\<lparr>v_inner := rv\<rparr>" xs] holds_Vec_inv [of T "v\<lparr>v_inner := rv\<rparr>" "vec_list v"] that T H
    by (simp add: vec_ready_def)
  show ?thesis
  proof (cases "?req \<le> rv_cap ?rv")
    case True
    then have "RawVec_try_grow T H ?rv (Some ?req) = (?rv, Ok ())"
      using T req by (cases "rv_cap ?rv = 0") (auto simp: RawVec_try_grow_def umul_def)
    then show ?thesis
      using push [OF ok Vec_inv_holds [OF inv] True] u by (auto simp: Vec_extend_from_slice_def)
  next
    case False
    let ?n = "max (if rv_cap ?rv = 0 then 1 else 2 * rv_cap ?rv) ?req"
    have grow: "RawVec_try_grow T H ?rv (Some ?req) = RawVec_grow_to T H ?rv ?n"
      using T req False by (cases "rv_cap ?rv = 0") (auto simp: RawVec_try_grow_def umul_def)
    have n: "rv_cap ?rv < ?n" "l_size T * ?n \<le> 2 ^ 48 \<or> ?n \<le> 1" using False c small by (auto simp: max_def)
    show ?thesis
    proof (cases rule: RawVec_grow_to_cases [OF ok T H n])
      case 1
      then show ?thesis using grow u rdy by (intro exI [of _ v]) (simp add: Vec_extend_from_slice_def)
    next
      case (2 rv')
      then show ?thesis
        using push [of rv'] Vec_inv_holds [OF inv] grow u by (auto simp: Vec_extend_from_slice_def)
    qed
  qed
qed

lemma Vec_from_slice_spec:
  assumes "elem_ok T" "l_size T \<noteq> 0" "heap_ok H" and small: "l_size T * length xs \<le> 2 ^ 48"
  shows "Vec_from_slice T H xs = Err OutOfMem \<or>
    (\<exists>v. Vec_from_slice T H xs = Ok v \<and> vec_ready T H v \<and> vec_list v = xs)"
proof (cases "h_alloc H \<lparr>l_size = l_size T * length xs, l_align = l_align T\<rparr>")
  case None
  then show ?thesis
    using assms layout_array_fits(1) [OF assms(1) disjI1, OF small]
    by (simp add: Vec_from_slice_def Vec_try_with_capacity_def RawVec_try_with_capacity_def)
next
  case (Some p)
  let ?v = "\<lparr>v_inner = \<lparr>rv_ptr = p, rv_cap = length xs, rv_mem = (\<lambda>_. None)\<rparr>, v_len = 0\<rparr>"
  have "vec_ready T H ?v"
    using assms heap_okD(1) [OF assms(3) Some] by (simp add: vec_ready_def Vec_inv_def buffer_ok_def)
  from Vec_push_all_room [OF this, of xs]
  obtain v' where "Vec_push_all T H ?v xs = (v', Ok ())" "vec_ready T H v'" "vec_list v' = xs"
    by (auto simp: vec_list_def)
  then show ?thesis
    using Some assms layout_array_fits(1) [OF assms(1) disjI1, OF small]
    by (simp add: Vec_from_slice_def Vec_try_with_capacity_def RawVec_try_with_capacity_def)
qed

subsection \<open>The iterator\<close>

text \<open>The iterator over the elements from index \<open>k\<close> on.\<close>

definition iter_at :: "layout \<Rightarrow> 'a Vec \<Rightarrow> nat \<Rightarrow> 'a IntoIter" where
  "iter_at T v k =
     \<lparr>it_inner = \<lparr>ri_start = rv_ptr (v_inner v) + elem_size T * k, ri_end = rv_ptr (v_inner v) + elem_size T * v_len v\<rparr>,
      it_buffer = v_inner v\<rparr>"

lemma iter_bytes:
  assumes "vec_ready T H v" and "k \<le> v_len v"
  shows "elem_size T = l_size T" and "rv_ptr (v_inner v) + l_size T * k < usize_limit"
proof -
  have T: "l_size T \<noteq> 0" using assms(1) by (simp add: vec_ready_def)
  then show "elem_size T = l_size T" by (simp add: elem_size_def)
  have "l_size T * k \<le> l_size T * Vec_capacity v"
    using assms by (intro mult_le_mono2) (simp add: vec_ready_def Vec_inv_def)
  moreover have "rv_ptr (v_inner v) + l_size T * Vec_capacity v < usize_limit"
    using assms(1) T by (simp add: vec_ready_def Vec_inv_def buffer_ok_def)
  ultimately show "rv_ptr (v_inner v) + l_size T * k < usize_limit" by linarith
qed

lemma Vec_into_iter_ok:
  assumes "vec_ready T H v"
  shows "Vec_into_iter T v = Ok (iter_at T v 0)"
  using iter_bytes [OF assms order_refl]
  by (simp add: Vec_into_iter_def RawIter_new_def umul_def uadd_def iter_at_def)

lemma IntoIter_next_at:
  assumes "vec_ready T H v" and "k < v_len v"
  shows "IntoIter_next T (iter_at T v k) = Ok (iter_at T v (Suc k), Some (vec_list v ! k))"
proof -
  have T: "l_size T \<noteq> 0" and inv: "Vec_inv T v" using assms(1) by (simp_all add: vec_ready_def)
  note b = iter_bytes [OF assms(1), of "Suc k"]
  have "ri_start (it_inner (iter_at T v k)) \<noteq> ri_end (it_inner (iter_at T v k))"
    using T assms(2) b by (simp add: iter_at_def)
  then have "RawIter_next T (it_inner (iter_at T v k)) =
      Ok (it_inner (iter_at T v (Suc k)), Some (rv_ptr (v_inner v) + l_size T * k))"
    using b assms(2) by (simp add: RawIter_next_def iter_at_def uadd_def algebra_simps)
  moreover have "read_at T (v_inner v) (rv_ptr (v_inner v) + l_size T * k) = Ok (vec_list v ! k)"
    using T b ptr_read_holds [OF Vec_inv_holds [OF inv], of k] assms(2) by (simp add: read_at_def)
  ultimately show ?thesis by (simp add: IntoIter_next_def iter_at_def)
qed

lemma IntoIter_drain_at:
  assumes "vec_ready T H v" and "k \<le> v_len v"
  shows "IntoIter_drain T (iter_at T v k) = Ok (drop k (vec_list v))"
  using assms(2)
proof (induction "v_len v - k" arbitrary: k)
  case 0
  then have "k = v_len v" by simp
  then have "IntoIter_next T (iter_at T v k) = Ok (iter_at T v k, None)"
    by (simp add: IntoIter_next_def RawIter_next_def iter_at_def)
  then show ?case using \<open>k = v_len v\<close> by (subst IntoIter_drain.simps) simp
next
  case (Suc n)
  then have k: "k < v_len v" by simp
  have "IntoIter_drain T (iter_at T v (Suc k)) = Ok (drop (Suc k) (vec_list v))"
    using Suc.hyps(1) [of "Suc k"] Suc.hyps(2) k by simp
  then show ?case
    using k by (simp add: IntoIter_drain.simps [of T "iter_at T v k"] IntoIter_next_at [OF assms(1) k] Cons_nth_drop_Suc)
qed

subsection \<open>Properties\<close>

text \<open>
  C16. The vector implements a list.  On a well-formed vector of elements that take up space,
  each operation either fails for lack of memory and leaves the vector untouched, or has the
  effect of the list operation; no read of an uninitialised cell and no access outside of the
  buffer takes place, and only an index out of bounds panics.
\<close>

theorem vec_refines_list:
  assumes "vec_ready T H v"
  shows "(Vec_push T H v x = (v, Err OutOfMem) \<or>
      (\<exists>v'. Vec_push T H v x = (v', Ok ()) \<and> vec_ready T H v' \<and> vec_list v' = vec_list v @ [x])) \<and>
    (\<exists>v'. Vec_pop v = (v', Ok (if vec_list v = [] then None else Some (last (vec_list v)))) \<and>
      vec_ready T H v' \<and> vec_list v' = butlast (vec_list v)) \<and>
    (if i \<le> v_len v then
       Vec_insert T H v i x = (v, Err OutOfMem) \<or>
       (\<exists>v'. Vec_insert T H v i x = (v', Ok ()) \<and> vec_ready T H v' \<and>
         vec_list v' = take i (vec_list v) @ x # drop i (vec_list v))
     else Vec_insert T H v i x = (v, Panic)) \<and>
    (if i < v_len v then
       \<exists>v'. Vec_try_remove v i = (v', Ok (Some (vec_list v ! i))) \<and> vec_ready T H v' \<and>
         vec_list v' = take i (vec_list v) @ drop (Suc i) (vec_list v)
     else Vec_try_remove v i = (v, Ok None))"
    (is "?push \<and> ?pop \<and> ?insert \<and> ?remove")
proof (intro conjI)
  show ?push by (rule kv.push_law [OF assms])
  show ?pop by (rule kv.pop_law [OF assms])
  show ?insert
    using kv.insert_law [OF assms, of i x] Vec_insert_out [of v i T H x]
    by (cases "i \<le> v_len v") (simp_all add: vec_insert_def)
  show ?remove
    using kv.remove_law [OF assms, of i] kv.remove_out [OF assms, of i]
    by (cases "i < v_len v") (simp_all add: vec_remove_def)
qed

text \<open>The heap of the examples: it serves requests of up to 8 bytes.\<close>

definition small_heap :: heap_ops where
  "small_heap = \<lparr>h_alloc = (\<lambda>l. if l_size l \<le> 8 then Some 0x1000 else None),
     h_realloc = (\<lambda>p old l. if l_size l \<le> 8 then Some 0x2000 else None)\<rparr>"

abbreviation u64_layout :: layout where
  "u64_layout \<equiv> \<lparr>l_size = 8, l_align = 8\<rparr>"

lemma small_heap_ok: "heap_ok small_heap"
  by (auto simp: heap_ok_def small_heap_def split: if_splits)

lemma example_vec_ready: "vec_ready u64_layout small_heap (Vec_new u64_layout)"
  by (simp add: Vec_new_ready small_heap_ok elem_ok_def)

lemmas run_push = Vec_push_def Vec_reserve_def finish_def RawVec_try_grow_def RawVec_grow_to_def
  layout_array_def small_heap_def ptr_write_def uadd_def umul_def

definition one_elem_vec :: "nat Vec" where
  "one_elem_vec = \<lparr>v_inner = \<lparr>rv_ptr = 0x1000, rv_cap = 1, rv_mem = [0 \<mapsto> 7]\<rparr>, v_len = 1\<rparr>"

lemma example_push:
  "Vec_push u64_layout small_heap (Vec_new u64_layout) 7 = (one_elem_vec, Ok ())"
  "Vec_push u64_layout small_heap one_elem_vec x = (one_elem_vec, Err OutOfMem)"
  by (simp_all add: run_push Vec_new_def RawVec_new_def one_elem_vec_def)

theorem vec_refines_list_witness:
  "\<exists>v'. Vec_push u64_layout small_heap (Vec_new u64_layout) (7 :: nat) = (v', Ok ()) \<and> vec_list v' = [7]"
  using vec_refines_list [OF example_vec_ready, of "7 :: nat" 0]
  by (simp add: example_push(1)) (simp add: vec_list_def Vec_new_def)

text \<open>
  C32. Extending is all or nothing: when memory runs out part of the way, the elements added so
  far are taken out again and the contents are what they were.
\<close>

theorem vec_extend_atomic:
  assumes "vec_ready T H v"
  shows "\<exists>v'. vec_ready T H v' \<and>
    (Vec_extend T H v xs = (v', Ok ()) \<and> vec_list v' = vec_list v @ xs \<or>
     Vec_extend T H v xs = (v', Err OutOfMem) \<and> vec_list v' = vec_list v)"
proof -
  from Vec_push_all_spec [OF assms, of xs]
  obtain v' ys where v': "vec_ready T H v'" "vec_list v' = vec_list v @ ys"
    "Vec_push_all T H v xs = (v', Ok ()) \<and> ys = xs \<or> Vec_push_all T H v xs = (v', Err OutOfMem)" by blast
  from v'(3) show ?thesis
  proof
    assume "Vec_push_all T H v xs = (v', Ok ()) \<and> ys = xs"
    with v' show ?thesis by (intro exI [of _ v']) (simp add: Vec_extend_def)
  next
    assume err: "Vec_push_all T H v xs = (v', Err OutOfMem)"
    obtain v'' where "Vec_truncate v' (v_len v) = (v'', Ok (rev (drop (v_len v) (vec_list v'))))"
      "Vec_inv T v''" "vec_list v'' = take (v_len v) (vec_list v')"
      using Vec_truncate_spec [of T v' "v_len v"] v'(1) by (auto simp: vec_ready_def)
    with v' err show ?thesis by (intro exI [of _ v'']) (simp add: Vec_extend_def vec_ready_def)
  qed
qed

theorem vec_extend_atomic_witness:
  "\<exists>v'. Vec_extend u64_layout small_heap (Vec_new u64_layout) [7, 8 :: nat] = (v', Err OutOfMem) \<and> vec_list v' = []"
proof -
  have "snd (Vec_extend u64_layout small_heap (Vec_new u64_layout) [7, 8 :: nat]) \<noteq> Ok ()"
    unfolding Vec_extend_def by (auto simp: example_push split: prod.splits kresult.splits)
  moreover have "vec_list (Vec_new u64_layout) = ([] :: nat list)" by (simp add: vec_list_def Vec_new_def)
  ultimately show ?thesis
    using vec_extend_atomic [OF example_vec_ready, of "[7, 8 :: nat]"] by auto
qed

text \<open>
  C33. Iterating a vector by value yields its elements in order and ends; the other end of the
  iterator is broken: \<open>next_back\<close> steps the start of the range down instead of its end, and
  reads the memory in front of the buffer.
\<close>

theorem vec_into_iter_spec:
  assumes "vec_ready T H v"
  shows "\<exists>it. Vec_into_iter T v = Ok it \<and> IntoIter_drain T it = Ok (vec_list v) \<and>
    (0 < v_len v \<longrightarrow> IntoIter_next_back T it = Panic \<and>
      (l_size T \<le> rv_ptr (v_inner v) \<longrightarrow>
        (\<exists>raw. RawIter_next_back T (it_inner it) = Ok (raw, Some (rv_ptr (v_inner v) - l_size T)))))"
proof -
  have T: "l_size T \<noteq> 0" using assms by (simp add: vec_ready_def)
  note it = Vec_into_iter_ok [OF assms] IntoIter_drain_at [OF assms, of 0]
  have e: "elem_size T = l_size T" using T by (simp add: elem_size_def)
  have "RawIter_next_back T (it_inner (iter_at T v 0)) =
      (if l_size T \<le> rv_ptr (v_inner v) then Ok (\<lparr>ri_start = rv_ptr (v_inner v) - l_size T,
          ri_end = rv_ptr (v_inner v) + l_size T * v_len v\<rparr>, Some (rv_ptr (v_inner v) - l_size T)) else Panic)"
    if "0 < v_len v"
    using T that e by (simp add: RawIter_next_back_def iter_at_def usub_def)
  then show ?thesis
    using it T by (intro exI [of _ "iter_at T v 0"])
      (auto simp: IntoIter_next_back_def read_at_def iter_at_def)
qed

theorem vec_into_iter_spec_witness:
  "\<exists>it raw. Vec_into_iter u64_layout one_elem_vec = Ok it \<and> IntoIter_drain u64_layout it = Ok [7] \<and>
     RawIter_next_back u64_layout (it_inner it) = Ok (raw, Some 0xFF8)"
proof -
  have "vec_ready u64_layout small_heap one_elem_vec"
    by (simp add: vec_ready_def Vec_inv_def buffer_ok_def elem_ok_def one_elem_vec_def small_heap_ok)
  from vec_into_iter_spec [OF this] show ?thesis
    by (simp add: one_elem_vec_def vec_list_def) blast
qed

end
