(* ===== verification/Vec_Map.thy ===== *)
theory Vec_Map
  imports Kernel_Vec Key_Map
begin

text \<open>
  The sorted vector map and set of the kernel, \<^verbatim>\<open>kernel/src/container/vecmap.rs\<close> and
  \<^verbatim>\<open>vecset.rs\<close>: a vector of nodes in the order of their keys, searched by bisection.  A map
  may carry a comparison of its own, which replaces the order of the keys in the search.
  The invariant and the lemmas are those of maps with the order of the keys, the only ones
  that the kernel makes.
\<close>

record ('k, 'v) MapNode =
  n_key :: 'k
  n_value :: 'v

record ('k, 'v) VecMap =
  vm_data :: "('k, 'v) MapNode Vec"
  vm_compare :: "('k \<Rightarrow> 'k \<Rightarrow> ordering) option"

definition node_tuple :: "('k, 'v) MapNode \<Rightarrow> 'k \<times> 'v" where
  "node_tuple n = (n_key n, n_value n)"

definition vm_new :: "layout \<Rightarrow> ('k, 'v) VecMap" where
  "vm_new T = \<lparr>vm_data = Vec_new T, vm_compare = None\<rparr>"

definition vm_with_compare :: "layout \<Rightarrow> ('k \<Rightarrow> 'k \<Rightarrow> ordering) \<Rightarrow> ('k, 'v) VecMap" where
  "vm_with_compare T compare = \<lparr>vm_data = Vec_new T, vm_compare = Some compare\<rparr>"

definition vm_try_with_capacity :: "layout \<Rightarrow> heap_ops \<Rightarrow> usize \<Rightarrow> ('k, 'v) VecMap kresult" where
  "vm_try_with_capacity T H cap =
     rbind (Vec_try_with_capacity T H cap) (\<lambda>data. Ok \<lparr>vm_data = data, vm_compare = None\<rparr>)"

definition vm_len :: "('k, 'v) VecMap \<Rightarrow> usize" where
  "vm_len m = v_len (vm_data m)"

definition vm_search :: "('k :: linorder, 'v) VecMap \<Rightarrow> 'k \<Rightarrow> search_result" where
  "vm_search m key =
     binary_search_by
       (\<lambda>node. case vm_compare m of Some compare \<Rightarrow> compare (n_key node) key | None \<Rightarrow> cmp (n_key node) key)
       (vec_list (vm_data m))"

definition vm_get :: "('k :: linorder, 'v) VecMap \<Rightarrow> 'k \<Rightarrow> 'v option" where
  "vm_get m key =
     (case vm_search m key of
        Found i \<Rightarrow> Some (n_value (vec_list (vm_data m) ! i))
      | NotFound _ \<Rightarrow> None)"

text \<open>Writing through the reference of \<open>get_mut\<close>.\<close>

definition vm_update :: "('k :: linorder, 'v) VecMap \<Rightarrow> 'k \<Rightarrow> ('v \<Rightarrow> 'v) \<Rightarrow> ('k, 'v) VecMap" where
  "vm_update m key f =
     (case vm_search m key of
        Found i \<Rightarrow>
          let node = vec_list (vm_data m) ! i
          in m\<lparr>vm_data := fst (Vec_replace (vm_data m) i (node\<lparr>n_value := f (n_value node)\<rparr>))\<rparr>
      | NotFound _ \<Rightarrow> m)"

definition vm_get_max :: "('k, 'v) VecMap \<Rightarrow> ('k \<times> 'v) option" where
  "vm_get_max m = (if vm_len m = 0 then None else Some (node_tuple (vec_list (vm_data m) ! (vm_len m - 1))))"

definition vm_pop_max :: "('k, 'v) VecMap \<Rightarrow> ('k, 'v) VecMap \<times> ('k \<times> 'v) option kresult" where
  "vm_pop_max m =
     (case Vec_pop (vm_data m) of (data, r) \<Rightarrow>
        (m\<lparr>vm_data := data\<rparr>, rbind r (\<lambda>node. Ok (map_option node_tuple node))))"

definition vm_pop_min :: "('k, 'v) VecMap \<Rightarrow> ('k, 'v) VecMap \<times> ('k \<times> 'v) option kresult" where
  "vm_pop_min m =
     (if vm_len m = 0 then (m, Ok None)
      else
        (case Vec_remove (vm_data m) 0 of (data, r) \<Rightarrow>
           (m\<lparr>vm_data := data\<rparr>, rbind r (\<lambda>node. Ok (Some (node_tuple node))))))"

definition vm_insert ::
  "layout \<Rightarrow> heap_ops \<Rightarrow> ('k :: linorder, 'v) VecMap \<Rightarrow> 'k \<Rightarrow> 'v \<Rightarrow> ('k, 'v) VecMap \<times> 'v option kresult" where
  "vm_insert T H m key value =
     (let node = \<lparr>n_key = key, n_value = value\<rparr>
      in (case vm_search m key of
            Found index \<Rightarrow>
              (case Vec_replace (vm_data m) index node of (data, r) \<Rightarrow>
                 (m\<lparr>vm_data := data\<rparr>, rbind r (\<lambda>old. Ok (Some (n_value old)))))
          | NotFound index \<Rightarrow>
              (case Vec_insert T H (vm_data m) index node of (data, r) \<Rightarrow>
                 (m\<lparr>vm_data := data\<rparr>, rbind r (\<lambda>_. Ok None)))))"

definition vm_remove :: "('k :: linorder, 'v) VecMap \<Rightarrow> 'k \<Rightarrow> ('k, 'v) VecMap \<times> 'v option kresult" where
  "vm_remove m key =
     (case vm_search m key of
        Found index \<Rightarrow>
          (case Vec_remove (vm_data m) index of (data, r) \<Rightarrow>
             (m\<lparr>vm_data := data\<rparr>, rbind r (\<lambda>node. Ok (Some (n_value node)))))
      | NotFound _ \<Rightarrow> (m, Ok None))"

definition vm_remove_gt :: "('k :: linorder, 'v) VecMap \<Rightarrow> 'k \<Rightarrow> ('k, 'v) VecMap \<times> ('k \<times> 'v) option kresult" where
  "vm_remove_gt m key =
     (case vm_search m key of
        Found index \<Rightarrow>
          (case Vec_remove (vm_data m) index of (data, r) \<Rightarrow>
             (m\<lparr>vm_data := data\<rparr>, rbind r (\<lambda>node. Ok (Some (node_tuple node)))))
      | NotFound index \<Rightarrow>
          (case Vec_try_remove (vm_data m) index of (data, r) \<Rightarrow>
             (m\<lparr>vm_data := data\<rparr>, rbind r (\<lambda>node. Ok (map_option node_tuple node)))))"

definition vm_remove_lt :: "('k :: linorder, 'v) VecMap \<Rightarrow> 'k \<Rightarrow> ('k, 'v) VecMap \<times> ('k \<times> 'v) option kresult" where
  "vm_remove_lt m key =
     (case vm_search m key of
        Found index \<Rightarrow>
          (case Vec_remove (vm_data m) index of (data, r) \<Rightarrow>
             (m\<lparr>vm_data := data\<rparr>, rbind r (\<lambda>node. Ok (Some (node_tuple node)))))
      | NotFound index \<Rightarrow>
          if index = 0 then (m, Ok None)
          else
            (case Vec_remove (vm_data m) (index - 1) of (data, r) \<Rightarrow>
               (m\<lparr>vm_data := data\<rparr>, rbind r (\<lambda>node. Ok (Some (node_tuple node))))))"

subsection \<open>Ranges\<close>

datatype 'a Bound = Included 'a | Excluded 'a | Unbounded

text \<open>The assertions on the bounds use the order of the keys, also when the map has its own.\<close>

definition range_valid :: "'k :: linorder Bound \<Rightarrow> 'k Bound \<Rightarrow> bool" where
  "range_valid start_bound end_bound =
     (case start_bound of
        Included key \<Rightarrow>
          (case end_bound of Included key2 \<Rightarrow> key \<le> key2 | Excluded key2 \<Rightarrow> key \<le> key2 | Unbounded \<Rightarrow> True)
      | Excluded key \<Rightarrow>
          (case end_bound of Included key2 \<Rightarrow> key \<le> key2 | Excluded key2 \<Rightarrow> key < key2 | Unbounded \<Rightarrow> True)
      | Unbounded \<Rightarrow> True)"

definition get_range_iter_bounds ::
  "('k :: linorder, 'v) VecMap \<Rightarrow> 'k Bound \<Rightarrow> 'k Bound \<Rightarrow> (nat Bound \<times> nat Bound) kresult" where
  "get_range_iter_bounds m start_bound end_bound =
     (if \<not> range_valid start_bound end_bound then Panic
      else Ok
       (case start_bound of
          Included key \<Rightarrow> (case vm_search m key of Found i \<Rightarrow> Included i | NotFound i \<Rightarrow> Included i)
        | Excluded key \<Rightarrow> (case vm_search m key of Found i \<Rightarrow> Excluded i | NotFound i \<Rightarrow> Included i)
        | Unbounded \<Rightarrow> Unbounded,
        case end_bound of
          Included key \<Rightarrow> (case vm_search m key of Found i \<Rightarrow> Included i | NotFound i \<Rightarrow> Excluded i)
        | Excluded key \<Rightarrow> (case vm_search m key of Found i \<Rightarrow> Excluded i | NotFound i \<Rightarrow> Excluded i)
        | Unbounded \<Rightarrow> Unbounded))"

text \<open>Indexing a slice by a pair of bounds.\<close>

definition slice_bounds :: "'a list \<Rightarrow> nat Bound \<Rightarrow> nat Bound \<Rightarrow> 'a list kresult" where
  "slice_bounds xs start_bound end_bound =
     (let s = (case start_bound of Included i \<Rightarrow> i | Excluded i \<Rightarrow> Suc i | Unbounded \<Rightarrow> 0);
          e = (case end_bound of Included i \<Rightarrow> Suc i | Excluded i \<Rightarrow> i | Unbounded \<Rightarrow> length xs)
      in if e < s \<or> length xs < e then Panic else Ok (take (e - s) (drop s xs)))"

definition vm_range :: "('k :: linorder, 'v) VecMap \<Rightarrow> 'k Bound \<Rightarrow> 'k Bound \<Rightarrow> ('k \<times> 'v) list kresult" where
  "vm_range m start_bound end_bound =
     rbind (get_range_iter_bounds m start_bound end_bound) (\<lambda>(s, e).
     rbind (slice_bounds (vec_list (vm_data m)) s e) (\<lambda>nodes.
     Ok (map node_tuple nodes)))"

definition vm_get_gt :: "('k :: linorder, 'v) VecMap \<Rightarrow> 'k \<Rightarrow> ('k \<times> 'v) option kresult" where
  "vm_get_gt m key =
     rbind (vm_range m (Included key) Unbounded) (\<lambda>nodes. Ok (if nodes = [] then None else Some (hd nodes)))"

definition vm_get_lt :: "('k :: linorder, 'v) VecMap \<Rightarrow> 'k \<Rightarrow> ('k \<times> 'v) option kresult" where
  "vm_get_lt m key =
     rbind (vm_range m Unbounded (Excluded key)) (\<lambda>nodes. Ok (if nodes = [] then None else Some (last nodes)))"

subsection \<open>Sets\<close>

type_synonym 'k VecSet = "('k, unit) VecMap"

definition vs_insert :: "layout \<Rightarrow> heap_ops \<Rightarrow> 'k :: linorder VecSet \<Rightarrow> 'k \<Rightarrow> 'k VecSet \<times> bool kresult" where
  "vs_insert T H s object =
     (case vm_insert T H s object () of (s', r) \<Rightarrow> (s', rbind r (\<lambda>v. Ok (v \<noteq> None))))"

definition vs_remove :: "'k :: linorder VecSet \<Rightarrow> 'k \<Rightarrow> 'k VecSet \<times> bool kresult" where
  "vs_remove s object = (case vm_remove s object of (s', r) \<Rightarrow> (s', rbind r (\<lambda>v. Ok (v \<noteq> None))))"

definition vs_pop_max :: "'k VecSet \<Rightarrow> 'k VecSet \<times> 'k option kresult" where
  "vs_pop_max s = (case vm_pop_max s of (s', r) \<Rightarrow> (s', rbind r (\<lambda>v. Ok (map_option fst v))))"

definition vs_pop_min :: "'k VecSet \<Rightarrow> 'k VecSet \<times> 'k option kresult" where
  "vs_pop_min s = (case vm_pop_min s of (s', r) \<Rightarrow> (s', rbind r (\<lambda>v. Ok (map_option fst v))))"

definition vs_remove_gt :: "'k :: linorder VecSet \<Rightarrow> 'k \<Rightarrow> 'k VecSet \<times> 'k option kresult" where
  "vs_remove_gt s object = (case vm_remove_gt s object of (s', r) \<Rightarrow> (s', rbind r (\<lambda>v. Ok (map_option fst v))))"

definition vs_remove_lt :: "'k :: linorder VecSet \<Rightarrow> 'k \<Rightarrow> 'k VecSet \<times> 'k option kresult" where
  "vs_remove_lt s object = (case vm_remove_lt s object of (s', r) \<Rightarrow> (s', rbind r (\<lambda>v. Ok (map_option fst v))))"

subsection \<open>The invariant and the search\<close>

abbreviation nodes :: "('k, 'v) VecMap \<Rightarrow> ('k, 'v) MapNode list" where
  "nodes m \<equiv> vec_list (vm_data m)"

definition vm_inv :: "layout \<Rightarrow> heap_ops \<Rightarrow> ('k :: linorder, 'v) VecMap \<Rightarrow> bool" where
  "vm_inv T H m \<longleftrightarrow> vec_ready T H (vm_data m) \<and> vm_compare m = None \<and> sorted_wrt (<) (map n_key (nodes m))"

definition node_map :: "('k, 'v) MapNode list \<Rightarrow> 'k \<Rightarrow> 'v option" where
  "node_map xs = map_of (map node_tuple xs)"

lemma map_fst_tuple [simp]: "map (fst \<circ> node_tuple) xs = map n_key xs"
  by (simp add: node_tuple_def)

lemma sorted_keys_distinct: "sorted_wrt (<) (map n_key xs) \<Longrightarrow> distinct (map n_key xs)"
  for xs :: "('k :: linorder, 'v) MapNode list"
  by (simp add: strict_sorted_iff)

lemma node_map_Some:
  fixes xs :: "('k :: linorder, 'v) MapNode list"
  assumes "sorted_wrt (<) (map n_key xs)"
  shows "node_map xs k = Some v \<longleftrightarrow> (\<exists>n \<in> set xs. n_key n = k \<and> n_value n = v)"
proof -
  have "distinct (map fst (map node_tuple xs))" using sorted_keys_distinct [OF assms] by simp
  from map_of_eq_Some_iff [OF this, of k v] show ?thesis
    by (auto simp: node_map_def node_tuple_def)
qed

lemma node_map_eqI:
  fixes xs :: "('k :: linorder, 'v) MapNode list"
  assumes "sorted_wrt (<) (map n_key xs)"
    and "\<And>k v. f k = Some v \<longleftrightarrow> (\<exists>n \<in> set xs. n_key n = k \<and> n_value n = v)"
  shows "node_map xs = f"
proof
  fix k
  have "node_map xs k = Some v \<longleftrightarrow> f k = Some v" for v
    by (simp only: node_map_Some [OF assms(1)] assms(2))
  then show "node_map xs k = f k" by (metis not_None_eq)
qed

lemma vm_search_eq: "vm_compare m = None \<Longrightarrow> vm_search m k = binary_search_by_key n_key k (nodes m)"
  by (simp add: vm_search_def binary_search_by_key_def)

lemma vm_search_cases:
  assumes "vm_inv T H m"
  obtains (found) i where "vm_search m k = Found i" "i < length (nodes m)" "n_key (nodes m ! i) = k"
      "node_map (nodes m) k = Some (n_value (nodes m ! i))"
    | (absent) i where "vm_search m k = NotFound i" "i \<le> length (nodes m)" "node_map (nodes m) k = None"
      "\<And>j. j < i \<Longrightarrow> n_key (nodes m ! j) < k" "\<And>j. i \<le> j \<Longrightarrow> j < length (nodes m) \<Longrightarrow> k < n_key (nodes m ! j)"
proof -
  have s: "sorted_wrt (<) (map n_key (nodes m))" and c: "vm_compare m = None"
    using assms by (simp_all add: vm_inv_def)
  show ?thesis
  proof (cases "vm_search m k")
    case (Found i)
    then have "binary_search_by_key n_key k (nodes m) = Found i" by (simp add: vm_search_eq [OF c])
    note b = binary_search_Found [OF s this]
    then have "node_map (nodes m) k = Some (n_value (nodes m ! i))"
      using node_map_Some [OF s] nth_mem [OF b(1)] by blast
    with b Found show ?thesis by (intro found)
  next
    case (NotFound i)
    then have "binary_search_by_key n_key k (nodes m) = NotFound i" by (simp add: vm_search_eq [OF c])
    note b = binary_search_NotFound [OF s this]
    have "\<nexists>n. n \<in> set (nodes m) \<and> n_key n = k"
    proof
      assume "\<exists>n. n \<in> set (nodes m) \<and> n_key n = k"
      then obtain j where "j < length (nodes m)" "n_key (nodes m ! j) = k" by (auto simp: in_set_conv_nth)
      with b(2,3) [of j] show False by (cases "j < i") auto
    qed
    then have "node_map (nodes m) k = None" using node_map_Some [OF s, of k] by (cases "node_map (nodes m) k") auto
    with b NotFound show ?thesis by (intro absent)
  qed
qed

lemma vm_get_eq: "vm_inv T H m \<Longrightarrow> vm_get m k = node_map (nodes m) k"
  by (cases rule: vm_search_cases [of T H m k]) (simp_all add: vm_get_def)

lemma vm_get_fun: "vm_inv T H m \<Longrightarrow> vm_get m = node_map (nodes m)"
  by (rule ext) (rule vm_get_eq)

subsection \<open>Insertion and removal\<close>

lemma sorted_keys_nth:
  fixes xs :: "('k :: linorder, 'v) MapNode list"
  assumes "sorted_wrt (<) (map n_key xs)" and "i < length xs" "j < length xs" and "n_key (xs ! i) = n_key (xs ! j)"
  shows "i = j"
  using assms sorted_keys_distinct [OF assms(1)] by (simp add: nth_eq_iff_index_eq [of "map n_key xs", symmetric])

text \<open>A new node at its place, a node with a new value, and the list without a node.\<close>

lemma insert_node:
  fixes xs :: "('k :: linorder, 'v) MapNode list" and v :: 'v
  assumes s: "sorted_wrt (<) (map n_key xs)" and i: "i \<le> length xs"
    and lt: "\<And>j. j < i \<Longrightarrow> n_key (xs ! j) < k" and gt: "\<And>j. i \<le> j \<Longrightarrow> j < length xs \<Longrightarrow> k < n_key (xs ! j)"
  defines "ys \<equiv> vec_insert i \<lparr>n_key = k, n_value = v\<rparr> xs"
  shows "sorted_wrt (<) (map n_key ys)" and "node_map ys = (node_map xs)(k \<mapsto> v)"
proof -
  have "sorted_wrt (\<lambda>a b. n_key a < n_key b) ys"
    unfolding ys_def using s i lt gt by (intro sorted_wrt_vec_insert) (auto simp: sorted_wrt_map)
  then show sy: "sorted_wrt (<) (map n_key ys)" by (simp add: sorted_wrt_map)
  have fresh: "n_key n \<noteq> k" if n: "n \<in> set xs" for n
  proof -
    obtain j where "j < length xs" "xs ! j = n" using n by (auto simp: in_set_conv_nth)
    then show ?thesis using lt [of j] gt [of j] by (cases "j < i") auto
  qed
  show "node_map ys = (node_map xs)(k \<mapsto> v)"
    using fresh by (intro node_map_eqI [OF sy]) (auto simp: ys_def node_map_Some [OF s])
qed

lemma update_node:
  fixes xs :: "('k :: linorder, 'v) MapNode list" and v :: 'v
  assumes s: "sorted_wrt (<) (map n_key xs)" and i: "i < length xs" and k: "n_key (xs ! i) = k"
  defines "ys \<equiv> xs[i := \<lparr>n_key = k, n_value = v\<rparr>]"
  shows "sorted_wrt (<) (map n_key ys)" and "node_map ys = (node_map xs)(k \<mapsto> v)"
proof -
  have "map n_key ys = map n_key xs" using i k by (simp add: ys_def map_update list_update_same_conv)
  then show sy: "sorted_wrt (<) (map n_key ys)" using s by simp
  have same: "n = xs ! i" if n: "n \<in> set xs" "n_key n = k" for n
  proof -
    obtain j where "j < length xs" "xs ! j = n" using n(1) by (auto simp: in_set_conv_nth)
    then show ?thesis using sorted_keys_nth [OF s i] n(2) k by metis
  qed
  have "distinct xs" using sorted_keys_distinct [OF s] by (simp add: distinct_map)
  then have "set ys = insert \<lparr>n_key = k, n_value = v\<rparr> (set xs - {xs ! i})"
    unfolding ys_def using i by (rule set_update_distinct)
  also have "\<dots> = insert \<lparr>n_key = k, n_value = v\<rparr> {n \<in> set xs. n_key n \<noteq> k}" using same k by blast
  finally have set_ys: "set ys = insert \<lparr>n_key = k, n_value = v\<rparr> {n \<in> set xs. n_key n \<noteq> k}" .
  show "node_map ys = (node_map xs)(k \<mapsto> v)"
    by (intro node_map_eqI [OF sy]) (auto simp: set_ys node_map_Some [OF s])
qed

lemma remove_node:
  fixes xs :: "('k :: linorder, 'v) MapNode list"
  assumes s: "sorted_wrt (<) (map n_key xs)" and i: "i < length xs"
  defines "ys \<equiv> vec_remove i xs"
  shows "sorted_wrt (<) (map n_key ys)" and "node_map ys = (node_map xs)(n_key (xs ! i) := None)"
proof -
  have "sorted_wrt (\<lambda>a b. n_key a < n_key b) ys"
    unfolding ys_def using s by (intro sorted_wrt_vec_remove) (simp add: sorted_wrt_map)
  then show sy: "sorted_wrt (<) (map n_key ys)" by (simp add: sorted_wrt_map)
  have "distinct xs" using sorted_keys_distinct [OF s] by (simp add: distinct_map)
  then have "distinct (take i xs @ xs ! i # drop (Suc i) xs)" by (simp only: id_take_nth_drop [OF i, symmetric])
  then have out: "xs ! i \<notin> set ys" by (auto simp: ys_def vec_remove_def)
  have set_xs: "set xs = insert (xs ! i) (set ys)"
    using arg_cong [OF vec_insert_remove [OF i], of set] by (simp add: ys_def)
  have same: "n = xs ! i" if n: "n \<in> set xs" "n_key n = n_key (xs ! i)" for n
  proof -
    obtain j where "j < length xs" "xs ! j = n" using n(1) by (auto simp: in_set_conv_nth)
    then show ?thesis using sorted_keys_nth [OF s i] n(2) by metis
  qed
  have "n \<in> set ys \<longleftrightarrow> n \<in> set xs \<and> n_key n \<noteq> n_key (xs ! i)" for n
    using out same [of n] by (auto simp: set_xs)
  then have set_ys: "set ys = {n \<in> set xs. n_key n \<noteq> n_key (xs ! i)}" by blast
  show "node_map ys = (node_map xs)(n_key (xs ! i) := None)"
    by (intro node_map_eqI [OF sy]) (auto simp: set_ys node_map_Some [OF s])
qed

lemma vm_inv_data:
  assumes "vm_inv T H m" and "vec_ready T H data" and "sorted_wrt (<) (map n_key (vec_list data))"
  shows "vm_inv T H (m\<lparr>vm_data := data\<rparr>)"
  using assms by (simp add: vm_inv_def)

lemma Vec_remove_law:
  assumes "vec_ready T H v" and "i < length (vec_list v)"
  obtains v' where "Vec_remove v i = (v', Ok (vec_list v ! i))" "vec_ready T H v'" "vec_list v' = vec_remove i (vec_list v)"
  using kv.remove_law [OF assms] by (auto simp: Vec_remove_def)

lemma vm_insert_cases:
  assumes inv: "vm_inv T H m"
  obtains (oom) "vm_insert T H m k v = (m, Err OutOfMem)" "node_map (nodes m) k = None"
    | (ok) m' where "vm_insert T H m k v = (m', Ok (node_map (nodes m) k))" "vm_inv T H m'"
        "node_map (nodes m') = (node_map (nodes m))(k \<mapsto> v)"
proof -
  have rdy: "vec_ready T H (vm_data m)" and s: "sorted_wrt (<) (map n_key (nodes m))"
    using inv by (simp_all add: vm_inv_def)
  let ?n = "\<lparr>n_key = k, n_value = v\<rparr>"
  show ?thesis
  proof (cases rule: vm_search_cases [OF inv, of k])
    case (1 i)
    obtain d where d: "Vec_replace (vm_data m) i ?n = (d, Ok (nodes m ! i))" "vec_ready T H d"
      "vec_list d = (nodes m)[i := ?n]" using kv.replace_law [OF rdy 1(2), of ?n] by blast
    note u = update_node [OF s 1(2,3), of v]
    have "vm_insert T H m k v = (m\<lparr>vm_data := d\<rparr>, Ok (Some (n_value (nodes m ! i))))"
      using 1(1) d(1) by (simp add: vm_insert_def)
    moreover have "vm_inv T H (m\<lparr>vm_data := d\<rparr>)" using u(1) d by (intro vm_inv_data [OF inv]) simp_all
    ultimately show ?thesis using u(2) d(3) 1(4) by (intro ok [of "m\<lparr>vm_data := d\<rparr>"]) simp_all
  next
    case (2 i)
    note u = insert_node [OF s 2(2,4,5), of v]
    from kv.insert_law [OF rdy 2(2), of ?n]
    consider "Vec_insert T H (vm_data m) i ?n = (vm_data m, Err OutOfMem)"
      | d where "Vec_insert T H (vm_data m) i ?n = (d, Ok ())" "vec_ready T H d" "vec_list d = vec_insert i ?n (nodes m)"
      by blast
    then show ?thesis
    proof cases
      case 1
      then show ?thesis using 2(1,3) by (intro oom) (simp_all add: vm_insert_def)
    next
      case (2 d)
      have "vm_inv T H (m\<lparr>vm_data := d\<rparr>)" using u(1) 2(2,3) by (intro vm_inv_data [OF inv]) simp_all
      then show ?thesis
        using 2 \<open>vm_search m k = NotFound i\<close> \<open>node_map (nodes m) k = None\<close> u(2)
        by (intro ok [of "m\<lparr>vm_data := d\<rparr>"]) (simp_all add: vm_insert_def)
    qed
  qed
qed

text \<open>Taking out the node at an index, the common part of all removals.\<close>

lemma vm_remove_at:
  assumes inv: "vm_inv T H m" and i: "i < length (nodes m)"
  obtains d where "Vec_remove (vm_data m) i = (d, Ok (nodes m ! i))" "Vec_try_remove (vm_data m) i = (d, Ok (Some (nodes m ! i)))"
    "vm_inv T H (m\<lparr>vm_data := d\<rparr>)" "vec_list d = vec_remove i (nodes m)"
    "node_map (vec_list d) = (node_map (nodes m))(n_key (nodes m ! i) := None)"
proof -
  have rdy: "vec_ready T H (vm_data m)" and s: "sorted_wrt (<) (map n_key (nodes m))"
    using inv by (simp_all add: vm_inv_def)
  obtain d where d: "Vec_try_remove (vm_data m) i = (d, Ok (Some (nodes m ! i)))" "vec_ready T H d"
    "vec_list d = vec_remove i (nodes m)" using kv.remove_law [OF rdy i] by blast
  note u = remove_node [OF s i]
  show ?thesis
    using d u inv by (intro that [of d]) (simp_all add: Vec_remove_def vm_inv_def)
qed

lemma vm_remove_spec:
  assumes inv: "vm_inv T H m"
  shows "\<exists>m'. vm_remove m k = (m', Ok (node_map (nodes m) k)) \<and> vm_inv T H m' \<and>
    node_map (nodes m') = (node_map (nodes m))(k := None)"
proof (cases rule: vm_search_cases [OF inv, of k])
  case (1 i)
  obtain d where "Vec_remove (vm_data m) i = (d, Ok (nodes m ! i))" "vm_inv T H (m\<lparr>vm_data := d\<rparr>)"
    "node_map (vec_list d) = (node_map (nodes m))(n_key (nodes m ! i) := None)"
    using vm_remove_at [OF inv 1(2)] by blast
  with 1 show ?thesis by (intro exI [of _ "m\<lparr>vm_data := d\<rparr>"]) (simp add: vm_remove_def)
next
  case (2 i)
  then show ?thesis using inv by (intro exI [of _ m]) (simp add: vm_remove_def fun_upd_idem)
qed

text \<open>The removal without its result, which is never a panic.\<close>

definition vm_take :: "('k :: linorder, 'v) VecMap \<Rightarrow> 'k \<Rightarrow> ('k, 'v) VecMap \<times> 'v option" where
  "vm_take m k = (case vm_remove m k of (m', Ok r) \<Rightarrow> (m', r) | (m', _) \<Rightarrow> (m', None))"

interpretation vm: total_key_map "vm_inv T H" "\<lambda>m. node_map (nodes m)" "\<lambda>m k v. Some (vm_insert T H m k v)" vm_take
  for T H
proof
  fix m :: "('k :: linorder, 'v) VecMap" and k v old
  assume inv: "vm_inv T H m"
  obtain m' where r: "vm_remove m k = (m', Ok (node_map (nodes m) k))" "vm_inv T H m'"
    "node_map (nodes m') = (node_map (nodes m))(k := None)" using vm_remove_spec [OF inv] by blast
  then show "snd (vm_take m k) = node_map (nodes m) k" "vm_inv T H (fst (vm_take m k))"
    "node_map (nodes (fst (vm_take m k))) = (node_map (nodes m))(k := None)"
    by (simp_all add: vm_take_def)
  show "\<exists>m' r. Some (vm_insert T H m k v) = Some (m', r) \<and> (r = Err OutOfMem \<and> m' = m \<or>
      r = Ok None \<and> vm_inv T H m' \<and> node_map (nodes m') = (node_map (nodes m))(k \<mapsto> v))"
    if "node_map (nodes m) k = None"
    by (cases rule: vm_insert_cases [OF inv, of k v]) (use that in auto)
  show "\<exists>m'. Some (vm_insert T H m k v) = Some (m', Ok (Some old)) \<and> vm_inv T H m' \<and>
      node_map (nodes m') = (node_map (nodes m))(k \<mapsto> v)"
    if "node_map (nodes m) k = Some old"
    by (cases rule: vm_insert_cases [OF inv, of k v]) (use that in auto)
qed

subsection \<open>Ordered access\<close>

lemma slice_eq_filter:
  assumes "lo \<le> hi" and "hi \<le> length xs" and P: "\<And>j. j < length xs \<Longrightarrow> P (xs ! j) \<longleftrightarrow> lo \<le> j \<and> j < hi"
  shows "take (hi - lo) (drop lo xs) = filter P xs"
proof -
  have split: "xs = take lo xs @ take (hi - lo) (drop lo xs) @ drop hi xs"
    using assms(1) by (metis append_take_drop_id drop_drop le_add_diff_inverse2)
  have "filter P (take lo xs) = []"
    using assms(1,2) P by (auto simp: filter_empty_conv in_set_conv_nth)
  moreover have "filter P (drop hi xs) = []"
    using assms(2) P by (auto simp: filter_empty_conv in_set_conv_nth)
  moreover have "filter P (take (hi - lo) (drop lo xs)) = take (hi - lo) (drop lo xs)"
    using assms(1,2) P by (auto simp: filter_id_conv in_set_conv_nth)
  ultimately show ?thesis using arg_cong [OF split, of "filter P"] by simp
qed

definition above :: "'k :: linorder Bound \<Rightarrow> 'k \<Rightarrow> bool" where
  "above b k = (case b of Included a \<Rightarrow> a \<le> k | Excluded a \<Rightarrow> a < k | Unbounded \<Rightarrow> True)"

definition below :: "'k :: linorder Bound \<Rightarrow> 'k \<Rightarrow> bool" where
  "below b k = (case b of Included a \<Rightarrow> k \<le> a | Excluded a \<Rightarrow> k < a | Unbounded \<Rightarrow> True)"

lemma range_valid_overlap:
  assumes "range_valid s e" shows "above s k \<or> below e k"
  using assms by (auto simp: range_valid_def above_def below_def split: Bound.splits)

text \<open>Where a key of the map stands relative to the result of a search.\<close>

lemma search_order:
  assumes inv: "vm_inv T H m" and j: "j < length (nodes m)"
  shows "vm_search m k = Found i \<Longrightarrow> (k < n_key (nodes m ! j) \<longleftrightarrow> i < j) \<and> (n_key (nodes m ! j) < k \<longleftrightarrow> j < i)"
    and "vm_search m k = NotFound i \<Longrightarrow> (k < n_key (nodes m ! j) \<longleftrightarrow> i \<le> j) \<and> (n_key (nodes m ! j) < k \<longleftrightarrow> j < i)"
proof -
  have s: "a < b \<Longrightarrow> b < length (nodes m) \<Longrightarrow> n_key (nodes m ! a) < n_key (nodes m ! b)" for a b
    using inv by (simp add: vm_inv_def sorted_wrt_map sorted_wrt_iff_nth_less)
  {
    assume "vm_search m k = Found i"
    then have i: "i < length (nodes m)" "n_key (nodes m ! i) = k" using vm_search_cases [OF inv, of k] by auto
    consider "i < j" | "i = j" | "j < i" by linarith
    then show "(k < n_key (nodes m ! j) \<longleftrightarrow> i < j) \<and> (n_key (nodes m ! j) < k \<longleftrightarrow> j < i)"
      using i j s [of i j] s [of j i] by cases auto
  next
    assume "vm_search m k = NotFound i"
    then have "j < i \<Longrightarrow> n_key (nodes m ! j) < k" "i \<le> j \<Longrightarrow> k < n_key (nodes m ! j)"
      using vm_search_cases [OF inv, of k] j by auto
    then show "(k < n_key (nodes m ! j) \<longleftrightarrow> i \<le> j) \<and> (n_key (nodes m ! j) < k \<longleftrightarrow> j < i)"
      by (cases "j < i") auto
  }
qed

lemma start_index:
  assumes "vm_inv T H m" and "j < length (nodes m)"
  shows "above s (n_key (nodes m ! j)) \<longleftrightarrow>
    (case (case s of
          Included key \<Rightarrow> (case vm_search m key of Found i \<Rightarrow> Included i | NotFound i \<Rightarrow> Included i)
        | Excluded key \<Rightarrow> (case vm_search m key of Found i \<Rightarrow> Excluded i | NotFound i \<Rightarrow> Included i)
        | Unbounded \<Rightarrow> Unbounded) of Included i \<Rightarrow> i | Excluded i \<Rightarrow> Suc i | Unbounded \<Rightarrow> 0) \<le> j"
  using search_order [OF assms]
  by (auto simp: above_def Suc_le_eq not_less [symmetric] split: Bound.splits search_result.splits)

lemma end_index:
  assumes "vm_inv T H m" and "j < length (nodes m)"
  shows "below e (n_key (nodes m ! j)) \<longleftrightarrow>
    j < (case (case e of
          Included key \<Rightarrow> (case vm_search m key of Found i \<Rightarrow> Included i | NotFound i \<Rightarrow> Excluded i)
        | Excluded key \<Rightarrow> (case vm_search m key of Found i \<Rightarrow> Excluded i | NotFound i \<Rightarrow> Excluded i)
        | Unbounded \<Rightarrow> Unbounded) of Included i \<Rightarrow> Suc i | Excluded i \<Rightarrow> i | Unbounded \<Rightarrow> length (nodes m))"
  using search_order [OF assms] assms(2)
  by (auto simp: below_def less_Suc_eq_le not_less [symmetric] split: Bound.splits search_result.splits)

lemma search_index_bound:
  assumes "vm_inv T H m"
  shows "vm_search m k = Found i \<Longrightarrow> i < length (nodes m)" and "vm_search m k = NotFound i \<Longrightarrow> i \<le> length (nodes m)"
  using vm_search_cases [OF assms, of k] by auto

lemma vm_range_eq:
  assumes inv: "vm_inv T H m" and valid: "range_valid s e"
  shows "vm_range m s e = Ok (filter (\<lambda>(k, v). above s k \<and> below e k) (map node_tuple (nodes m)))"
proof -
  define lo where "lo = (case (case s of
          Included key \<Rightarrow> (case vm_search m key of Found i \<Rightarrow> Included i | NotFound i \<Rightarrow> Included i)
        | Excluded key \<Rightarrow> (case vm_search m key of Found i \<Rightarrow> Excluded i | NotFound i \<Rightarrow> Included i)
        | Unbounded \<Rightarrow> Unbounded) of Included i \<Rightarrow> i | Excluded i \<Rightarrow> Suc i | Unbounded \<Rightarrow> 0)"
  define hi where "hi = (case (case e of
          Included key \<Rightarrow> (case vm_search m key of Found i \<Rightarrow> Included i | NotFound i \<Rightarrow> Excluded i)
        | Excluded key \<Rightarrow> (case vm_search m key of Found i \<Rightarrow> Excluded i | NotFound i \<Rightarrow> Excluded i)
        | Unbounded \<Rightarrow> Unbounded) of Included i \<Rightarrow> Suc i | Excluded i \<Rightarrow> i | Unbounded \<Rightarrow> length (nodes m))"
  have run: "vm_range m s e =
      (if hi < lo \<or> length (nodes m) < hi then Panic else Ok (map node_tuple (take (hi - lo) (drop lo (nodes m)))))"
    using valid by (simp add: vm_range_def get_range_iter_bounds_def slice_bounds_def lo_def hi_def Let_def)
  have iff: "above s (n_key (nodes m ! j)) \<longleftrightarrow> lo \<le> j" "below e (n_key (nodes m ! j)) \<longleftrightarrow> j < hi"
    if "j < length (nodes m)" for j
    unfolding lo_def hi_def using start_index [OF inv that] end_index [OF inv that] by blast+
  have hi: "hi \<le> length (nodes m)" and lo: "lo \<le> length (nodes m)"
    unfolding hi_def lo_def using search_index_bound [OF inv]
    by (auto split: Bound.splits search_result.splits simp: Suc_le_eq intro: less_imp_le)
  have le: "lo \<le> hi"
  proof (rule ccontr)
    assume "\<not> lo \<le> hi"
    then have "hi < length (nodes m)" "\<not> lo \<le> hi" using lo by linarith+
    with iff [of hi] range_valid_overlap [OF valid] show False by auto
  qed
  have "take (hi - lo) (drop lo (nodes m)) = filter (\<lambda>n. above s (n_key n) \<and> below e (n_key n)) (nodes m)"
    using iff by (intro slice_eq_filter [OF le hi]) auto
  then show ?thesis
    using run le hi by (simp add: filter_map comp_def node_tuple_def)
qed

lemma vm_range_panic: "\<not> range_valid s e \<Longrightarrow> vm_range m s e = Panic"
  by (simp add: vm_range_def get_range_iter_bounds_def)

lemma node_map_dom: "dom (node_map xs) = n_key ` set xs"
  by (simp add: node_map_def dom_map_of_conv_image_fst image_image node_tuple_def)

lemma node_map_nth:
  fixes xs :: "('k :: linorder, 'v) MapNode list"
  assumes "sorted_wrt (<) (map n_key xs)" and "i < length xs"
  shows "node_map xs (n_key (xs ! i)) = Some (n_value (xs ! i))"
  using node_map_Some [OF assms(1)] nth_mem [OF assms(2)] by blast

lemma dom_nth:
  assumes "j \<in> dom (node_map xs)"
  obtains i where "i < length xs" "n_key (xs ! i) = j"
  using assms that by (auto simp: node_map_dom in_set_conv_nth simp del: dom_map_of_conv_image_fst)

lemma vm_remove_gt_spec:
  assumes inv: "vm_inv T H m"
  shows "\<exists>m' r. vm_remove_gt m k = (m', Ok r) \<and> vm_inv T H m' \<and>
    (case r of
       None \<Rightarrow> (\<forall>j \<in> dom (node_map (nodes m)). j < k) \<and> m' = m
     | Some (j, v) \<Rightarrow> k \<le> j \<and> node_map (nodes m) j = Some v \<and> (\<forall>i \<in> dom (node_map (nodes m)). k \<le> i \<longrightarrow> j \<le> i) \<and>
         node_map (nodes m') = (node_map (nodes m))(j := None))"
proof -
  have s: "sorted_wrt (<) (map n_key (nodes m))" and rdy: "vec_ready T H (vm_data m)"
    using inv by (simp_all add: vm_inv_def)
  have mono: "a < b \<Longrightarrow> b < length (nodes m) \<Longrightarrow> n_key (nodes m ! a) < n_key (nodes m ! b)" for a b
    using s by (simp add: sorted_wrt_map sorted_wrt_iff_nth_less)
  show ?thesis
  proof (cases "vm_search m k")
    case (Found i)
    then have i: "i < length (nodes m)" "n_key (nodes m ! i) = k" using vm_search_cases [OF inv, of k] by auto
    obtain d where "Vec_remove (vm_data m) i = (d, Ok (nodes m ! i))" "vm_inv T H (m\<lparr>vm_data := d\<rparr>)"
      "node_map (vec_list d) = (node_map (nodes m))(n_key (nodes m ! i) := None)"
      using vm_remove_at [OF inv i(1)] by blast
    then show ?thesis
      using Found i node_map_nth [OF s i(1)]
      by (intro exI [of _ "m\<lparr>vm_data := d\<rparr>"] exI [of _ "Some (node_tuple (nodes m ! i))"])
        (simp add: vm_remove_gt_def node_tuple_def)
  next
    case (NotFound i)
    have lt: "j < i \<Longrightarrow> j < length (nodes m) \<Longrightarrow> n_key (nodes m ! j) < k"
      and gt: "i \<le> j \<Longrightarrow> j < length (nodes m) \<Longrightarrow> k < n_key (nodes m ! j)" for j
      using search_order(2) [OF inv _ NotFound, of j] by auto
    show ?thesis
    proof (cases "i < length (nodes m)")
      case True
      obtain d where d: "Vec_try_remove (vm_data m) i = (d, Ok (Some (nodes m ! i)))" "vm_inv T H (m\<lparr>vm_data := d\<rparr>)"
        "node_map (vec_list d) = (node_map (nodes m))(n_key (nodes m ! i) := None)"
        using vm_remove_at [OF inv True] by blast
      have "n_key (nodes m ! i) \<le> b" if b: "b \<in> dom (node_map (nodes m))" "k \<le> b" for b
      proof -
        obtain a where a: "a < length (nodes m)" "n_key (nodes m ! a) = b" by (rule dom_nth [OF b(1)])
        then have "i \<le> a" using lt [of a] b(2) by (cases "a < i") auto
        then show ?thesis using mono [of i a] a by (cases "i = a") auto
      qed
      then show ?thesis
        using NotFound d gt [of i] True node_map_nth [OF s True]
        by (intro exI [of _ "m\<lparr>vm_data := d\<rparr>"] exI [of _ "Some (node_tuple (nodes m ! i))"])
          (simp add: vm_remove_gt_def node_tuple_def)
    next
      case False
      then have "Vec_try_remove (vm_data m) i = (vm_data m, Ok None)"
        using kv.remove_out [OF rdy] by simp
      moreover have "j < k" if "j \<in> dom (node_map (nodes m))" for j
        using dom_nth [OF that] lt False by (metis less_le_trans not_less)
      ultimately show ?thesis
        using NotFound inv by (intro exI [of _ m] exI [of _ None]) (simp add: vm_remove_gt_def)
    qed
  qed
qed

subsection \<open>Properties\<close>

text \<open>
  C21. The sorted vector map implements a finite map: a lookup returns the value last stored,
  an insertion returns the value it replaces (or fails for lack of memory, only for a new key
  and without any effect), a removal returns the value it removes.
\<close>

theorem vec_map_refines_map:
  assumes "vm_inv T H m"
  shows "(vm_insert T H m k v = (m, Err OutOfMem) \<and> vm_get m k = None \<or>
      (\<exists>m'. vm_insert T H m k v = (m', Ok (vm_get m k)) \<and> vm_inv T H m' \<and> vm_get m' = (vm_get m)(k \<mapsto> v))) \<and>
    (\<exists>m'. vm_remove m k = (m', Ok (vm_get m k)) \<and> vm_inv T H m' \<and> vm_get m' = (vm_get m)(k := None))"
proof
  show "vm_insert T H m k v = (m, Err OutOfMem) \<and> vm_get m k = None \<or>
      (\<exists>m'. vm_insert T H m k v = (m', Ok (vm_get m k)) \<and> vm_inv T H m' \<and> vm_get m' = (vm_get m)(k \<mapsto> v))"
    by (cases rule: vm_insert_cases [OF assms, of k v]) (auto simp: vm_get_fun [OF assms] vm_get_fun)
  show "\<exists>m'. vm_remove m k = (m', Ok (vm_get m k)) \<and> vm_inv T H m' \<and> vm_get m' = (vm_get m)(k := None)"
    using vm_remove_spec [OF assms, of k] by (auto simp: vm_get_fun [OF assms] vm_get_fun)
qed

lemma vm_new_inv:
  "elem_ok T \<Longrightarrow> l_size T \<noteq> 0 \<Longrightarrow> heap_ok H \<Longrightarrow> vm_inv T H (vm_new T) \<and> nodes (vm_new T) = []"
  by (simp add: vm_inv_def vm_new_def Vec_new_ready)

lemma example_map_inv: "vm_inv u64_layout small_heap (vm_new u64_layout)"
  by (simp add: vm_new_inv small_heap_ok elem_ok_def)

theorem vec_map_refines_map_witness:
  "\<exists>m'. vm_insert u64_layout small_heap (vm_new u64_layout) (3 :: nat) (7 :: nat) = (m', Ok None) \<and> vm_get m' 3 = Some 7"
proof -
  have search: "vm_search (vm_new u64_layout) (3 :: nat) = NotFound 0"
    by (simp add: vm_search_def vm_new_def vec_list_def Vec_new_def binary_search_by_def bs_loop.simps)
  have "snd (vm_insert u64_layout small_heap (vm_new u64_layout) (3 :: nat) (7 :: nat)) = Ok None"
    unfolding vm_insert_def search search_result.case Let_def
    by (simp add: vm_new_def Vec_insert_def ptr_copy_def run_push Vec_new_def RawVec_new_def)
  moreover have "vm_get (vm_new u64_layout) (3 :: nat) = (None :: nat option)" by (simp add: vm_get_def search)
  ultimately show ?thesis
    using vec_map_refines_map [OF example_map_inv, of "3 :: nat" "7 :: nat"] by auto
qed

text \<open>
  C34. A range query with bounds in order returns exactly the entries whose keys are within the
  bounds, in increasing order of the keys; with bounds out of order it panics.  Removal at or
  above a key takes out the least such entry.
\<close>

theorem vec_map_ordered_access:
  assumes "vm_inv T H m"
  shows "(if range_valid s e
      then vm_range m s e = Ok (filter (\<lambda>(k, v). above s k \<and> below e k) (map node_tuple (nodes m)))
      else vm_range m s e = Panic) \<and>
    sorted_wrt (<) (map fst (map node_tuple (nodes m))) \<and> vm_get m = map_of (map node_tuple (nodes m)) \<and>
    (\<exists>m' r. vm_remove_gt m k = (m', Ok r) \<and> vm_inv T H m' \<and>
      (case r of
         None \<Rightarrow> (\<forall>j \<in> dom (vm_get m). j < k) \<and> m' = m
       | Some (j, v) \<Rightarrow> k \<le> j \<and> vm_get m j = Some v \<and> (\<forall>i \<in> dom (vm_get m). k \<le> i \<longrightarrow> j \<le> i) \<and>
           vm_get m' = (vm_get m)(j := None)))"
proof (intro conjI)
  show "if range_valid s e
      then vm_range m s e = Ok (filter (\<lambda>(k, v). above s k \<and> below e k) (map node_tuple (nodes m)))
      else vm_range m s e = Panic"
    using vm_range_eq [OF assms] by (simp add: vm_range_panic)
  show "sorted_wrt (<) (map fst (map node_tuple (nodes m)))" using assms by (simp add: vm_inv_def)
  show "vm_get m = map_of (map node_tuple (nodes m))" by (simp add: vm_get_fun [OF assms] node_map_def)
  obtain m' r where "vm_remove_gt m k = (m', Ok r)" "vm_inv T H m'"
    "case r of
       None \<Rightarrow> (\<forall>j \<in> dom (node_map (nodes m)). j < k) \<and> m' = m
     | Some (j, v) \<Rightarrow> k \<le> j \<and> node_map (nodes m) j = Some v \<and> (\<forall>i \<in> dom (node_map (nodes m)). k \<le> i \<longrightarrow> j \<le> i) \<and>
         node_map (nodes m') = (node_map (nodes m))(j := None)"
    using vm_remove_gt_spec [OF assms, of k] by blast
  then show "\<exists>m' r. vm_remove_gt m k = (m', Ok r) \<and> vm_inv T H m' \<and>
      (case r of
         None \<Rightarrow> (\<forall>j \<in> dom (vm_get m). j < k) \<and> m' = m
       | Some (j, v) \<Rightarrow> k \<le> j \<and> vm_get m j = Some v \<and> (\<forall>i \<in> dom (vm_get m). k \<le> i \<longrightarrow> j \<le> i) \<and>
           vm_get m' = (vm_get m)(j := None))"
    using vm_get_fun [OF assms] vm_get_fun [of T H m'] by (intro exI [of _ m'] exI [of _ r]) (cases r; simp)
qed

theorem vec_map_ordered_access_witness:
  "vm_range (vm_new u64_layout :: (nat, nat) VecMap) (Included 1) (Excluded 5) = Ok []"
proof -
  have "range_valid (Included 1) (Excluded (5 :: nat))" by (simp add: range_valid_def)
  moreover have "nodes (vm_new u64_layout :: (nat, nat) VecMap) = []" by (simp add: vm_new_def vec_list_def Vec_new_def)
  ultimately show ?thesis
    using vec_map_ordered_access [where m = "vm_new u64_layout :: (nat, nat) VecMap",
        OF example_map_inv, of "Included 1" "Excluded 5" 0] by simp
qed

end
