(* ===== verification/Thread_State.thy ===== *)
theory Thread_State
  imports Bit_Utils
begin

text \<open>
  The status word of a thread, from \<^verbatim>\<open>kernel/src/sched/thread.rs\<close>: the two low bits hold the
  state, the bits above a generation that every change of state increments.  A reference to a
  suspended thread records the whole word, so that it can wake the thread at most once.
\<close>

datatype ThreadState = Running | Ready | Suspended | Dead

definition GENERATION_STEP_SIZE :: usize where
  "GENERATION_STEP_SIZE = 4"

definition THREAD_STATE_MASK :: usize where
  "THREAD_STATE_MASK = 3"

primrec ThreadState_val :: "ThreadState \<Rightarrow> usize" where
  "ThreadState_val Running = 0"
| "ThreadState_val Ready = 1"
| "ThreadState_val Suspended = 2"
| "ThreadState_val Dead = 3"

definition ThreadState_from_usize :: "usize \<Rightarrow> ThreadState" where
  "ThreadState_from_usize n =
     (let m = n AND THREAD_STATE_MASK
      in if m = 0 then Running else if m = 1 then Ready else if m = 2 then Suspended else Dead)"

definition to_status :: "ThreadState \<Rightarrow> usize \<Rightarrow> usize" where
  "to_status st old_status = (old_status AND unot THREAD_STATE_MASK) OR ThreadState_val st"

text \<open>The word after a change of state; the addition is checked.\<close>

definition next_status :: "ThreadState \<Rightarrow> usize \<Rightarrow> usize kresult" where
  "next_status st old_status = uadd (to_status st old_status) GENERATION_STEP_SIZE"

definition generation_bits :: "usize \<Rightarrow> usize" where
  "generation_bits status = status AND unot THREAD_STATE_MASK"

subsection \<open>The word as a pair\<close>

lemma ThreadState_val_less: "ThreadState_val st < 4"
  by (cases st) simp_all

lemma mask_2: "THREAD_STATE_MASK = mask 2"
  by (simp add: THREAD_STATE_MASK_def mask_eq_exp_minus_1)

lemma state_of_status:
  assumes "n mod 4 = ThreadState_val st"
  shows "ThreadState_from_usize n = st"
proof -
  have "n AND THREAD_STATE_MASK = n mod 4" by (simp add: mask_2 take_bit_eq_mask [symmetric] take_bit_eq_mod)
  with assms show ?thesis by (cases st) (simp_all add: ThreadState_from_usize_def)
qed

lemma state_of_add [simp]: "ThreadState_from_usize (4 * g + ThreadState_val st) = st"
  using ThreadState_val_less [of st] by (intro state_of_status) simp

lemma generation_bits_eq: "n < usize_limit \<Longrightarrow> generation_bits n = 4 * (n div 4)"
  using and_unot_mask [of n 2] by (simp add: generation_bits_def mask_2 minus_mod_eq_mult_div)

lemma to_status_eq:
  assumes "n < usize_limit"
  shows "to_status st n = 4 * (n div 4) + ThreadState_val st"
proof -
  have "to_status st n = ThreadState_val st OR 2 ^ 2 * (n div 4)"
    using generation_bits_eq [OF assms] by (simp add: to_status_def generation_bits_def or.commute)
  then show ?thesis using OR_shift_eq_add [of "ThreadState_val st" 2 "n div 4"] ThreadState_val_less [of st] by simp
qed

text \<open>A change of state puts the thread into that state and into the next generation.\<close>

lemma next_status_eq:
  assumes "n + 8 < usize_limit"
  shows "next_status st n = Ok (4 * Suc (n div 4) + ThreadState_val st)"
proof -
  have "4 * (n div 4) \<le> n" by simp
  then have "4 * (n div 4) + ThreadState_val st + 4 < usize_limit"
    using assms ThreadState_val_less [of st] by linarith
  then show ?thesis using assms by (simp add: next_status_def to_status_eq uadd_def GENERATION_STEP_SIZE_def)
qed

lemma next_statusE:
  assumes "next_status st n = Ok m" and "n < usize_limit"
  shows "m = 4 * Suc (n div 4) + ThreadState_val st" and "m < usize_limit"
    and "ThreadState_from_usize m = st" and "m div 4 = Suc (n div 4)"
proof -
  show m: "m = 4 * Suc (n div 4) + ThreadState_val st" and "m < usize_limit"
    using assms by (auto simp: next_status_def to_status_eq uadd_def GENERATION_STEP_SIZE_def split: if_splits)
  show "ThreadState_from_usize m = st" unfolding m by (rule state_of_add)
  show "m div 4 = Suc (n div 4)" unfolding m using ThreadState_val_less [of st] by simp
qed

lemma next_status_result: "next_status st n = Panic \<or> (\<exists>m. next_status st n = Ok m)"
  by (simp add: next_status_def uadd_def)

lemma status_split: "n = 4 * (n div 4) + ThreadState_val (ThreadState_from_usize n)"
proof -
  have "n mod 4 < 4" by simp
  then consider "n mod 4 = 0" | "n mod 4 = 1" | "n mod 4 = 2" | "n mod 4 = 3" by linarith
  then have "ThreadState_val (ThreadState_from_usize n) = n mod 4"
    by cases (use state_of_status [of n Running] state_of_status [of n Ready]
      state_of_status [of n Suspended] state_of_status [of n Dead] in simp_all)
  then show ?thesis by simp
qed

end
