(* ===== verification/Binary_Heap.thy ===== *)
theory Binary_Heap
  imports Kernel_Vec "HOL-Library.Multiset"
begin

text \<open>
  The max-heap of the kernel, \<^verbatim>\<open>kernel/src/container/binary_heap.rs\<close>, on a vector.  Elements are
  compared through a key (the \<^verbatim>\<open>Ord\<close> instance of the element type need not distinguish all
  values: the timeouts of the scheduler are compared by their time alone).  The loops that
  restore the order are defined on the vector as the source has them; \<open>up\<close> and \<open>down\<close> are the
  same loops on the list that the vector stands for.
\<close>

subsection \<open>The operations\<close>

record 'a BinaryHeap =
  bh_data :: "'a Vec"

definition bh_new :: "layout \<Rightarrow> 'a BinaryHeap" where
  "bh_new T = \<lparr>bh_data = Vec_new T\<rparr>"

definition bh_len :: "'a BinaryHeap \<Rightarrow> usize" where
  "bh_len h = v_len (bh_data h)"

definition parent :: "nat \<Rightarrow> nat option" where
  "parent index = (if index = 0 then None else Some ((index - 1) div 2))"

text \<open>Indices are below the length of a vector: doubling them stays within a word.\<close>

definition left_child :: "nat \<Rightarrow> nat \<Rightarrow> nat option" where
  "left_child len index = (let c = index * 2 + 1 in if len \<le> c then None else Some c)"

definition right_child :: "nat \<Rightarrow> nat \<Rightarrow> nat option" where
  "right_child len index = (let c = index * 2 + 2 in if len \<le> c then None else Some c)"

definition largest_child :: "('a \<Rightarrow> 'k :: linorder) \<Rightarrow> 'a list \<Rightarrow> nat \<Rightarrow> nat option" where
  "largest_child key xs index =
     (case (left_child (length xs) index, right_child (length xs) index) of
        (Some left, Some right) \<Rightarrow> if key (xs ! right) < key (xs ! left) then Some left else Some right
      | (Some left, None) \<Rightarrow> Some left
      | (None, Some right) \<Rightarrow> Some right
      | (None, None) \<Rightarrow> None)"

lemma largest_child_range:
  "largest_child key xs i = Some c \<Longrightarrow> i < c \<and> c < length xs"
  by (auto simp: largest_child_def left_child_def right_child_def Let_def split: if_splits)

text \<open>The loop of \<open>push\<close>: the element at the index moves up while it is larger than its parent.\<close>

function sift_up :: "('a \<Rightarrow> 'k :: linorder) \<Rightarrow> 'a Vec \<Rightarrow> nat \<Rightarrow> 'a Vec \<times> unit kresult" where
  "sift_up key v index =
     (case parent index of
        None \<Rightarrow> (v, Ok ())
      | Some p \<Rightarrow>
          if \<not> index < v_len v then (v, Panic)
          else if key (vec_list v ! p) < key (vec_list v ! index) then
            (case Vec_swap v p index of
               (v', Ok _) \<Rightarrow> sift_up key v' p
             | (v', _) \<Rightarrow> (v', Panic))
          else (v, Ok ()))"
  by pat_completeness auto
termination
  by (relation "measure (\<lambda>(key, v, i). i)") (auto simp: parent_def split: if_splits)

lemma v_len_swap [simp]: "v_len (fst (Vec_swap v a b)) = v_len v"
  by (simp add: Vec_swap_def)

text \<open>The loop of \<open>pop\<close>: the element at the index moves down while a child is larger.\<close>

function sift_down :: "('a \<Rightarrow> 'k :: linorder) \<Rightarrow> 'a Vec \<Rightarrow> nat \<Rightarrow> 'a Vec \<times> unit kresult" where
  "sift_down key v index =
     (case largest_child key (vec_list v) index of
        None \<Rightarrow> (v, Ok ())
      | Some c \<Rightarrow>
          if key (vec_list v ! index) < key (vec_list v ! c) then
            (case Vec_swap v index c of
               (v', Ok _) \<Rightarrow> sift_down key v' c
             | (v', _) \<Rightarrow> (v', Panic))
          else (v, Ok ()))"
  by pat_completeness auto
termination
proof (relation "measure (\<lambda>(key, v, i). v_len v - i)", goal_cases)
  case (2 key v index c v' r u)
  have "v_len v' = v_len v" using 2(3) v_len_swap [of v index c] by (metis fst_conv)
  with largest_child_range [OF 2(1)] show ?case by auto
qed simp

declare sift_up.simps [simp del] sift_down.simps [simp del]

definition bh_push ::
  "layout \<Rightarrow> heap_ops \<Rightarrow> ('a \<Rightarrow> 'k :: linorder) \<Rightarrow> 'a BinaryHeap \<Rightarrow> 'a \<Rightarrow> 'a BinaryHeap \<times> unit kresult" where
  "bh_push T H key h object =
     (case Vec_push T H (bh_data h) object of
        (v, Ok _) \<Rightarrow> (case sift_up key v (v_len v - 1) of (v', r) \<Rightarrow> (h\<lparr>bh_data := v'\<rparr>, r))
      | (v, r) \<Rightarrow> (h\<lparr>bh_data := v\<rparr>, r))"

definition bh_pop :: "('a \<Rightarrow> 'k :: linorder) \<Rightarrow> 'a BinaryHeap \<Rightarrow> 'a BinaryHeap \<times> 'a option kresult" where
  "bh_pop key h =
     (case Vec_pop (bh_data h) of
        (v, Ok None) \<Rightarrow> (h\<lparr>bh_data := v\<rparr>, Ok None)
      | (v, Ok (Some tail)) \<Rightarrow>
          if v_len v = 0 then (h\<lparr>bh_data := v\<rparr>, Ok (Some tail))
          else
            (case Vec_replace v 0 tail of
               (v', Ok out) \<Rightarrow>
                 (case sift_down key v' 0 of (v'', r) \<Rightarrow> (h\<lparr>bh_data := v''\<rparr>, rbind r (\<lambda>_. Ok (Some out))))
             | (v', _) \<Rightarrow> (h\<lparr>bh_data := v'\<rparr>, Panic))
      | (v, _) \<Rightarrow> (h\<lparr>bh_data := v\<rparr>, Panic))"

definition bh_peek :: "'a BinaryHeap \<Rightarrow> 'a option" where
  "bh_peek h = Vec_get (bh_data h) 0"

subsection \<open>The loops on lists\<close>

definition swapped :: "'a list \<Rightarrow> nat \<Rightarrow> nat \<Rightarrow> 'a list" where
  "swapped xs i j = xs[i := xs ! j, j := xs ! i]"

lemma length_swapped [simp]: "length (swapped xs i j) = length xs"
  by (simp add: swapped_def)

lemma mset_swapped [simp]: "i < length xs \<Longrightarrow> j < length xs \<Longrightarrow> mset (swapped xs i j) = mset xs"
  by (simp add: swapped_def mset_swap)

lemma nth_swapped:
  "i < length xs \<Longrightarrow> j < length xs \<Longrightarrow> k < length xs \<Longrightarrow>
    swapped xs i j ! k = (if k = j then xs ! i else if k = i then xs ! j else xs ! k)"
  by (auto simp: swapped_def nth_list_update)

function up :: "('a \<Rightarrow> 'k :: linorder) \<Rightarrow> 'a list \<Rightarrow> nat \<Rightarrow> 'a list" where
  "up key xs i =
     (if i = 0 then xs
      else let p = (i - 1) div 2
           in if key (xs ! p) < key (xs ! i) then up key (swapped xs p i) p else xs)"
  by pat_completeness auto
termination
  by (relation "measure (\<lambda>(key, xs, i). i)") auto

function down :: "('a \<Rightarrow> 'k :: linorder) \<Rightarrow> 'a list \<Rightarrow> nat \<Rightarrow> 'a list" where
  "down key xs i =
     (case largest_child key xs i of
        None \<Rightarrow> xs
      | Some c \<Rightarrow> if key (xs ! i) < key (xs ! c) then down key (swapped xs i c) c else xs)"
  by pat_completeness auto
termination
  by (relation "measure (\<lambda>(key, xs, i). length xs - i)") (auto dest: largest_child_range)

declare up.simps [simp del] down.simps [simp del]

lemma up_steps:
  "parent i = None \<Longrightarrow> up key xs i = xs"
  "parent i = Some p \<Longrightarrow> up key xs i = (if key (xs ! p) < key (xs ! i) then up key (swapped xs p i) p else xs)"
  by (subst up.simps; auto simp: parent_def Let_def split: if_splits)+

lemma sift_up_step:
  assumes "parent i = Some p" and "i < v_len v" and "Vec_swap v p i = (w, Ok ())"
  shows "sift_up key v i = (if key (vec_list v ! p) < key (vec_list v ! i) then sift_up key w p else (v, Ok ()))"
  using assms by (subst sift_up.simps) simp

lemma sift_down_step:
  assumes "largest_child key (vec_list v) i = Some c" and "Vec_swap v i c = (w, Ok ())"
  shows "sift_down key v i = (if key (vec_list v ! i) < key (vec_list v ! c) then sift_down key w c else (v, Ok ()))"
  using assms by (subst sift_down.simps) simp

lemma sift_up_refines:
  assumes "vec_ready T H v" and "index < v_len v"
  shows "\<exists>v'. sift_up key v index = (v', Ok ()) \<and> vec_ready T H v' \<and> vec_list v' = up key (vec_list v) index"
  using assms
proof (induction index arbitrary: v rule: less_induct)
  case (less i)
  show ?case
  proof (cases "i = 0")
    case True
    then have "parent i = None" by (simp add: parent_def)
    then show ?thesis using less.prems(1) by (simp add: sift_up.simps [of key v i] up_steps(1))
  next
    case False
    define p where "p = (i - 1) div 2"
    have par: "parent i = Some p" using False by (simp add: parent_def p_def)
    have p: "p < i" "p < length (vec_list v)" "i < length (vec_list v)"
      using False less.prems(2) by (auto simp: p_def)
    obtain w where w: "Vec_swap v p i = (w, Ok ())" "vec_ready T H w" "vec_list w = swapped (vec_list v) p i"
      using kv.swap_law [OF less.prems(1) p(2,3)] by (auto simp: swapped_def)
    have "v_len w = v_len v" using v_len_swap [of v p i] w(1) by simp
    then obtain v' where "sift_up key w p = (v', Ok ())" "vec_ready T H v'" "vec_list v' = up key (vec_list w) p"
      using less.IH [OF p(1) w(2)] p(2) by auto
    then show ?thesis
      using w(3) less.prems(1) by (simp add: sift_up_step [OF par less.prems(2) w(1)] up_steps(2) [OF par])
  qed
qed

lemma sift_down_refines:
  assumes "vec_ready T H v" and "index < v_len v"
  shows "\<exists>v'. sift_down key v index = (v', Ok ()) \<and> vec_ready T H v' \<and> vec_list v' = down key (vec_list v) index"
  using assms
proof (induction "v_len v - index" arbitrary: v index rule: less_induct)
  case (less v i)
  show ?case
  proof (cases "largest_child key (vec_list v) i")
    case None
    then show ?thesis using less.prems by (simp add: sift_down.simps [of key v] down.simps [of key "vec_list v"])
  next
    case (Some c)
    have c: "i < c" "c < length (vec_list v)" "i < length (vec_list v)"
      using largest_child_range [OF Some] by auto
    obtain w where w: "Vec_swap v i c = (w, Ok ())" "vec_ready T H w" "vec_list w = swapped (vec_list v) i c"
      using kv.swap_law [OF less.prems(1) c(3,2)] by (auto simp: swapped_def)
    have len: "v_len w = v_len v" using v_len_swap [of v i c] w(1) by simp
    then obtain v' where "sift_down key w c = (v', Ok ())" "vec_ready T H v'" "vec_list v' = down key (vec_list w) c"
      using less.hyps [of w c] w(2) c by (auto simp: diff_less_mono2)
    then show ?thesis
      using Some w(3) less.prems(1) by (simp add: sift_down_step [OF Some w(1)] down.simps [of key "vec_list v" i])
  qed
qed

subsection \<open>The heap order\<close>

definition heap_order :: "('a \<Rightarrow> 'k :: linorder) \<Rightarrow> 'a list \<Rightarrow> bool" where
  "heap_order key xs \<longleftrightarrow> (\<forall>i p. i < length xs \<longrightarrow> parent i = Some p \<longrightarrow> key (xs ! i) \<le> key (xs ! p))"

text \<open>
  The order may be broken between an index and its parent only (on the way up), or between an
  index and its children only (on the way down); the children of the index are in order with
  its parent.
\<close>

definition broken_up :: "('a \<Rightarrow> 'k :: linorder) \<Rightarrow> 'a list \<Rightarrow> nat \<Rightarrow> bool" where
  "broken_up key xs b \<longleftrightarrow>
     (\<forall>i p. i < length xs \<longrightarrow> parent i = Some p \<longrightarrow> i \<noteq> b \<longrightarrow> key (xs ! i) \<le> key (xs ! p)) \<and>
     (\<forall>i g. i < length xs \<longrightarrow> parent i = Some b \<longrightarrow> parent b = Some g \<longrightarrow> key (xs ! i) \<le> key (xs ! g))"

definition broken_down :: "('a \<Rightarrow> 'k :: linorder) \<Rightarrow> 'a list \<Rightarrow> nat \<Rightarrow> bool" where
  "broken_down key xs b \<longleftrightarrow>
     (\<forall>i p. i < length xs \<longrightarrow> parent i = Some p \<longrightarrow> p \<noteq> b \<longrightarrow> key (xs ! i) \<le> key (xs ! p)) \<and>
     (\<forall>i g. i < length xs \<longrightarrow> parent i = Some b \<longrightarrow> parent b = Some g \<longrightarrow> key (xs ! i) \<le> key (xs ! g))"

lemma bh_parent_less: "parent i = Some p \<Longrightarrow> p < i"
  by (auto simp: parent_def split: if_splits)

lemma parent_children: "parent i = Some p \<longleftrightarrow> i = 2 * p + 1 \<or> i = 2 * p + 2"
  by (auto simp: parent_def split: if_splits)

lemma broken_up_swap:
  assumes br: "broken_up key xs b" and p: "parent b = Some p" and b: "b < length xs"
    and lt: "key (xs ! p) < key (xs ! b)"
  shows "broken_up key (swapped xs p b) p"
  unfolding broken_up_def
proof (intro conjI allI impI)
  have pb: "p < b" by (rule bh_parent_less [OF p])
  note nth = nth_swapped [of p xs b, OF less_trans [OF pb b] b]
  have ord: "key (xs ! i) \<le> key (xs ! q)" if "i < length xs" "parent i = Some q" "i \<noteq> b" for i q
    using br that unfolding broken_up_def by blast
  have grand: "key (xs ! i) \<le> key (xs ! p)" if "i < length xs" "parent i = Some b" for i
    using br that p unfolding broken_up_def by blast
  {
    fix i q
    assume i: "i < length (swapped xs p b)" "parent i = Some q" "i \<noteq> p"
    have q: "q < i" by (rule bh_parent_less [OF i(2)])
    show "key (swapped xs p b ! i) \<le> key (swapped xs p b ! q)"
    proof (cases "i = b")
      case True
      then have "q = p" using i(2) p by simp
      then show ?thesis using True b pb lt nth [of b] nth [of p] by simp
    next
      case ib: False
      consider "q = b" | "q = p" | "q \<noteq> b" "q \<noteq> p" by blast
      then show ?thesis
      proof cases
        case 1
        then show ?thesis using i ib q grand [of i] by (simp add: nth)
      next
        case 2
        then have "key (xs ! i) \<le> key (xs ! p)" using ord [of i p] i ib by simp
        then show ?thesis using i ib q 2 lt pb by (simp add: nth)
      next
        case 3
        then show ?thesis using ord [of i q] i ib q by (simp add: nth)
      qed
    qed
  next
    fix i g
    assume i: "i < length (swapped xs p b)" "parent i = Some p" "parent p = Some g"
    have g: "g < p" "p < i" using bh_parent_less i(2,3) by blast+
    have "key (xs ! p) \<le> key (xs ! g)" using ord [of p g] i(3) pb b by simp
    moreover have "i \<noteq> b \<Longrightarrow> key (xs ! i) \<le> key (xs ! p)" using ord [of i p] i by simp
    ultimately show "key (swapped xs p b ! i) \<le> key (swapped xs p b ! g)"
      using i g pb b by (auto simp: nth)
  }
qed

lemma up_heap_order:
  assumes "broken_up key xs i" and "i < length xs"
  shows "heap_order key (up key xs i) \<and> mset (up key xs i) = mset xs"
  using assms
proof (induction i arbitrary: xs rule: less_induct)
  case (less i)
  show ?case
  proof (cases "parent i")
    case None
    then have "heap_order key xs"
      using less.prems(1) unfolding broken_up_def heap_order_def by (metis option.distinct(1))
    then show ?thesis by (simp add: up_steps(1) [OF None])
  next
    case (Some p)
    have p: "p < i" by (rule bh_parent_less [OF Some])
    show ?thesis
    proof (cases "key (xs ! p) < key (xs ! i)")
      case True
      have "broken_up key (swapped xs p i) p" by (rule broken_up_swap [OF less.prems(1) Some less.prems(2) True])
      with less.IH [OF p] p less.prems(2) True show ?thesis by (simp add: up_steps(2) [OF Some])
    next
      case False
      have "heap_order key xs"
        unfolding heap_order_def
      proof (intro allI impI)
        fix j q assume "j < length xs" "parent j = Some q"
        then show "key (xs ! j) \<le> key (xs ! q)"
          using less.prems(1) False Some unfolding broken_up_def by (cases "j = i") auto
      qed
      then show ?thesis using False by (simp add: up_steps(2) [OF Some])
    qed
  qed
qed

lemma largest_child_None: "largest_child key xs i = None \<Longrightarrow> parent j = Some i \<Longrightarrow> j < length xs \<Longrightarrow> False"
  by (auto simp: largest_child_def left_child_def right_child_def Let_def parent_children split: if_splits)

lemma largest_child_Some:
  assumes "largest_child key xs i = Some c"
  shows "parent c = Some i" and "parent j = Some i \<Longrightarrow> j < length xs \<Longrightarrow> key (xs ! j) \<le> key (xs ! c)"
  using assms
  by (auto simp: largest_child_def left_child_def right_child_def Let_def parent_children mult.commute
      not_less split: if_splits)

lemma broken_down_swap:
  assumes br: "broken_down key xs b" and c: "largest_child key xs b = Some c"
    and lt: "key (xs ! b) < key (xs ! c)"
  shows "broken_down key (swapped xs b c) c"
  unfolding broken_down_def
proof (intro conjI allI impI)
  have bc: "b < c" "c < length xs" using largest_child_range [OF c] by auto
  have pc: "parent c = Some b" by (rule largest_child_Some(1) [OF c])
  note nth = nth_swapped [of b xs c, OF less_trans [OF bc] bc(2)]
  have ord: "key (xs ! i) \<le> key (xs ! q)" if "i < length xs" "parent i = Some q" "q \<noteq> b" for i q
    using br that unfolding broken_down_def by blast
  have grand: "key (xs ! i) \<le> key (xs ! g)" if "i < length xs" "parent i = Some b" "parent b = Some g" for i g
    using br that unfolding broken_down_def by blast
  {
    fix i q
    assume i: "i < length (swapped xs b c)" "parent i = Some q" "q \<noteq> c"
    have q: "q < i" by (rule bh_parent_less [OF i(2)])
    show "key (swapped xs b c ! i) \<le> key (swapped xs b c ! q)"
    proof (cases "i = c")
      case True
      then have "q = b" using i(2) pc by simp
      then show ?thesis using True bc lt by (simp add: nth)
    next
      case ic: False
      show ?thesis
      proof (cases "i = b")
        case True
        then show ?thesis using grand [of c q] pc i bc q by (simp add: nth)
      next
        case False
        show ?thesis
        proof (cases "q = b")
          case True
          then show ?thesis using largest_child_Some(2) [OF c, of i] i ic False q by (simp add: nth)
        next
          case qb: False
          then show ?thesis using ord [of i q] i ic False q by (simp add: nth)
        qed
      qed
    qed
  next
    fix i g
    assume i: "i < length (swapped xs b c)" "parent i = Some c" "parent c = Some g"
    have "c < i" using bh_parent_less [OF i(2)] .
    moreover have "g = b" using i(3) pc by simp
    ultimately show "key (swapped xs b c ! i) \<le> key (swapped xs b c ! g)"
      using ord [of i c] i bc by (simp add: nth)
  }
qed

lemma down_heap_order:
  assumes "broken_down key xs i" and "i < length xs"
  shows "heap_order key (down key xs i) \<and> mset (down key xs i) = mset xs"
  using assms
proof (induction key xs i rule: down.induct)
  case (1 key xs i)
  show ?case
  proof (cases "largest_child key xs i")
    case None
    then have "heap_order key xs"
      using "1.prems"(1) largest_child_None [OF None] unfolding broken_down_def heap_order_def by blast
    then show ?thesis by (simp add: down.simps [of key xs] None)
  next
    case (Some c)
    have c: "i < c" "c < length xs" using largest_child_range [OF Some] by auto
    show ?thesis
    proof (cases "key (xs ! i) < key (xs ! c)")
      case True
      have "broken_down key (swapped xs i c) c" by (rule broken_down_swap [OF "1.prems"(1) Some True])
      with "1.IH" [OF Some True] c "1.prems"(2) True show ?thesis by (simp add: down.simps [of key xs] Some)
    next
      case False
      have "heap_order key xs"
        unfolding heap_order_def
      proof (intro allI impI)
        fix j q assume j: "j < length xs" "parent j = Some q"
        show "key (xs ! j) \<le> key (xs ! q)"
        proof (cases "q = i")
          case True
          then show ?thesis using largest_child_Some(2) [OF Some, of j] j False by simp
        next
          case False
          then show ?thesis using "1.prems"(1) j unfolding broken_down_def by blast
        qed
      qed
      then show ?thesis using False by (simp add: down.simps [of key xs] Some)
    qed
  qed
qed

lemma heap_order_top:
  assumes "heap_order key xs" and "i < length xs"
  shows "key (xs ! i) \<le> key (xs ! 0)"
  using assms(2)
proof (induction i rule: less_induct)
  case (less i)
  show ?case
  proof (cases "parent i")
    case None
    then have "i = 0" by (simp add: parent_def split: if_splits)
    then show ?thesis by simp
  next
    case (Some p)
    have "key (xs ! i) \<le> key (xs ! p)" using assms(1) less.prems Some by (auto simp: heap_order_def)
    also have "\<dots> \<le> key (xs ! 0)" using less.IH [of p] bh_parent_less [OF Some] less.prems by simp
    finally show ?thesis .
  qed
qed

subsection \<open>The contract of a priority queue\<close>

locale prio_queue =
  fixes inv :: "'q \<Rightarrow> bool" and bag :: "'q \<Rightarrow> 'a multiset" and key :: "'a \<Rightarrow> 'k :: linorder"
    and push :: "'q \<Rightarrow> 'a \<Rightarrow> 'q \<times> unit kresult" and pop :: "'q \<Rightarrow> 'q \<times> 'a option kresult"
    and peek :: "'q \<Rightarrow> 'a option"
  assumes push_law: "inv q \<Longrightarrow> push q x = (q, Err OutOfMem) \<or>
      (\<exists>q'. push q x = (q', Ok ()) \<and> inv q' \<and> bag q' = add_mset x (bag q))"
    and peek_none: "inv q \<Longrightarrow> peek q = None \<longleftrightarrow> bag q = {#}"
    and peek_max: "inv q \<Longrightarrow> peek q = Some x \<Longrightarrow> x \<in># bag q \<and> (\<forall>y \<in># bag q. key y \<le> key x)"
    and pop_law: "inv q \<Longrightarrow> \<exists>q'. pop q = (q', Ok (peek q)) \<and> inv q' \<and>
      bag q' = (case peek q of None \<Rightarrow> {#} | Some x \<Rightarrow> bag q - {#x#})"
begin

lemma pop_some:
  assumes "inv q" and "peek q = Some x"
  obtains q' where "pop q = (q', Ok (Some x))" "inv q'" "bag q = add_mset x (bag q')"
  using pop_law [OF assms(1)] peek_max [OF assms] assms(2) by auto

text \<open>What is popped later is not larger.\<close>

lemma pops_descend:
  assumes "inv q" and "peek q = Some x" and "pop q = (q', Ok (Some x))" and "peek q' = Some y"
  shows "key y \<le> key x"
proof -
  obtain q'' where q'': "pop q = (q'', Ok (Some x))" "inv q''" "bag q = add_mset x (bag q'')"
    by (rule pop_some [OF assms(1,2)])
  then have "q'' = q'" using assms(3) by simp
  with q'' peek_max [of q' y] assms(4) have "y \<in># bag q" by simp
  with peek_max [OF assms(1,2)] show ?thesis by blast
qed

end

definition bh_ready :: "layout \<Rightarrow> heap_ops \<Rightarrow> ('a \<Rightarrow> 'k :: linorder) \<Rightarrow> 'a BinaryHeap \<Rightarrow> bool" where
  "bh_ready T H key h \<longleftrightarrow> vec_ready T H (bh_data h) \<and> heap_order key (vec_list (bh_data h))"

definition bh_bag :: "'a BinaryHeap \<Rightarrow> 'a multiset" where
  "bh_bag h = mset (vec_list (bh_data h))"

lemma broken_up_append:
  assumes "heap_order key xs"
  shows "broken_up key (xs @ [x]) (length xs)"
  unfolding broken_up_def
proof (intro conjI allI impI)
  fix i p
  assume "i < length (xs @ [x])" "parent i = Some p" "i \<noteq> length xs"
  then show "key ((xs @ [x]) ! i) \<le> key ((xs @ [x]) ! p)"
    using assms bh_parent_less [of i p] by (auto simp: heap_order_def nth_append)
next
  fix i g
  assume "i < length (xs @ [x])" "parent i = Some (length xs)"
  then show "key ((xs @ [x]) ! i) \<le> key ((xs @ [x]) ! g)" using bh_parent_less [of i] by fastforce
qed

lemma broken_down_replace:
  assumes "heap_order key xs" and "2 \<le> length xs"
  shows "broken_down key ((butlast xs)[0 := y]) 0"
  unfolding broken_down_def
proof (intro conjI allI impI)
  fix i p
  assume i: "i < length ((butlast xs)[0 := y])" "parent i = Some p" "p \<noteq> 0"
  have "p < i" by (rule bh_parent_less [OF i(2)])
  then show "key ((butlast xs)[0 := y] ! i) \<le> key ((butlast xs)[0 := y] ! p)"
    using assms(1) i by (auto simp: heap_order_def nth_butlast)
qed (simp add: parent_def)

lemma mset_replace_top:
  assumes "2 \<le> length xs"
  shows "add_mset (xs ! 0) (mset ((butlast xs)[0 := last xs])) = mset xs"
proof -
  have ne: "xs \<noteq> []" and b: "0 < length (butlast xs)" using assms by auto
  have "mset ((butlast xs)[0 := last xs]) = add_mset (last xs) (mset (butlast xs) - {#butlast xs ! 0#})"
    using b by (rule mset_update)
  moreover have "butlast xs ! 0 = xs ! 0" using b by (simp add: nth_butlast)
  moreover have "xs ! 0 \<in># mset (butlast xs)" using b nth_mem [OF b] by (simp add: nth_butlast)
  moreover have "mset xs = add_mset (last xs) (mset (butlast xs))"
    using arg_cong [OF append_butlast_last_id [OF ne], of mset] by simp
  ultimately show ?thesis by simp
qed

lemma bh_push_law:
  assumes "bh_ready T H key h"
  shows "bh_push T H key h x = (h, Err OutOfMem) \<or>
    (\<exists>h'. bh_push T H key h x = (h', Ok ()) \<and> bh_ready T H key h' \<and> bh_bag h' = add_mset x (bh_bag h))"
proof -
  let ?xs = "vec_list (bh_data h)"
  have rdy: "vec_ready T H (bh_data h)" and ho: "heap_order key ?xs" using assms by (simp_all add: bh_ready_def)
  from kv.push_law [OF rdy, of x]
  consider "Vec_push T H (bh_data h) x = (bh_data h, Err OutOfMem)"
    | v where "Vec_push T H (bh_data h) x = (v, Ok ())" "vec_ready T H v" "vec_list v = ?xs @ [x]" by blast
  then show ?thesis
  proof cases
    case 1
    then show ?thesis by (simp add: bh_push_def)
  next
    case (2 v)
    have len: "v_len v = Suc (length ?xs)" using arg_cong [OF 2(3), of length] by simp
    obtain v' where v': "sift_up key v (length ?xs) = (v', Ok ())" "vec_ready T H v'"
      "vec_list v' = up key (?xs @ [x]) (length ?xs)"
      using sift_up_refines [OF 2(2), of "length ?xs" key] len 2(3) by auto
    have "heap_order key (vec_list v') \<and> mset (vec_list v') = mset (?xs @ [x])"
      unfolding v'(3) by (intro up_heap_order broken_up_append ho) simp
    then show ?thesis
      using 2(1) v' len by (simp add: bh_push_def bh_ready_def bh_bag_def)
  qed
qed

lemma bh_peek_eq: "bh_peek h = (if vec_list (bh_data h) = [] then None else Some (vec_list (bh_data h) ! 0))"
  by (simp add: bh_peek_def Vec_get_def elems_empty_iff)

lemma bh_pop_law:
  assumes "bh_ready T H key h"
  shows "\<exists>h'. bh_pop key h = (h', Ok (bh_peek h)) \<and> bh_ready T H key h' \<and>
    bh_bag h' = (case bh_peek h of None \<Rightarrow> {#} | Some x \<Rightarrow> bh_bag h - {#x#})"
proof -
  let ?xs = "vec_list (bh_data h)"
  have rdy: "vec_ready T H (bh_data h)" and ho: "heap_order key ?xs" using assms by (simp_all add: bh_ready_def)
  obtain v where v: "Vec_pop (bh_data h) = (v, Ok (if ?xs = [] then None else Some (last ?xs)))"
    "vec_ready T H v" "vec_list v = butlast ?xs" using kv.pop_law [OF rdy] by blast
  have len: "v_len v = length ?xs - 1" using arg_cong [OF v(3), of length] by simp
  consider "?xs = []" | a where "?xs = [a]" | "2 \<le> length ?xs" by (cases ?xs; cases "tl ?xs") auto
  then show ?thesis
  proof cases
    case 1
    then show ?thesis
      using v elems_empty_iff [of v] by (simp add: bh_pop_def bh_peek_eq bh_ready_def bh_bag_def heap_order_def)
  next
    case (2 a)
    then show ?thesis
      using v len by (simp add: bh_pop_def bh_peek_eq bh_ready_def bh_bag_def heap_order_def)
  next
    case 3
    have ne: "?xs \<noteq> []" using 3 by (auto simp: elems_empty_iff)
    have "0 < length (vec_list v)" using 3 v(3) by simp
    from kv.replace_law [OF v(2) this, of "last ?xs"]
    obtain w where w: "Vec_replace v 0 (last ?xs) = (w, Ok (vec_list v ! 0))" "vec_ready T H w"
      "vec_list w = (butlast ?xs)[0 := last ?xs]" using v(3) by auto
    have top: "vec_list v ! 0 = ?xs ! 0" using 3 v(3) by (simp add: nth_butlast)
    have wlen: "0 < v_len w" using arg_cong [OF w(3), of length] 3 by simp
    obtain v' where v': "sift_down key w 0 = (v', Ok ())" "vec_ready T H v'" "vec_list v' = down key (vec_list w) 0"
      using sift_down_refines [OF w(2) wlen, of key] by blast
    have "heap_order key (vec_list v') \<and> mset (vec_list v') = mset (vec_list w)"
      unfolding v'(3) using broken_down_replace [OF ho 3] 3 by (intro down_heap_order) (simp_all add: w(3))
    moreover have "mset (vec_list w) = mset ?xs - {#?xs ! 0#}" using mset_replace_top [OF 3] w(3) by (metis add_mset_remove_trivial)
    ultimately show ?thesis
      using v(1) w(1) v'(1,2) len 3 ne top by (simp add: bh_pop_def bh_peek_eq bh_ready_def bh_bag_def)
  qed
qed

interpretation bh: prio_queue "bh_ready T H key" bh_bag key "bh_push T H key" "bh_pop key" bh_peek
  for T H and key :: "'a \<Rightarrow> 'k :: linorder"
proof
  fix h :: "'a BinaryHeap" and x
  assume inv: "bh_ready T H key h"
  show "bh_push T H key h x = (h, Err OutOfMem) \<or>
      (\<exists>h'. bh_push T H key h x = (h', Ok ()) \<and> bh_ready T H key h' \<and> bh_bag h' = add_mset x (bh_bag h))"
    by (rule bh_push_law [OF inv])
  show "bh_peek h = None \<longleftrightarrow> bh_bag h = {#}" by (simp add: bh_peek_eq bh_bag_def)
  show "x \<in># bh_bag h \<and> (\<forall>y \<in># bh_bag h. key y \<le> key x)" if "bh_peek h = Some x"
    using that inv heap_order_top [of key "vec_list (bh_data h)"] nth_mem [of 0 "vec_list (bh_data h)"]
    by (auto simp: bh_peek_eq bh_bag_def bh_ready_def elems_empty_iff in_set_conv_nth split: if_splits)
  show "\<exists>h'. bh_pop key h = (h', Ok (bh_peek h)) \<and> bh_ready T H key h' \<and>
      bh_bag h' = (case bh_peek h of None \<Rightarrow> {#} | Some x \<Rightarrow> bh_bag h - {#x#})"
    by (rule bh_pop_law [OF inv])
qed

lemma bh_new_ready:
  "elem_ok T \<Longrightarrow> l_size T \<noteq> 0 \<Longrightarrow> heap_ok H \<Longrightarrow> bh_ready T H key (bh_new T) \<and> bh_bag (bh_new T) = {#}"
  by (simp add: bh_ready_def bh_new_def bh_bag_def Vec_new_ready heap_order_def)

subsection \<open>Properties\<close>

text \<open>
  C20. The binary heap implements a priority queue on the multiset of its elements: pushing
  adds an element (or fails without effect), popping returns and removes an element with the
  largest key, and both loops restore the heap order.
\<close>

theorem binary_heap_refines_bag:
  assumes "bh_ready T H key h"
  shows "(bh_push T H key h x = (h, Err OutOfMem) \<or>
      (\<exists>h'. bh_push T H key h x = (h', Ok ()) \<and> bh_ready T H key h' \<and> bh_bag h' = add_mset x (bh_bag h))) \<and>
    (if bh_bag h = {#} then \<exists>h'. bh_pop key h = (h', Ok None) \<and> bh_ready T H key h' \<and> bh_bag h' = {#}
     else \<exists>h' m. bh_pop key h = (h', Ok (Some m)) \<and> bh_ready T H key h' \<and> bh_bag h = add_mset m (bh_bag h') \<and>
       (\<forall>y \<in># bh_bag h. key y \<le> key m))"
proof
  show "bh_push T H key h x = (h, Err OutOfMem) \<or>
      (\<exists>h'. bh_push T H key h x = (h', Ok ()) \<and> bh_ready T H key h' \<and> bh_bag h' = add_mset x (bh_bag h))"
    by (rule bh_push_law [OF assms])
  show "if bh_bag h = {#} then \<exists>h'. bh_pop key h = (h', Ok None) \<and> bh_ready T H key h' \<and> bh_bag h' = {#}
     else \<exists>h' m. bh_pop key h = (h', Ok (Some m)) \<and> bh_ready T H key h' \<and> bh_bag h = add_mset m (bh_bag h') \<and>
       (\<forall>y \<in># bh_bag h. key y \<le> key m)"
  proof (cases "bh_peek h")
    case None
    then show ?thesis using bh.peek_none [OF assms] bh.pop_law [OF assms] by auto
  next
    case (Some m)
    obtain h' where "bh_pop key h = (h', Ok (Some m))" "bh_ready T H key h'" "bh_bag h = add_mset m (bh_bag h')"
      by (rule bh.pop_some [OF assms Some])
    then show ?thesis using bh.peek_max [OF assms Some] by auto
  qed
qed

theorem binary_heap_refines_bag_witness:
  "\<exists>h'. bh_pop id (\<lparr>bh_data = one_elem_vec\<rparr>) = (h', Ok (Some 7)) \<and> bh_bag h' = {#}"
proof -
  have "bh_ready u64_layout small_heap id \<lparr>bh_data = one_elem_vec\<rparr>"
    by (simp add: bh_ready_def vec_ready_def Vec_inv_def buffer_ok_def elem_ok_def one_elem_vec_def small_heap_ok
        heap_order_def vec_list_def parent_def)
  moreover have "bh_bag \<lparr>bh_data = one_elem_vec\<rparr> = {#7#}"
    by (simp add: bh_bag_def one_elem_vec_def vec_list_def)
  ultimately show ?thesis using binary_heap_refines_bag [of u64_layout small_heap id "\<lparr>bh_data = one_elem_vec\<rparr>"] by auto
qed

end
