(* ===== verification/Scheduler.thy ===== *)
theory Scheduler
  imports Thread_State Binary_Heap
begin

text \<open>
  The scheduler, \<^verbatim>\<open>kernel/src/sched\<close>: the threads with their status words (\<^verbatim>\<open>thread.rs\<close>), the
  list of ready threads (\<^verbatim>\<open>thread_map.rs\<close>), the queue of timeouts (\<^verbatim>\<open>timeout_queue.rs\<close>), and the
  switch of threads in its two halves, before and after the change of stacks (\<^verbatim>\<open>mod.rs\<close>).

  A thread is named by a number.  \<open>sc_threads\<close> maps it to the thread as long as its memory is
  owned; upgrading a weak reference fails afterwards.  The processors are numbered too; each
  has a current thread, the data left for the second half of a switch, and a stack pointer
  (\<open>sc_cpu_rsp\<close>, with the value that the switch pushed aside in \<open>sc_old_rsp\<close>).  Time is an
  argument of the operations that read the clock.  The kernel heap is the parameter \<open>H\<close>.
\<close>

subsection \<open>Data\<close>

type_synonym tid = nat

type_synonym cpu = nat

datatype 'p WakeReason =
    WakeNone | Timeout | MsgSend usize | MsgRecv 'p | EventPoolEventRecieved usize usize | EventRecieved 'p

record 'p Thread =
  t_status :: usize
  t_wake_reason :: "'p WakeReason"
  t_is_alive :: bool
  t_rsp :: usize
  t_stack_top :: usize
  t_thread_local_pointer :: usize

record ThreadRef =
  tr_thread :: tid
  tr_generation :: usize

record ThreadTimeout =
  timeout_nsec :: nat
  tt_thread :: ThreadRef

text \<open>\<open>Reverse\<close>: the earliest timeout is the largest element of the heap.\<close>

definition timeout_key :: "ThreadTimeout \<Rightarrow> int" where
  "timeout_key x = - int (timeout_nsec x)"

datatype PostSwitchAction = PostNone | InsertReadyQueue | SetTimeout nat

record PostSwitchData =
  ps_old_thread :: tid
  ps_action :: PostSwitchAction
  ps_send_eoi :: bool

datatype ThreadSwitchToError = NoAvailableThreads

record 'p sched =
  sc_threads :: "tid \<Rightarrow> 'p Thread option"
  sc_ready :: "tid Vec"
  sc_timeouts :: "ThreadTimeout BinaryHeap"
  sc_current :: "cpu \<Rightarrow> tid"
  sc_post :: "cpu \<Rightarrow> PostSwitchData option"
  sc_last_switch :: "cpu \<Rightarrow> nat"
  sc_syscall_rsp :: "cpu \<Rightarrow> usize"
  sc_fs_base :: "cpu \<Rightarrow> usize"
  sc_cpu_rsp :: "cpu \<Rightarrow> usize"
  sc_old_rsp :: "cpu \<Rightarrow> usize"

abbreviation timeout_layout :: layout where
  "timeout_layout \<equiv> \<lparr>l_size = 24, l_align = 8\<rparr>"

definition SCHED_TIME :: nat where
  "SCHED_TIME = 10000000"

subsection \<open>Threads\<close>

definition Thread_new :: "usize \<Rightarrow> usize \<Rightarrow> 'p Thread" where
  "Thread_new stack_top rsp =
     \<lparr>t_status = to_status Suspended 0, t_wake_reason = WakeNone, t_is_alive = True, t_rsp = rsp,
      t_stack_top = stack_top, t_thread_local_pointer = 0\<rparr>"

abbreviation t_state :: "'p Thread \<Rightarrow> ThreadState" where
  "t_state th \<equiv> ThreadState_from_usize (t_status th)"

definition upd_thread :: "'p sched \<Rightarrow> tid \<Rightarrow> ('p Thread \<Rightarrow> 'p Thread) \<Rightarrow> 'p sched" where
  "upd_thread s t f = s\<lparr>sc_threads := (sc_threads s)(t := map_option f (sc_threads s t))\<rparr>"

text \<open>\<open>set_state\<close> is called on threads that are owned.\<close>

definition set_state :: "'p sched \<Rightarrow> tid \<Rightarrow> ThreadState \<Rightarrow> 'p sched kresult" where
  "set_state s t st =
     rbind (expect (sc_threads s t)) (\<lambda>th.
     rbind (next_status st (t_status th)) (\<lambda>n.
     Ok (upd_thread s t (\<lambda>th. th\<lparr>t_status := n\<rparr>))))"

definition transition_state ::
  "'p sched \<Rightarrow> tid \<Rightarrow> ThreadState \<Rightarrow> ThreadState \<Rightarrow> ('p sched \<times> bool) kresult" where
  "transition_state s t old_state new_state =
     rbind (expect (sc_threads s t)) (\<lambda>th.
     if old_state \<noteq> t_state th then Ok (s, False)
     else
       rbind (next_status new_state (t_status th)) (\<lambda>n.
       Ok (upd_thread s t (\<lambda>th. th\<lparr>t_status := n\<rparr>), True)))"

definition set_dead :: "'p sched \<Rightarrow> tid \<Rightarrow> 'p sched" where
  "set_dead s t = upd_thread s t (\<lambda>th. th\<lparr>t_is_alive := False\<rparr>)"

definition set_wake_reason :: "'p sched \<Rightarrow> tid \<Rightarrow> 'p WakeReason \<Rightarrow> 'p sched" where
  "set_wake_reason s t reason = upd_thread s t (\<lambda>th. th\<lparr>t_wake_reason := reason\<rparr>)"

definition is_alive :: "'p sched \<Rightarrow> tid \<Rightarrow> bool" where
  "is_alive s t = (case sc_threads s t of Some th \<Rightarrow> t_is_alive th | None \<Rightarrow> False)"

subsection \<open>The ready list\<close>

definition insert_ready_thread :: "heap_ops \<Rightarrow> 'p sched \<Rightarrow> tid \<Rightarrow> 'p sched \<times> unit kresult" where
  "insert_ready_thread H s t =
     (case Vec_push u64_layout H (sc_ready s) t of (v, r) \<Rightarrow> (s\<lparr>sc_ready := v\<rparr>, r))"

lemma pop_front_shrinks: "Vec_pop_front v = (v', Ok (Some x)) \<Longrightarrow> v_len v' < v_len v"
  by (auto simp: Vec_pop_front_def Vec_try_remove_def Let_def split: if_splits kresult.splits)

text \<open>The loop of \<open>get_next_thread\<close>: threads that are gone or dead are left out.\<close>

function pick_thread :: "(tid \<Rightarrow> 'p Thread option) \<Rightarrow> tid Vec \<Rightarrow> tid Vec \<times> tid option kresult" where
  "pick_thread threads v =
     (case Vec_pop_front v of
        (v', Ok None) \<Rightarrow> (v', Ok None)
      | (v', Ok (Some t)) \<Rightarrow>
          (case threads t of
             None \<Rightarrow> pick_thread threads v'
           | Some th \<Rightarrow> if \<not> t_is_alive th then pick_thread threads v' else (v', Ok (Some t)))
      | (v', _) \<Rightarrow> (v', Panic))"
  by pat_completeness auto
termination
  by (relation "measure (\<lambda>(threads, v). v_len v)") (auto dest: pop_front_shrinks [OF sym])

declare pick_thread.simps [simp del]

definition get_next_thread :: "'p sched \<Rightarrow> 'p sched \<times> tid option kresult" where
  "get_next_thread s = (case pick_thread (sc_threads s) (sc_ready s) of (v, r) \<Rightarrow> (s\<lparr>sc_ready := v\<rparr>, r))"

definition resume_suspended_thread :: "heap_ops \<Rightarrow> 'p sched \<Rightarrow> tid \<Rightarrow> 'p sched kresult" where
  "resume_suspended_thread H s t =
     rbind (transition_state s t Suspended Ready) (\<lambda>(s', changed).
     if changed then
       (case insert_ready_thread H s' t of (s'', Ok _) \<Rightarrow> Ok s'' | _ \<Rightarrow> Panic)
     else Err InvlOp)"

text \<open>The removal from the thread group is not part of the state of the scheduler.\<close>

definition destroy_suspended_thread :: "'p sched \<Rightarrow> tid \<Rightarrow> 'p sched kresult" where
  "destroy_suspended_thread s t =
     rbind (transition_state s t Suspended Dead) (\<lambda>(s', changed). if changed then Ok s' else Err InvlOp)"

text \<open>The end of \<open>create_thread\<close>: the new thread enters the scheduler.\<close>

datatype ThreadStartMode = StartReady | StartSuspended

definition start_thread :: "heap_ops \<Rightarrow> 'p sched \<Rightarrow> tid \<Rightarrow> ThreadStartMode \<Rightarrow> 'p sched kresult" where
  "start_thread H s t start_mode =
     (case start_mode of
        StartReady \<Rightarrow>
          rbind (set_state s t Ready) (\<lambda>s1.
          case insert_ready_thread H s1 t of (s2, r) \<Rightarrow> rbind r (\<lambda>_. Ok s2))
      | StartSuspended \<Rightarrow> set_state s t Suspended)"

subsection \<open>References to suspended threads\<close>

definition ThreadRef_new :: "'p sched \<Rightarrow> tid \<Rightarrow> ThreadRef kresult" where
  "ThreadRef_new s t =
     rbind (expect (sc_threads s t)) (\<lambda>th.
     rbind (assert_r (t_state th = Suspended)) (\<lambda>_.
     Ok \<lparr>tr_thread = t, tr_generation = t_status th\<rparr>))"

definition future_ref :: "'p sched \<Rightarrow> tid \<Rightarrow> ThreadRef kresult" where
  "future_ref s t =
     rbind (expect (sc_threads s t)) (\<lambda>th.
     rbind (next_status Suspended (t_status th)) (\<lambda>n.
     Ok \<lparr>tr_thread = t, tr_generation = n\<rparr>))"

text \<open>
  The compare-and-exchange loop.  It spins as long as the thread is in an older generation than
  the reference: \<open>None\<close> says that it does not return before the thread changes its status.
\<close>

definition get_thread_as_ready :: "'p sched \<Rightarrow> ThreadRef \<Rightarrow> ('p sched \<times> tid option) kresult option" where
  "get_thread_as_ready s r =
     (case sc_threads s (tr_thread r) of
        None \<Rightarrow> Some (Ok (s, None))
      | Some th \<Rightarrow>
          (case next_status Ready (tr_generation r) of
             Ok n \<Rightarrow>
               if t_status th = tr_generation r
               then Some (Ok (upd_thread s (tr_thread r) (\<lambda>th. th\<lparr>t_status := n\<rparr>), Some (tr_thread r)))
               else if generation_bits (tr_generation r) \<le> generation_bits (t_status th)
               then Some (Ok (s, None))
               else None
           | _ \<Rightarrow> Some Panic))"

definition move_to_ready_list ::
  "heap_ops \<Rightarrow> 'p sched \<Rightarrow> ThreadRef \<Rightarrow> 'p WakeReason \<Rightarrow> ('p sched \<times> bool) kresult option" where
  "move_to_ready_list H s r reason =
     map_option
       (\<lambda>res. rbind res (\<lambda>(s', thread).
          case thread of
            None \<Rightarrow> Ok (s', False)
          | Some t \<Rightarrow>
              (case insert_ready_thread H (set_wake_reason s' t reason) t of
                 (s'', Ok _) \<Rightarrow> Ok (s'', True)
               | _ \<Rightarrow> Panic)))
       (get_thread_as_ready s r)"

subsection \<open>Timeouts\<close>

definition insert_thread :: "heap_ops \<Rightarrow> 'p sched \<Rightarrow> ThreadRef \<Rightarrow> nat \<Rightarrow> 'p sched \<times> unit kresult" where
  "insert_thread H s thread nsec =
     (case bh_push timeout_layout H timeout_key (sc_timeouts s) \<lparr>timeout_nsec = nsec, tt_thread = thread\<rparr> of
        (q, r) \<Rightarrow> (s\<lparr>sc_timeouts := q\<rparr>, r))"

lemma sift_down_len: "v_len (fst (sift_down key v i)) = v_len v"
proof (induction key v i rule: sift_down.induct)
  case (1 key v index)
  have "v_len w = v_len v" if "Vec_swap v index c = (w, r)" for c w r
    using v_len_swap [of v index c] that by simp
  with 1 show ?case by (subst sift_down.simps) (auto split: option.splits prod.splits kresult.splits)
qed

lemma bh_pop_shrinks:
  assumes run: "bh_pop key h = (h', Ok (Some x))"
  shows "bh_len h' < bh_len h"
proof -
  obtain v r where pop: "Vec_pop (bh_data h) = (v, r)" by fastforce
  with run obtain y where r: "r = Ok (Some y)"
    by (auto simp: bh_pop_def split: kresult.splits option.splits)
  have len: "v_len v < v_len (bh_data h)"
    using pop r by (auto simp: Vec_pop_def Let_def split: if_splits)
  obtain w rw where w: "Vec_replace v 0 y = (w, rw)" by fastforce
  obtain u ru where u: "sift_down key w 0 = (u, ru)" by fastforce
  have "v_len w = v_len v" using w by (auto simp: Vec_replace_def split: kresult.splits if_splits)
  moreover have "v_len u = v_len w" using sift_down_len [of key w 0] u by simp
  moreover have "bh_data h' = v \<or> bh_data h' = u"
    using run pop r w u by (auto simp: bh_pop_def split: if_splits kresult.splits)
  ultimately show ?thesis using len by (auto simp: bh_len_def)
qed

lemma ready_list_frame:
  "sc_timeouts (fst (insert_ready_thread H s t)) = sc_timeouts s"
  "sc_timeouts (upd_thread s t f) = sc_timeouts s"
  by (simp_all add: insert_ready_thread_def upd_thread_def split: prod.splits)

lemma move_keeps_timeouts:
  assumes "move_to_ready_list H s r w = Some (Ok (s', b))"
  shows "sc_timeouts s' = sc_timeouts s"
proof -
  obtain s1 th where g: "get_thread_as_ready s r = Some (Ok (s1, th))"
    and rest: "(case th of None \<Rightarrow> Ok (s1, False)
      | Some t \<Rightarrow> (case insert_ready_thread H (set_wake_reason s1 t w) t of (s'', Ok _) \<Rightarrow> Ok (s'', True) | _ \<Rightarrow> Panic)) = Ok (s', b)"
    using assms by (auto simp: move_to_ready_list_def res_simps)
  have "sc_timeouts s1 = sc_timeouts s"
    using g by (auto simp: get_thread_as_ready_def ready_list_frame split: option.splits kresult.splits if_splits)
  moreover have "sc_timeouts s' = sc_timeouts s1"
  proof (cases th)
    case (Some t)
    obtain s2 r2 where i: "insert_ready_thread H (set_wake_reason s1 t w) t = (s2, r2)" by fastforce
    have "sc_timeouts s2 = sc_timeouts s1"
      using ready_list_frame(1) [of H "set_wake_reason s1 t w" t] unfolding i fst_conv
      by (simp add: set_wake_reason_def ready_list_frame(2))
    with rest Some i show ?thesis by (auto split: kresult.splits)
  qed (use rest in simp)
  ultimately show ?thesis by simp
qed

function wake_threads :: "heap_ops \<Rightarrow> 'p sched \<Rightarrow> nat \<Rightarrow> 'p sched kresult option" where
  "wake_threads H s current_nsec =
     (case bh_peek (sc_timeouts s) of
        None \<Rightarrow> Some (Ok s)
      | Some next_thread \<Rightarrow>
          if timeout_nsec next_thread \<le> current_nsec then
            (case bh_pop timeout_key (sc_timeouts s) of
               (q, Ok (Some x)) \<Rightarrow>
                 (case move_to_ready_list H (s\<lparr>sc_timeouts := q\<rparr>) (tt_thread x) Timeout of
                    Some (Ok (s', _)) \<Rightarrow> wake_threads H s' current_nsec
                  | Some _ \<Rightarrow> Some Panic
                  | None \<Rightarrow> None)
             | _ \<Rightarrow> Some Panic)
          else Some (Ok s))"
  by pat_completeness auto
termination
  by (relation "measure (\<lambda>(H, s, n). bh_len (sc_timeouts s))")
    (auto dest!: move_keeps_timeouts bh_pop_shrinks [OF sym])

declare wake_threads.simps [simp del]

subsection \<open>Switching threads\<close>

text \<open>
  The first half, up to the change of the stack pointer: the value saved by the assembly code is
  left in \<open>sc_old_rsp\<close> for the second half.  Threads that were found dead on the way are gone
  from the ready list even when there is no thread to switch to.
\<close>

definition switch_current_thread_to ::
  "'p sched \<Rightarrow> cpu \<Rightarrow> ThreadState \<Rightarrow> PostSwitchAction \<Rightarrow> bool \<Rightarrow> nat \<Rightarrow> 'p sched \<times> (ThreadSwitchToError + unit) kresult" where
  "switch_current_thread_to s c st post_switch_hook send_eoi now =
     (if st = Running then (s, Panic)
      else
        (case get_next_thread s of
           (s1, Ok None) \<Rightarrow> (s1, Ok (Inl NoAvailableThreads))
         | (s1, Ok (Some new_thread)) \<Rightarrow>
             let old_thread = sc_current s1 c
             in (case rbind (set_state s1 old_thread st) (\<lambda>s2. set_state s2 new_thread Running) of
                   Ok s3 \<Rightarrow>
                     (case sc_threads s3 new_thread of
                        Some th \<Rightarrow>
                          (s3\<lparr>sc_fs_base := (sc_fs_base s3)(c := t_thread_local_pointer th),
                              sc_syscall_rsp := (sc_syscall_rsp s3)(c := t_stack_top th),
                              sc_current := (sc_current s3)(c := new_thread),
                              sc_post := (sc_post s3)(c \<mapsto> \<lparr>ps_old_thread = old_thread,
                                 ps_action = post_switch_hook, ps_send_eoi = send_eoi\<rparr>),
                              sc_last_switch := (sc_last_switch s3)(c := now),
                              sc_old_rsp := (sc_old_rsp s3)(c := sc_cpu_rsp s3 c),
                              sc_cpu_rsp := (sc_cpu_rsp s3)(c := t_rsp th)\<rparr>, Ok (Inr ()))
                      | None \<Rightarrow> (s3, Panic))
                 | _ \<Rightarrow> (s1, Panic))
         | (s1, _) \<Rightarrow> (s1, Panic)))"

definition post_switch_handler :: "heap_ops \<Rightarrow> 'p sched \<Rightarrow> cpu \<Rightarrow> 'p sched kresult" where
  "post_switch_handler H s c =
     rbind (expect (sc_post s c)) (\<lambda>data.
     let t = ps_old_thread data;
         s1 = upd_thread (s\<lparr>sc_post := (sc_post s)(c := None)\<rparr>) t (\<lambda>th. th\<lparr>t_rsp := sc_old_rsp s c\<rparr>)
     in (case ps_action data of
           PostNone \<Rightarrow> Ok s1
         | InsertReadyQueue \<Rightarrow>
             (case insert_ready_thread H s1 t of (s2, Ok _) \<Rightarrow> Ok s2 | _ \<Rightarrow> Panic)
         | SetTimeout nsec \<Rightarrow>
             rbind (ThreadRef_new s1 t) (\<lambda>r.
             case insert_thread H s1 r nsec of (s2, Ok _) \<Rightarrow> Ok s2 | _ \<Rightarrow> Panic)))"

text \<open>Both halves, as the processor runs them when nothing comes between.\<close>

definition switch_fully ::
  "heap_ops \<Rightarrow> 'p sched \<Rightarrow> cpu \<Rightarrow> ThreadState \<Rightarrow> PostSwitchAction \<Rightarrow> bool \<Rightarrow> nat \<Rightarrow> 'p sched \<times> (ThreadSwitchToError + unit) kresult" where
  "switch_fully H s c st post_switch_hook send_eoi now =
     (case switch_current_thread_to s c st post_switch_hook send_eoi now of
        (s1, Ok (Inr u)) \<Rightarrow> (case post_switch_handler H s1 c of Ok s2 \<Rightarrow> (s2, Ok (Inr u)) | _ \<Rightarrow> (s1, Panic))
      | (s1, r) \<Rightarrow> (s1, r))"

definition timer_handler :: "heap_ops \<Rightarrow> 'p sched \<Rightarrow> cpu \<Rightarrow> nat \<Rightarrow> 'p sched kresult option" where
  "timer_handler H s c current_nsec =
     map_option
       (\<lambda>res. rbind res (\<lambda>s1.
          rbind (usub current_nsec (sc_last_switch s c)) (\<lambda>elapsed.
          if SCHED_TIME < elapsed then
            (case switch_current_thread_to s1 c Ready InsertReadyQueue True current_nsec of
               (s2, Panic) \<Rightarrow> Panic
             | (s2, _) \<Rightarrow> Ok s2)
          else Ok s1)))
       (wake_threads H s current_nsec)"

definition exit_handler :: "'p sched \<Rightarrow> cpu \<Rightarrow> nat \<Rightarrow> 'p sched kresult" where
  "exit_handler s c now =
     (if is_alive s (sc_current s c) then Ok s
      else
        (case switch_current_thread_to s c Dead PostNone True now of
           (s1, Ok (Inr _)) \<Rightarrow> Ok s1
         | _ \<Rightarrow> Panic))"

subsection \<open>System calls\<close>

definition thread_yield :: "'p sched \<Rightarrow> cpu \<Rightarrow> nat \<Rightarrow> 'p sched kresult" where
  "thread_yield s c now =
     (case switch_current_thread_to s c Ready InsertReadyQueue False now of
        (s1, Ok (Inr _)) \<Rightarrow> Ok s1
      | _ \<Rightarrow> Panic)"

text \<open>\<open>thread_suspend\<close> up to the switch, and its result once the thread runs again.\<close>

definition thread_suspend :: "'p sched \<Rightarrow> cpu \<Rightarrow> nat option \<Rightarrow> nat \<Rightarrow> 'p sched kresult" where
  "thread_suspend s c timeout now =
     (case switch_current_thread_to s c Suspended
        (case timeout of Some nsec \<Rightarrow> SetTimeout nsec | None \<Rightarrow> PostNone) False now of
        (s1, Ok (Inr _)) \<Rightarrow> Ok s1
      | _ \<Rightarrow> Panic)"

definition thread_suspend_result :: "'p sched \<Rightarrow> cpu \<Rightarrow> nat option \<Rightarrow> unit kresult" where
  "thread_suspend_result s c timeout =
     (case timeout of
        None \<Rightarrow> Ok ()
      | Some _ \<Rightarrow>
          rbind (expect (sc_threads s (sc_current s c))) (\<lambda>th.
          case t_wake_reason th of Timeout \<Rightarrow> Err OkTimeout | _ \<Rightarrow> Ok ()))"

text \<open>Destroying the current thread, or another one that the capability \<open>t\<close> names.\<close>

definition thread_destroy :: "'p sched \<Rightarrow> cpu \<Rightarrow> tid option \<Rightarrow> nat \<Rightarrow> 'p sched kresult" where
  "thread_destroy s c other now =
     (case other of
        Some t \<Rightarrow> destroy_suspended_thread s t
      | None \<Rightarrow>
          (case switch_current_thread_to s c Dead PostNone False now of
             (s1, Ok (Inr _)) \<Rightarrow> Ok s1
           | _ \<Rightarrow> Panic))"

definition thread_set_property :: "'p sched \<Rightarrow> cpu \<Rightarrow> usize \<Rightarrow> 'p sched" where
  "thread_set_property s c data =
     (let s1 = upd_thread s (sc_current s c) (\<lambda>th. th\<lparr>t_thread_local_pointer := data\<rparr>)
      in s1\<lparr>sc_fs_base := (sc_fs_base s1)(c := data)\<rparr>)"

subsection \<open>Steps\<close>

text \<open>
  What can happen, one step at a time, on \<open>n\<close> processors.  A processor finishes a switch before
  it begins another one.  The references that wake threads are made by \<open>ThreadRef_new\<close> and
  \<open>future_ref\<close>, both for a suspended thread.  The memory of a thread is released when nothing
  owns it any more (the current threads and the data of a switch are owners), and its number is
  not used again while a weak reference to it is left.
\<close>

datatype 'p sched_event =
    EvSwitch cpu ThreadState PostSwitchAction bool nat
  | EvPost cpu
  | EvResume tid
  | EvDestroy tid
  | EvWake ThreadRef "'p WakeReason"
  | EvTimer nat
  | EvKill tid
  | EvRun cpu usize
  | EvCreate tid ThreadStartMode usize usize
  | EvRelease tid

definition switch_kind :: "ThreadState \<Rightarrow> PostSwitchAction \<Rightarrow> bool" where
  "switch_kind st a = (case a of InsertReadyQueue \<Rightarrow> st = Ready | SetTimeout _ \<Rightarrow> st = Suspended
     | PostNone \<Rightarrow> st = Suspended \<or> st = Dead)"

definition owned_by_cpus :: "nat \<Rightarrow> 'p sched \<Rightarrow> tid \<Rightarrow> bool" where
  "owned_by_cpus n s t \<longleftrightarrow>
     (\<exists>c < n. sc_current s c = t \<or> (\<exists>d. sc_post s c = Some d \<and> ps_old_thread d = t))"

definition weakly_referenced :: "'p sched \<Rightarrow> tid \<Rightarrow> bool" where
  "weakly_referenced s t \<longleftrightarrow>
     t \<in> set (vec_list (sc_ready s)) \<or> (\<exists>x \<in># bh_bag (sc_timeouts s). tr_thread (tt_thread x) = t)"

inductive sched_step :: "heap_ops \<Rightarrow> nat \<Rightarrow> 'p sched \<Rightarrow> 'p sched_event \<Rightarrow> 'p sched \<Rightarrow> bool" for H n where
  switch: "c < n \<Longrightarrow> sc_post s c = None \<Longrightarrow> switch_kind st a \<Longrightarrow>
    switch_current_thread_to s c st a eoi now = (s', Ok r) \<Longrightarrow> sched_step H n s (EvSwitch c st a eoi now) s'"
| post: "c < n \<Longrightarrow> post_switch_handler H s c = Ok s' \<Longrightarrow> sched_step H n s (EvPost c) s'"
| resume: "resume_suspended_thread H s t = Ok s' \<Longrightarrow> sched_step H n s (EvResume t) s'"
| destroy: "destroy_suspended_thread s t = Ok s' \<Longrightarrow> sched_step H n s (EvDestroy t) s'"
| wake: "ThreadState_from_usize (tr_generation r) = Suspended \<Longrightarrow> tr_generation r < usize_limit \<Longrightarrow>
    move_to_ready_list H s r w = Some (Ok (s', b)) \<Longrightarrow> sched_step H n s (EvWake r w) s'"
| timer: "wake_threads H s now = Some (Ok s') \<Longrightarrow> sched_step H n s (EvTimer now) s'"
| kill: "sched_step H n s (EvKill t) (set_dead s t)"
| run: "c < n \<Longrightarrow> sc_post s c = None \<Longrightarrow> sched_step H n s (EvRun c rsp) (s\<lparr>sc_cpu_rsp := (sc_cpu_rsp s)(c := rsp)\<rparr>)"
| create: "sc_threads s t = None \<Longrightarrow> \<not> weakly_referenced s t \<Longrightarrow> \<not> owned_by_cpus n s t \<Longrightarrow>
    start_thread H (s\<lparr>sc_threads := (sc_threads s)(t \<mapsto> Thread_new stack_top rsp)\<rparr>) t mode = Ok s' \<Longrightarrow>
    sched_step H n s (EvCreate t mode stack_top rsp) s'"
| release: "\<not> owned_by_cpus n s t \<Longrightarrow> sched_step H n s (EvRelease t) (s\<lparr>sc_threads := (sc_threads s)(t := None)\<rparr>)"

inductive_cases sched_stepE: "sched_step H n s e s'"

inductive sched_steps :: "heap_ops \<Rightarrow> nat \<Rightarrow> 'p sched \<Rightarrow> 'p sched_event list \<Rightarrow> 'p sched \<Rightarrow> bool" for H n where
  none: "sched_steps H n s [] s"
| more: "sched_step H n s e s1 \<Longrightarrow> sched_steps H n s1 es s' \<Longrightarrow> sched_steps H n s (e # es) s'"

inductive_simps sched_steps_simps [simp]: "sched_steps H n s [] s'" "sched_steps H n s (e # es) s'"

end
