(* ===== verification/Sched_Invariant.thy ===== *)
theory Sched_Invariant
  imports Scheduler
begin

text \<open>
  The invariant of the scheduler on any number of processors, and what follows from it.  The
  invariant is stated on a view of the state: the status words \<open>S\<close>, the ready list \<open>R\<close>, the
  current threads \<open>C\<close> and the pending switches \<open>P\<close>.  The \<open>core\<close> lemmas are about the view, the
  lemmas after them lift each operation of the code to it.
\<close>

subsection \<open>The view and its invariant\<close>

type_synonym status_map = "tid \<Rightarrow> usize option"

definition in_state :: "status_map \<Rightarrow> tid \<Rightarrow> ThreadState \<Rightarrow> bool" where
  "in_state S t st \<longleftrightarrow> (\<exists>m. S t = Some m \<and> ThreadState_from_usize m = st)"

definition pending_ready :: "(cpu \<Rightarrow> PostSwitchData option) \<Rightarrow> cpu \<Rightarrow> tid \<Rightarrow> bool" where
  "pending_ready P c t \<longleftrightarrow> (\<exists>d. P c = Some d \<and> ps_old_thread d = t \<and> ps_action d = InsertReadyQueue)"

definition core_inv ::
  "nat \<Rightarrow> status_map \<Rightarrow> tid list \<Rightarrow> (cpu \<Rightarrow> tid) \<Rightarrow> (cpu \<Rightarrow> PostSwitchData option) \<Rightarrow> bool" where
  "core_inv n S R C P \<longleftrightarrow>
     (\<forall>t m. S t = Some m \<longrightarrow> m < usize_limit) \<and>
     (\<forall>c < n. in_state S (C c) Running) \<and>
     inj_on C {..<n} \<and>
     distinct (filter (\<lambda>t. S t \<noteq> None) R) \<and>
     (\<forall>t \<in> set R. S t \<noteq> None \<longrightarrow> in_state S t Ready) \<and>
     (\<forall>c < n. \<forall>d. P c = Some d \<longrightarrow> S (ps_old_thread d) \<noteq> None) \<and>
     (\<forall>c < n. \<forall>t. pending_ready P c t \<longrightarrow> in_state S t Ready \<and> t \<notin> set R) \<and>
     (\<forall>c < n. \<forall>d < n. \<forall>t. pending_ready P c t \<longrightarrow> pending_ready P d t \<longrightarrow> c = d)"

lemma in_state_unique: "in_state S t a \<Longrightarrow> in_state S t b \<Longrightarrow> a = b"
  by (auto simp: in_state_def)

lemma in_state_upd [simp]:
  "in_state (S(t := x)) u st \<longleftrightarrow>
    (if u = t then (\<exists>m. x = Some m \<and> ThreadState_from_usize m = st) else in_state S u st)"
  by (simp add: in_state_def)

lemma core_invD:
  assumes "core_inv n S R C P"
  shows "S t = Some m \<Longrightarrow> m < usize_limit" and "c < n \<Longrightarrow> in_state S (C c) Running"
    and "inj_on C {..<n}" and "distinct (filter (\<lambda>t. S t \<noteq> None) R)"
    and "t \<in> set R \<Longrightarrow> S t \<noteq> None \<Longrightarrow> in_state S t Ready"
    and "c < n \<Longrightarrow> P c = Some d \<Longrightarrow> S (ps_old_thread d) \<noteq> None"
    and "c < n \<Longrightarrow> pending_ready P c t \<Longrightarrow> in_state S t Ready"
    and "c < n \<Longrightarrow> pending_ready P c t \<Longrightarrow> t \<notin> set R"
    and "c < n \<Longrightarrow> e < n \<Longrightarrow> pending_ready P c t \<Longrightarrow> pending_ready P e t \<Longrightarrow> c = e"
  using assms unfolding core_inv_def by blast+

lemma core_not_ready:
  assumes "core_inv n S R C P" and "in_state S t st" and "st \<noteq> Ready"
  shows "t \<notin> set R" and "c < n \<Longrightarrow> \<not> pending_ready P c t"
proof -
  have live: "S t \<noteq> None" using assms(2) by (auto simp: in_state_def)
  show "t \<notin> set R" using core_invD(5) [OF assms(1) _ live] in_state_unique [OF assms(2)] assms(3) by blast
  show "\<not> pending_ready P c t" if "c < n"
    using core_invD(7) [OF assms(1) that] in_state_unique [OF assms(2)] assms(3) by blast
qed

text \<open>A suspended thread becomes ready and enters the list.\<close>

lemma core_make_ready:
  assumes inv: "core_inv n S R C P" and t: "in_state S t Suspended"
    and m: "ThreadState_from_usize m = Ready" "m < usize_limit"
  shows "core_inv n (S(t \<mapsto> m)) (R @ [t]) C P"
proof -
  note nr = core_not_ready [OF inv t]
  have cur: "C c \<noteq> t" if "c < n" for c using core_invD(2) [OF inv that] in_state_unique [OF t] by auto
  have "filter (\<lambda>u. (S(t \<mapsto> m)) u \<noteq> None) R = filter (\<lambda>u. S u \<noteq> None) R"
    using nr(1) by (intro filter_cong) auto
  then have "distinct (filter (\<lambda>u. (S(t \<mapsto> m)) u \<noteq> None) (R @ [t]))"
    using core_invD(4) [OF inv] nr(1) by simp
  then show ?thesis
    using inv nr cur m unfolding core_inv_def by (auto split: if_splits)
qed

text \<open>A suspended thread stays suspended or dies.\<close>

lemma core_set_idle:
  assumes inv: "core_inv n S R C P" and t: "in_state S t Suspended"
    and m: "ThreadState_from_usize m \<in> {Suspended, Dead}" "m < usize_limit"
  shows "core_inv n (S(t \<mapsto> m)) R C P"
proof -
  note nr = core_not_ready [OF inv t]
  have cur: "C c \<noteq> t" if "c < n" for c using core_invD(2) [OF inv that] in_state_unique [OF t] by auto
  have "filter (\<lambda>u. (S(t \<mapsto> m)) u \<noteq> None) R = filter (\<lambda>u. S u \<noteq> None) R"
    using nr(1) by (intro filter_cong) auto
  then show ?thesis
    using inv nr cur m unfolding core_inv_def by (auto split: if_splits)
qed

text \<open>The end of the ready list, with only threads that are gone or dead in front of it.\<close>

lemma core_suffix:
  assumes inv: "core_inv n S (pre @ R) C P"
  shows "core_inv n S R C P"
  using inv unfolding core_inv_def by (auto simp del: not_None_eq)

text \<open>The first half of a switch: the thread in front runs, the old one leaves its state.\<close>

lemma core_switch:
  assumes inv: "core_inv n S (t # R) C P" and c: "c < n" and idle: "P c = None"
    and t: "S t \<noteq> None" and kind: "switch_kind st a"
    and m: "ThreadState_from_usize m = st" "m < usize_limit"
    and m': "ThreadState_from_usize m' = Running" "m' < usize_limit"
    and d: "ps_old_thread d = C c" "ps_action d = a"
  shows "core_inv n (S(C c \<mapsto> m, t \<mapsto> m')) R (C(c := t)) (P(c \<mapsto> d))"
proof -
  let ?old = "C c" and ?S = "S(C c \<mapsto> m, t \<mapsto> m')"
  have tr: "in_state S t Ready" using core_invD(5) [OF inv _ t] by simp
  have old: "in_state S ?old Running" by (rule core_invD(2) [OF inv c])
  have ne: "t \<noteq> ?old" using in_state_unique [OF tr] old by auto
  note oldr = core_not_ready [OF inv old]
  have tR: "t \<notin> set R" using core_invD(4) [OF inv] t by auto
  have cur: "C e \<noteq> t" if "e < n" for e using core_invD(2) [OF inv that] in_state_unique [OF tr] by auto
  have cur': "C e \<noteq> ?old" if "e < n" "e \<noteq> c" for e
    using core_invD(3) [OF inv] that c by (auto simp: inj_on_def)
  have pend: "u \<noteq> t" "u \<noteq> ?old" if "e < n" "pending_ready P e u" for e u
    using core_invD(8) [OF inv that] oldr(2) [OF _ that(1)] that(2) by auto
  have "filter (\<lambda>u. ?S u \<noteq> None) R = filter (\<lambda>u. S u \<noteq> None) R"
    using t old by (intro filter_cong) (auto simp: in_state_def)
  then have dist: "distinct (filter (\<lambda>u. ?S u \<noteq> None) R)" using core_invD(4) [OF inv] t by simp
  have P': "pending_ready (P(c \<mapsto> d)) e u \<longleftrightarrow> (if e = c then u = ?old \<and> a = InsertReadyQueue else pending_ready P e u)"
    for e u using d by (auto simp: pending_ready_def)
  have rdy: "a = InsertReadyQueue \<Longrightarrow> st = Ready" using kind by (simp add: switch_kind_def)
  show ?thesis
    unfolding core_inv_def
  proof (intro conjI allI impI ballI)
    show "?S u = Some k \<Longrightarrow> k < usize_limit" for u k
      using core_invD(1) [OF inv] m(2) m'(2) by (auto split: if_splits)
    show "e < n \<Longrightarrow> in_state ?S ((C(c := t)) e) Running" for e
      using core_invD(2) [OF inv, of e] cur cur' m' by auto
    show "inj_on (C(c := t)) {..<n}"
      using core_invD(3) [OF inv] cur c by (auto simp: inj_on_def)
    show "distinct (filter (\<lambda>u. ?S u \<noteq> None) R)" by (rule dist)
    show "u \<in> set R \<Longrightarrow> ?S u \<noteq> None \<Longrightarrow> in_state ?S u Ready" for u
      using core_invD(5) [OF inv, of u] tR oldr(1) by (auto split: if_splits)
    show "e < n \<Longrightarrow> (P(c \<mapsto> d)) e = Some k \<Longrightarrow> ?S (ps_old_thread k) \<noteq> None" for e k
      using core_invD(6) [OF inv, of e k] d by (auto split: if_splits)
    show "e < n \<Longrightarrow> pending_ready (P(c \<mapsto> d)) e u \<Longrightarrow> in_state ?S u Ready" for e u
      using core_invD(7) [OF inv, of e u] pend [of e u] P' m(1) rdy ne by (auto split: if_splits)
    show "e < n \<Longrightarrow> pending_ready (P(c \<mapsto> d)) e u \<Longrightarrow> u \<notin> set R" for e u
      using core_invD(8) [OF inv, of e u] P' oldr(1) by (auto split: if_splits)
    show "e < n \<Longrightarrow> f < n \<Longrightarrow> pending_ready (P(c \<mapsto> d)) e u \<Longrightarrow> pending_ready (P(c \<mapsto> d)) f u \<Longrightarrow> e = f" for e f u
      using core_invD(9) [OF inv, of e f u] pend(2) P' by (auto split: if_splits)
  qed
qed

text \<open>The second half: the old thread enters the ready list, or nothing changes.\<close>

lemma core_post_ready:
  assumes inv: "core_inv n S R C P" and c: "c < n" and d: "P c = Some d" "ps_action d = InsertReadyQueue"
  shows "core_inv n S (R @ [ps_old_thread d]) C (P(c := None))"
proof -
  have p: "pending_ready P c (ps_old_thread d)" using d by (simp add: pending_ready_def)
  note r = core_invD(7,8) [OF inv c p]
  have P': "pending_ready (P(c := None)) e u \<longleftrightarrow> e \<noteq> c \<and> pending_ready P e u" for e u
    by (simp add: pending_ready_def)
  have "u \<noteq> ps_old_thread d" if "e < n" "e \<noteq> c" "pending_ready P e u" for e u
    using core_invD(9) [OF inv c that(1) p] that by auto
  then show ?thesis
    using inv r unfolding core_inv_def P' by (auto split: if_splits)
qed

lemma core_post_other:
  assumes inv: "core_inv n S R C P"
  shows "core_inv n S R C (P(c := None))"
proof -
  have P': "pending_ready (P(c := None)) e u \<longleftrightarrow> e \<noteq> c \<and> pending_ready P e u" for e u
    by (simp add: pending_ready_def)
  show ?thesis using inv unfolding core_inv_def P' by auto
qed

text \<open>A new thread, and one whose memory is released.\<close>

lemma core_create:
  assumes inv: "core_inv n S R C P" and t: "S t = None" "t \<notin> set R"
    and m: "ThreadState_from_usize m = Suspended" "m < usize_limit"
  shows "core_inv n (S(t \<mapsto> m)) R C P"
proof -
  have "filter (\<lambda>u. (S(t \<mapsto> m)) u \<noteq> None) R = filter (\<lambda>u. S u \<noteq> None) R"
    using t(2) by (intro filter_cong) auto
  moreover have ns: "in_state S u st \<Longrightarrow> u \<noteq> t" for u st using t(1) by (auto simp: in_state_def)
  moreover have "C c \<noteq> t" if "c < n" for c by (rule ns [OF core_invD(2) [OF inv that]])
  moreover have "u \<noteq> t" if "c < n" "pending_ready P c u" for c u by (rule ns [OF core_invD(7) [OF inv that]])
  ultimately show ?thesis
    using inv t m unfolding core_inv_def by (auto split: if_splits)
qed

lemma core_release:
  assumes inv: "core_inv n S R C P" and t: "\<And>c. c < n \<Longrightarrow> C c \<noteq> t"
    and p: "\<And>c d. c < n \<Longrightarrow> P c = Some d \<Longrightarrow> ps_old_thread d \<noteq> t"
  shows "core_inv n (S(t := None)) R C P"
proof -
  have "filter (\<lambda>u. (S(t := None)) u \<noteq> None) R = filter (\<lambda>u. u \<noteq> t) (filter (\<lambda>u. S u \<noteq> None) R)"
    unfolding filter_filter by (intro filter_cong) auto
  then have "distinct (filter (\<lambda>u. (S(t := None)) u \<noteq> None) R)"
    using distinct_filter [OF core_invD(4) [OF inv], of "\<lambda>u. u \<noteq> t"] by (simp only:)
  moreover have "pending_ready P c u \<Longrightarrow> c < n \<Longrightarrow> u \<noteq> t" for c u using p by (auto simp: pending_ready_def)
  ultimately show ?thesis
    using inv t p unfolding core_inv_def by (auto split: if_splits)
qed

subsection \<open>The operations on the view\<close>

definition statuses :: "'p sched \<Rightarrow> status_map" where
  "statuses s t = map_option t_status (sc_threads s t)"

abbreviation ready_list :: "'p sched \<Rightarrow> tid list" where
  "ready_list s \<equiv> vec_list (sc_ready s)"

definition ref_ok :: "ThreadRef \<Rightarrow> bool" where
  "ref_ok r \<longleftrightarrow> tr_generation r < usize_limit \<and> ThreadState_from_usize (tr_generation r) = Suspended"

definition queues_ok :: "heap_ops \<Rightarrow> 'p sched \<Rightarrow> bool" where
  "queues_ok H s \<longleftrightarrow> vec_ready u64_layout H (sc_ready s) \<and>
     bh_ready timeout_layout H timeout_key (sc_timeouts s) \<and> (\<forall>x \<in># bh_bag (sc_timeouts s). ref_ok (tt_thread x))"

definition sched_inv :: "heap_ops \<Rightarrow> nat \<Rightarrow> 'p sched \<Rightarrow> bool" where
  "sched_inv H n s \<longleftrightarrow> queues_ok H s \<and> core_inv n (statuses s) (ready_list s) (sc_current s) (sc_post s)"

lemma statuses_None [simp]: "statuses s t = None \<longleftrightarrow> sc_threads s t = None"
  by (simp add: statuses_def)

lemma statuses_simps [simp]:
  "statuses (s\<lparr>sc_ready := v\<rparr>) = statuses s" "statuses (s\<lparr>sc_timeouts := q\<rparr>) = statuses s"
  "statuses (s\<lparr>sc_current := C\<rparr>) = statuses s" "statuses (s\<lparr>sc_post := P\<rparr>) = statuses s"
  "statuses (s\<lparr>sc_last_switch := l\<rparr>) = statuses s" "statuses (s\<lparr>sc_syscall_rsp := l\<rparr>) = statuses s"
  "statuses (s\<lparr>sc_fs_base := l\<rparr>) = statuses s" "statuses (s\<lparr>sc_cpu_rsp := l\<rparr>) = statuses s"
  "statuses (s\<lparr>sc_old_rsp := l\<rparr>) = statuses s"
  by (simp_all add: statuses_def fun_eq_iff)

lemma upd_thread_frame [simp]:
  "sc_ready (upd_thread s t f) = sc_ready s" "sc_timeouts (upd_thread s t f) = sc_timeouts s"
  "sc_current (upd_thread s t f) = sc_current s" "sc_post (upd_thread s t f) = sc_post s"
  "sc_old_rsp (upd_thread s t f) = sc_old_rsp s" "sc_cpu_rsp (upd_thread s t f) = sc_cpu_rsp s"
  "sc_threads (upd_thread s t f) u = (if u = t then map_option f (sc_threads s t) else sc_threads s u)"
  by (simp_all add: upd_thread_def)

text \<open>An update that leaves the status word alone, and one that replaces it.\<close>

lemma statuses_keep: "(\<And>th. t_status (f th) = t_status th) \<Longrightarrow> statuses (upd_thread s t f) = statuses s"
  by (auto simp: statuses_def fun_eq_iff option.map_comp comp_def intro: option.map_cong)

lemma statuses_set:
  "sc_threads s t \<noteq> None \<Longrightarrow> statuses (upd_thread s t (\<lambda>th. th\<lparr>t_status := m\<rparr>)) = (statuses s)(t \<mapsto> m)"
  by (auto simp: statuses_def fun_eq_iff)

lemma set_stateE:
  assumes "set_state s t st = Ok s'"
  obtains th m where "sc_threads s t = Some th" "next_status st (t_status th) = Ok m"
    "s' = upd_thread s t (\<lambda>th. th\<lparr>t_status := m\<rparr>)" "statuses s' = (statuses s)(t \<mapsto> m)"
  using assms statuses_set [of s t] by (auto simp: set_state_def res_simps)

lemma transition_stateE:
  assumes "transition_state s t old new = Ok (s', b)"
  obtains (no) "s' = s" "\<not> b"
    | (yes) th m where "b" "sc_threads s t = Some th" "t_state th = old" "next_status new (t_status th) = Ok m"
        "s' = upd_thread s t (\<lambda>th. th\<lparr>t_status := m\<rparr>)" "statuses s' = (statuses s)(t \<mapsto> m)"
  using assms statuses_set [of s t] by (auto simp: transition_state_def res_simps split: if_splits)

lemma insert_ready_ok:
  assumes q: "queues_ok H s" and run: "insert_ready_thread H s t = (s', Ok r)"
  shows "queues_ok H s'" "ready_list s' = ready_list s @ [t]" "s' = s\<lparr>sc_ready := sc_ready s'\<rparr>"
proof -
  have rdy: "vec_ready u64_layout H (sc_ready s)" using q by (simp add: queues_ok_def)
  obtain v where v: "Vec_push u64_layout H (sc_ready s) t = (v, Ok ())" "s' = s\<lparr>sc_ready := v\<rparr>"
    using run by (auto simp: insert_ready_thread_def split: prod.splits)
  have "vec_ready u64_layout H v" "vec_list v = ready_list s @ [t]"
    using kv.push_law [OF rdy, of t] v(1) by auto
  with v(2) q show "queues_ok H s'" "ready_list s' = ready_list s @ [t]" "s' = s\<lparr>sc_ready := sc_ready s'\<rparr>"
    by (simp_all add: queues_ok_def)
qed

lemma insert_ready_result:
  assumes "queues_ok H s"
  shows "\<exists>s'. insert_ready_thread H s t = (s', Ok ()) \<or> insert_ready_thread H s t = (s, Err OutOfMem)"
proof -
  have "vec_ready u64_layout H (sc_ready s)" using assms by (simp add: queues_ok_def)
  from kv.push_law [OF this, of t] show ?thesis by (auto simp: insert_ready_thread_def)
qed

lemma queues_ok_frame:
  "sc_ready s' = sc_ready s \<Longrightarrow> sc_timeouts s' = sc_timeouts s \<Longrightarrow> queues_ok H s' \<longleftrightarrow> queues_ok H s"
  by (simp add: queues_ok_def)

lemma sched_inv_frame:
  assumes "sched_inv H n s" and "sc_ready s' = sc_ready s" "sc_timeouts s' = sc_timeouts s" "statuses s' = statuses s"
    "sc_current s' = sc_current s" "sc_post s' = sc_post s"
  shows "sched_inv H n s'"
  using assms by (simp add: sched_inv_def queues_ok_def)

text \<open>Choosing the next thread: the first of the list that is alive.\<close>

lemma pick_thread_spec:
  assumes "vec_ready u64_layout H v"
  shows "\<exists>v' r. pick_thread threads v = (v', Ok r) \<and> vec_ready u64_layout H v' \<and>
    (case r of
       None \<Rightarrow> vec_list v' = [] \<and> (\<forall>t \<in> set (vec_list v). \<forall>th. threads t = Some th \<longrightarrow> \<not> t_is_alive th)
     | Some t \<Rightarrow> \<exists>pre. vec_list v = pre @ t # vec_list v' \<and> (\<exists>th. threads t = Some th \<and> t_is_alive th) \<and>
         (\<forall>u \<in> set pre. \<forall>th. threads u = Some th \<longrightarrow> \<not> t_is_alive th))"
  using assms
proof (induction threads v rule: pick_thread.induct)
  case (1 threads v)
  show ?case
  proof (cases "vec_list v")
    case Nil
    then have "Vec_pop_front v = (v, Ok None)"
      using kv.remove_out [OF "1.prems", of 0] by (simp add: Vec_pop_front_def)
    then show ?thesis using "1.prems" Nil by (subst pick_thread.simps) simp
  next
    case (Cons t ts)
    then obtain w where w: "Vec_pop_front v = (w, Ok (Some t))" "vec_ready u64_layout H w" "vec_list w = ts"
      using kv.remove_law [OF "1.prems", of 0] by (auto simp: Vec_pop_front_def vec_remove_def)
    let ?dead = "\<lambda>u. \<forall>th. threads u = Some th \<longrightarrow> \<not> t_is_alive th"
    show ?thesis
    proof (cases "?dead t")
      case False
      then show ?thesis using w Cons by (subst pick_thread.simps) (auto split: option.splits)
    next
      case True
      have step: "pick_thread threads v = pick_thread threads w"
        using w(1) True by (subst pick_thread.simps) (auto split: option.splits)
      have "\<exists>v' r. pick_thread threads w = (v', Ok r) \<and> vec_ready u64_layout H v' \<and>
        (case r of
           None \<Rightarrow> vec_list v' = [] \<and> (\<forall>t \<in> set (vec_list w). ?dead t)
         | Some t \<Rightarrow> \<exists>pre. vec_list w = pre @ t # vec_list v' \<and> (\<exists>th. threads t = Some th \<and> t_is_alive th) \<and>
             (\<forall>u \<in> set pre. ?dead u))"
        using True by (cases "threads t") (use "1.IH"(1) [OF w(1) [symmetric]] "1.IH"(2) [OF w(1) [symmetric]] w(2) in auto)
      then obtain v' r where v': "pick_thread threads w = (v', Ok r)" "vec_ready u64_layout H v'"
        "case r of
           None \<Rightarrow> vec_list v' = [] \<and> (\<forall>t \<in> set (vec_list w). ?dead t)
         | Some t \<Rightarrow> \<exists>pre. vec_list w = pre @ t # vec_list v' \<and> (\<exists>th. threads t = Some th \<and> t_is_alive th) \<and>
             (\<forall>u \<in> set pre. ?dead u)" by blast
      show ?thesis
      proof (cases r)
        case None
        then show ?thesis using v' True Cons w(3) step by (intro exI [of _ v'] exI [of _ None]) simp
      next
        case (Some u)
        then obtain pre where "ts = pre @ u # vec_list v'" "\<exists>th. threads u = Some th \<and> t_is_alive th" "\<forall>u \<in> set pre. ?dead u"
          using v'(3) w(3) by auto
        then show ?thesis
          using v'(1,2) True Cons step Some
          by (intro exI [of _ v'] exI [of _ "Some u"]) (auto intro!: exI [of _ "t # pre"])
      qed
    qed
  qed
qed

subsection \<open>Every step keeps the invariant\<close>

lemma get_next_threadE:
  assumes inv: "sched_inv H n s"
  obtains (none) v where "get_next_thread s = (s\<lparr>sc_ready := v\<rparr>, Ok None)" "sched_inv H n (s\<lparr>sc_ready := v\<rparr>)"
    | (some) v t pre where "get_next_thread s = (s\<lparr>sc_ready := v\<rparr>, Ok (Some t))" "queues_ok H (s\<lparr>sc_ready := v\<rparr>)"
        "ready_list s = pre @ t # vec_list v" "sc_threads s t \<noteq> None" "is_alive s t"
        "\<forall>u \<in> set pre. \<not> is_alive s u"
proof -
  have rdy: "vec_ready u64_layout H (sc_ready s)" using inv by (simp add: sched_inv_def queues_ok_def)
  obtain v r where v: "pick_thread (sc_threads s) (sc_ready s) = (v, Ok r)" "vec_ready u64_layout H v"
    "case r of
       None \<Rightarrow> vec_list v = [] \<and> (\<forall>t \<in> set (ready_list s). \<forall>th. sc_threads s t = Some th \<longrightarrow> \<not> t_is_alive th)
     | Some t \<Rightarrow> \<exists>pre. ready_list s = pre @ t # vec_list v \<and> (\<exists>th. sc_threads s t = Some th \<and> t_is_alive th) \<and>
         (\<forall>u \<in> set pre. \<forall>th. sc_threads s u = Some th \<longrightarrow> \<not> t_is_alive th)"
    using pick_thread_spec [OF rdy, of "sc_threads s"] by blast
  have run: "get_next_thread s = (s\<lparr>sc_ready := v\<rparr>, Ok r)" using v(1) by (simp add: get_next_thread_def)
  have q: "queues_ok H (s\<lparr>sc_ready := v\<rparr>)" using inv v(2) by (simp add: sched_inv_def queues_ok_def)
  show ?thesis
  proof (cases r)
    case None
    have "core_inv n (statuses s) (ready_list s @ []) (sc_current s) (sc_post s)" using inv by (simp add: sched_inv_def)
    from core_suffix [OF this] have "sched_inv H n (s\<lparr>sc_ready := v\<rparr>)"
      using q v(3) None by (simp add: sched_inv_def)
    with run None show ?thesis by (intro none) simp_all
  next
    case (Some t)
    then obtain pre th where "ready_list s = pre @ t # vec_list v" "sc_threads s t = Some th" "t_is_alive th"
      "\<forall>u \<in> set pre. \<forall>th. sc_threads s u = Some th \<longrightarrow> \<not> t_is_alive th" using v(3) by auto
    then show ?thesis
      using run q Some by (intro some [of v t pre]) (auto simp: is_alive_def split: option.splits)
  qed
qed

lemma switch_inv:
  assumes inv: "sched_inv H n s" and c: "c < n" and idle: "sc_post s c = None" and kind: "switch_kind st a"
    and run: "switch_current_thread_to s c st a eoi now = (s', Ok r)"
  shows "sched_inv H n s'"
proof -
  have st: "st \<noteq> Running" using kind by (auto simp: switch_kind_def split: PostSwitchAction.splits)
  show ?thesis
  proof (cases rule: get_next_threadE [OF inv])
    case (1 v)
    then show ?thesis using run st by (auto simp: switch_current_thread_to_def)
  next
    case (2 v t pre)
    let ?s1 = "s\<lparr>sc_ready := v\<rparr>" and ?old = "sc_current s c"
    from run st 2(1) obtain s2 s3 th where s2: "set_state ?s1 ?old st = Ok s2" and s3: "set_state s2 t Running = Ok s3"
      and th: "sc_threads s3 t = Some th"
      and s': "s' = s3\<lparr>sc_fs_base := (sc_fs_base s3)(c := t_thread_local_pointer th),
                    sc_syscall_rsp := (sc_syscall_rsp s3)(c := t_stack_top th),
                    sc_current := (sc_current s3)(c := t),
                    sc_post := (sc_post s3)(c \<mapsto> \<lparr>ps_old_thread = ?old, ps_action = a, ps_send_eoi = eoi\<rparr>),
                    sc_last_switch := (sc_last_switch s3)(c := now),
                    sc_old_rsp := (sc_old_rsp s3)(c := sc_cpu_rsp s3 c),
                    sc_cpu_rsp := (sc_cpu_rsp s3)(c := t_rsp th)\<rparr>"
      by (auto simp: switch_current_thread_to_def Let_def res_simps split: kresult.splits option.splits if_splits)
    obtain th1 m where m: "sc_threads ?s1 ?old = Some th1" "next_status st (t_status th1) = Ok m"
      "s2 = upd_thread ?s1 ?old (\<lambda>th. th\<lparr>t_status := m\<rparr>)" "statuses s2 = (statuses s)(?old \<mapsto> m)"
      by (rule set_stateE [OF s2]) simp
    obtain th2 m' where m': "sc_threads s2 t = Some th2" "next_status Running (t_status th2) = Ok m'"
      "s3 = upd_thread s2 t (\<lambda>th. th\<lparr>t_status := m'\<rparr>)" "statuses s3 = (statuses s)(?old \<mapsto> m, t \<mapsto> m')"
      by (rule set_stateE [OF s3]) (simp add: m(4))
    have core: "core_inv n (statuses s) (t # vec_list v) (sc_current s) (sc_post s)"
      using inv core_suffix [of n "statuses s" pre] 2(3) by (simp add: sched_inv_def)
    have lim: "t_status th1 < usize_limit" using core_invD(1) [OF core, of ?old] m(1) by (simp add: statuses_def)
    note nm = next_statusE [OF m(2) lim]
    have "statuses s2 t = Some (t_status th2)" using m'(1) by (simp add: statuses_def)
    then have lim': "t_status th2 < usize_limit"
      using core_invD(1) [OF core, of t] nm(2) by (auto simp: m(4) split: if_splits)
    note nm' = next_statusE [OF m'(2) lim']
    have "core_inv n (statuses s') (vec_list v) ((sc_current s)(c := t))
        ((sc_post s)(c \<mapsto> \<lparr>ps_old_thread = ?old, ps_action = a, ps_send_eoi = eoi\<rparr>))"
      using core_switch [OF core c idle _ kind nm(3,2) nm'(3,2)] 2(4) by (simp add: s' m'(4))
    then show ?thesis using 2(2) by (simp add: sched_inv_def s' m'(3) m(3) queues_ok_def)
  qed
qed

lemma make_ready_inv:
  assumes inv: "sched_inv H n s" and th: "sc_threads s t = Some th" "t_state th = Suspended"
    and m: "next_status Ready (t_status th) = Ok m" and f: "\<And>x. t_status (f x) = t_status x"
    and run: "insert_ready_thread H (upd_thread (upd_thread s t (\<lambda>x. x\<lparr>t_status := m\<rparr>)) t f) t = (s', Ok r)"
  shows "sched_inv H n s'"
proof -
  let ?s = "upd_thread (upd_thread s t (\<lambda>x. x\<lparr>t_status := m\<rparr>)) t f"
  have q: "queues_ok H ?s" and core: "core_inv n (statuses s) (ready_list s) (sc_current s) (sc_post s)"
    using inv by (simp_all add: sched_inv_def queues_ok_def)
  note i = insert_ready_ok [OF q run]
  have "t_status th < usize_limit" using core_invD(1) [OF core, of t] th(1) by (simp add: statuses_def)
  note nm = next_statusE [OF m this]
  have "in_state (statuses s) t Suspended" using th by (simp add: in_state_def statuses_def)
  from core_make_ready [OF core this nm(3,2)]
  have "core_inv n ((statuses s)(t \<mapsto> m)) (ready_list s @ [t]) (sc_current s) (sc_post s)" .
  moreover have "statuses ?s = (statuses s)(t \<mapsto> m)" using statuses_keep [OF f] statuses_set [of s t m] th(1) by simp
  moreover have "statuses s' = statuses ?s" "sc_current s' = sc_current s" "sc_post s' = sc_post s"
    by (subst i(3), simp)+
  ultimately show ?thesis using i(1,2) by (simp add: sched_inv_def)
qed

lemma make_ready_inv':
  assumes "sched_inv H n s" and "sc_threads s t = Some th" "t_state th = Suspended"
    and "next_status Ready (t_status th) = Ok m"
    and "insert_ready_thread H (upd_thread s t (\<lambda>x. x\<lparr>t_status := m\<rparr>)) t = (s', Ok r)"
  shows "sched_inv H n s'"
proof -
  have "upd_thread (upd_thread s t g) t (\<lambda>x. x) = upd_thread s t g" for g
    by (simp add: upd_thread_def option.map_ident)
  with make_ready_inv [OF assms(1-4), of "\<lambda>x. x"] assms(5) show ?thesis by simp
qed

lemma move_inv:
  assumes inv: "sched_inv H n s" and r: "ref_ok r" and run: "move_to_ready_list H s r w = Some (Ok (s', b))"
  shows "sched_inv H n s'"
proof -
  obtain s1 x where g: "get_thread_as_ready s r = Some (Ok (s1, x))"
    and rest: "(case x of None \<Rightarrow> Ok (s1, False)
      | Some t \<Rightarrow> (case insert_ready_thread H (set_wake_reason s1 t w) t of (s'', Ok _) \<Rightarrow> Ok (s'', True) | _ \<Rightarrow> Panic)) = Ok (s', b)"
    using run by (auto simp: move_to_ready_list_def res_simps)
  show ?thesis
  proof (cases x)
    case None
    with g rest inv show ?thesis
      by (auto simp: get_thread_as_ready_def split: option.splits kresult.splits if_splits)
  next
    case (Some t)
    with g obtain th m where th: "t = tr_thread r" "sc_threads s t = Some th" "t_status th = tr_generation r"
      "next_status Ready (tr_generation r) = Ok m" "s1 = upd_thread s t (\<lambda>th. th\<lparr>t_status := m\<rparr>)"
      by (auto simp: get_thread_as_ready_def split: option.splits kresult.splits if_splits)
    obtain u where u: "insert_ready_thread H (set_wake_reason s1 t w) t = (s', Ok u)"
      using rest Some by (auto split: prod.splits kresult.splits)
    have "t_state th = Suspended" using th(3) r by (simp add: ref_ok_def)
    from make_ready_inv [OF inv th(2) this, of m "\<lambda>th. th\<lparr>t_wake_reason := w\<rparr>"] th u
    show ?thesis by (simp add: set_wake_reason_def)
  qed
qed

lemma wake_threads_inv:
  assumes "sched_inv H n s" and "wake_threads H s now = Some (Ok s')"
  shows "sched_inv H n s'"
  using assms
proof (induction H s now rule: wake_threads.induct)
  case (1 H s now)
  show ?case
  proof (cases "bh_peek (sc_timeouts s)")
    case None
    then show ?thesis using "1.prems" by (simp add: wake_threads.simps [of H s])
  next
    case (Some x)
    show ?thesis
    proof (cases "timeout_nsec x \<le> now")
      case False
      then show ?thesis using "1.prems" Some by (simp add: wake_threads.simps [of H s])
    next
      case True
      have bh: "bh_ready timeout_layout H timeout_key (sc_timeouts s)" and refs: "\<forall>x \<in># bh_bag (sc_timeouts s). ref_ok (tt_thread x)"
        using "1.prems"(1) by (simp_all add: sched_inv_def queues_ok_def)
      obtain q where q: "bh_pop timeout_key (sc_timeouts s) = (q, Ok (Some x))" "bh_ready timeout_layout H timeout_key q"
        "bh_bag (sc_timeouts s) = add_mset x (bh_bag q)" by (rule bh.pop_some [OF bh Some])
      have inv1: "sched_inv H n (s\<lparr>sc_timeouts := q\<rparr>)"
        using "1.prems"(1) q refs by (simp add: sched_inv_def queues_ok_def)
      obtain s1 b where s1: "move_to_ready_list H (s\<lparr>sc_timeouts := q\<rparr>) (tt_thread x) Timeout = Some (Ok (s1, b))"
        and rec: "wake_threads H s1 now = Some (Ok s')"
        using "1.prems"(2) Some True q(1)
        by (subst (asm) wake_threads.simps) (auto split: option.splits kresult.splits)
      have "sched_inv H n s1" using move_inv [OF inv1 _ s1] refs q(3) by simp
      then show ?thesis using "1.IH" [OF Some True q(1) [symmetric] refl refl s1 refl refl _ rec] by blast
    qed
  qed
qed

lemma post_inv:
  assumes inv: "sched_inv H n s" and c: "c < n" and run: "post_switch_handler H s c = Ok s'"
  shows "sched_inv H n s'"
proof -
  obtain d where d: "sc_post s c = Some d" using run by (auto simp: post_switch_handler_def res_simps)
  let ?t = "ps_old_thread d"
  let ?s1 = "upd_thread (s\<lparr>sc_post := (sc_post s)(c := None)\<rparr>) ?t (\<lambda>th. th\<lparr>t_rsp := sc_old_rsp s c\<rparr>)"
  have core: "core_inv n (statuses s) (ready_list s) (sc_current s) (sc_post s)" and q: "queues_ok H s"
    using inv by (simp_all add: sched_inv_def)
  have st1: "statuses ?s1 = statuses s" by (simp add: statuses_keep)
  have q1: "queues_ok H ?s1" using q by (simp add: queues_ok_def)
  have inv1: "sched_inv H n ?s1" using core_post_other [OF core, of c] q1 st1 by (simp add: sched_inv_def)
  show ?thesis
  proof (cases "ps_action d")
    case PostNone
    then show ?thesis using run d inv1 by (simp add: post_switch_handler_def Let_def)
  next
    case InsertReadyQueue
    then obtain u where u: "insert_ready_thread H ?s1 ?t = (s', Ok u)"
      using run d by (auto simp: post_switch_handler_def Let_def split: prod.splits kresult.splits)
    note i = insert_ready_ok [OF q1 u]
    have "statuses s' = statuses s" "sc_current s' = sc_current s" "sc_post s' = (sc_post s)(c := None)"
      by (subst i(3), simp add: st1)+
    then show ?thesis
      using i(1,2) core_post_ready [OF core c d InsertReadyQueue] by (simp add: sched_inv_def)
  next
    case (SetTimeout nsec)
    then have "rbind (ThreadRef_new ?s1 ?t) (\<lambda>r. case insert_thread H ?s1 r nsec of (s2, Ok _) \<Rightarrow> Ok s2 | _ \<Rightarrow> Panic) = Ok s'"
      using run d by (simp add: post_switch_handler_def Let_def)
    then obtain r where r: "ThreadRef_new ?s1 ?t = Ok r"
      and "(case insert_thread H ?s1 r nsec of (s2, Ok _) \<Rightarrow> Ok s2 | _ \<Rightarrow> Panic) = Ok s'"
      unfolding rbind_Ok_iff by blast
    then obtain u where u: "insert_thread H ?s1 r nsec = (s', Ok u)"
      by (auto split: prod.splits kresult.splits)
    obtain th where th: "sc_threads ?s1 ?t = Some th" "t_state th = Suspended" "r = \<lparr>tr_thread = ?t, tr_generation = t_status th\<rparr>"
      using r unfolding ThreadRef_new_def by (cases "sc_threads ?s1 ?t") (simp_all add: res_simps del: upd_thread_frame)
    have "statuses ?s1 ?t = Some (t_status th)" using th(1) by (simp only: statuses_def option.map)
    then have ok: "ref_ok r" using core_invD(1) [OF core, of ?t] th(2,3) by (simp add: ref_ok_def st1)
    obtain b where b: "bh_push timeout_layout H timeout_key (sc_timeouts ?s1) \<lparr>timeout_nsec = nsec, tt_thread = r\<rparr> = (b, Ok u)"
      "s' = ?s1\<lparr>sc_timeouts := b\<rparr>" using u by (auto simp: insert_thread_def split: prod.splits)
    have "bh_ready timeout_layout H timeout_key (sc_timeouts ?s1)" using q1 by (simp add: queues_ok_def)
    from bh.push_law [OF this, of "\<lparr>timeout_nsec = nsec, tt_thread = r\<rparr>"] b(1)
    have "bh_ready timeout_layout H timeout_key b"
      "bh_bag b = add_mset \<lparr>timeout_nsec = nsec, tt_thread = r\<rparr> (bh_bag (sc_timeouts ?s1))" by auto
    then have "queues_ok H s'" using q1 ok unfolding b(2) by (simp add: queues_ok_def)
    then show ?thesis using inv1 unfolding b(2) by (simp add: sched_inv_def)
  qed
qed

lemma resume_inv:
  assumes inv: "sched_inv H n s" and run: "resume_suspended_thread H s t = Ok s'"
  shows "sched_inv H n s'"
proof -
  obtain s1 where tr: "transition_state s t Suspended Ready = Ok (s1, True)" and
    "(case insert_ready_thread H s1 t of (s'', Ok _) \<Rightarrow> Ok s'' | _ \<Rightarrow> Panic) = Ok s'"
    using run unfolding resume_suspended_thread_def rbind_Ok_iff by (auto split: if_splits)
  then obtain u where u: "insert_ready_thread H s1 t = (s', Ok u)" by (auto split: prod.splits kresult.splits)
  from tr show ?thesis
  proof (cases rule: transition_stateE)
    case (yes th m)
    show ?thesis using make_ready_inv' [OF inv yes(2-4)] u yes(5) by simp
  qed simp
qed

lemma destroy_inv:
  assumes inv: "sched_inv H n s" and run: "destroy_suspended_thread s t = Ok s'"
  shows "sched_inv H n s'"
proof -
  have "transition_state s t Suspended Dead = Ok (s', True)"
    using run unfolding destroy_suspended_thread_def rbind_Ok_iff by (auto split: if_splits)
  then obtain th m where th: "sc_threads s t = Some th" "t_state th = Suspended" "next_status Dead (t_status th) = Ok m"
    "s' = upd_thread s t (\<lambda>th. th\<lparr>t_status := m\<rparr>)" "statuses s' = (statuses s)(t \<mapsto> m)"
    by (cases rule: transition_stateE) auto
  have core: "core_inv n (statuses s) (ready_list s) (sc_current s) (sc_post s)" using inv by (simp add: sched_inv_def)
  have "statuses s t = Some (t_status th)" using th(1) by (simp add: statuses_def)
  note nm = next_statusE [OF th(3) core_invD(1) [OF core this]]
  have "in_state (statuses s) t Suspended" using th(1,2) by (simp add: in_state_def statuses_def)
  from core_set_idle [OF core this, of m] nm(2,3)
  show ?thesis using inv unfolding sched_inv_def th(5) by (simp add: th(4) queues_ok_def)
qed

lemma create_inv:
  assumes inv: "sched_inv H n s" and new: "sc_threads s t = None" "\<not> weakly_referenced s t"
    and run: "start_thread H (s\<lparr>sc_threads := (sc_threads s)(t \<mapsto> Thread_new stack_top rsp)\<rparr>) t mode = Ok s'"
  shows "sched_inv H n s'"
proof -
  let ?th = "Thread_new stack_top rsp :: 'a Thread"
  let ?s = "s\<lparr>sc_threads := (sc_threads s)(t \<mapsto> ?th)\<rparr>"
  have core: "core_inv n (statuses s) (ready_list s) (sc_current s) (sc_post s)" using inv by (simp add: sched_inv_def)
  have st: "t_status ?th < usize_limit" "t_state ?th = Suspended"
    using state_of_add [of 0 Suspended] by (simp_all add: Thread_new_def to_status_eq)
  have new_st: "statuses ?s = (statuses s)(t \<mapsto> t_status ?th)" by (auto simp: statuses_def)
  have "core_inv n (statuses ?s) (ready_list s) (sc_current s) (sc_post s)"
    unfolding new_st using new by (intro core_create [OF core] st) (simp_all add: weakly_referenced_def)
  then have inv0: "sched_inv H n ?s" and core0: "core_inv n (statuses ?s) (ready_list s) (sc_current s) (sc_post s)"
    using inv by (simp_all add: sched_inv_def queues_ok_def)
  have th: "sc_threads ?s t = Some ?th" by simp
  show ?thesis
  proof (cases mode)
    case StartReady
    then obtain s1 where s1: "set_state ?s t Ready = Ok s1"
      and "(case insert_ready_thread H s1 t of (s2, r) \<Rightarrow> rbind r (\<lambda>_. Ok s2)) = Ok s'"
      using run unfolding start_thread_def by (auto simp: rbind_Ok_iff)
    then obtain u where u: "insert_ready_thread H s1 t = (s', Ok u)" by (auto simp: rbind_Ok_iff split: prod.splits)
    from s1 show ?thesis by (rule set_stateE) (use make_ready_inv' [OF inv0 th st(2)] u th in simp)
  next
    case StartSuspended
    then have "set_state ?s t Suspended = Ok s'" using run by (simp add: start_thread_def)
    then obtain m where m: "next_status Suspended (t_status ?th) = Ok m" "statuses s' = (statuses ?s)(t \<mapsto> m)"
      "s' = upd_thread ?s t (\<lambda>th. th\<lparr>t_status := m\<rparr>)" by (rule set_stateE) (use th in simp)
    note nm = next_statusE [OF m(1) st(1)]
    have "in_state (statuses ?s) t Suspended" using st(2) by (simp add: in_state_def new_st)
    from core_set_idle [OF core0 this, of m] nm(2,3)
    show ?thesis using inv0 unfolding sched_inv_def m(2) by (simp add: m(3) queues_ok_def)
  qed
qed

lemma release_inv:
  assumes inv: "sched_inv H n s" and free: "\<not> owned_by_cpus n s t"
  shows "sched_inv H n (s\<lparr>sc_threads := (sc_threads s)(t := None)\<rparr>)"
proof -
  have core: "core_inv n (statuses s) (ready_list s) (sc_current s) (sc_post s)" using inv by (simp add: sched_inv_def)
  have "statuses (s\<lparr>sc_threads := (sc_threads s)(t := None)\<rparr>) = (statuses s)(t := None)" by (auto simp: statuses_def)
  moreover have "core_inv n ((statuses s)(t := None)) (ready_list s) (sc_current s) (sc_post s)"
    by (rule core_release [OF core]) (use free in \<open>auto simp: owned_by_cpus_def\<close>)
  ultimately show ?thesis using inv by (simp add: sched_inv_def queues_ok_def)
qed

lemma step_inv:
  assumes inv: "sched_inv H n s" and step: "sched_step H n s e s'"
  shows "sched_inv H n s'"
  using step
proof cases
  case (switch c st a eoi now r)
  then show ?thesis using switch_inv [OF inv] by blast
next
  case (post c)
  then show ?thesis using post_inv [OF inv] by blast
next
  case (resume t)
  then show ?thesis using resume_inv [OF inv] by blast
next
  case (destroy t)
  then show ?thesis using destroy_inv [OF inv] by blast
next
  case (wake r w b)
  then show ?thesis using move_inv [OF inv] by (simp add: ref_ok_def)
next
  case (timer now)
  then show ?thesis using wake_threads_inv [OF inv] by blast
next
  case (kill t)
  then show ?thesis by (intro sched_inv_frame [OF inv]) (simp_all add: set_dead_def statuses_keep)
next
  case (run c rsp)
  then show ?thesis by (intro sched_inv_frame [OF inv]) simp_all
next
  case (create t stack_top rsp mode)
  then show ?thesis using create_inv [OF inv] by blast
next
  case (release t)
  then show ?thesis using release_inv [OF inv] by blast
qed

lemma steps_inv: "sched_steps H n s es s' \<Longrightarrow> sched_inv H n s \<Longrightarrow> sched_inv H n s'"
  by (induction rule: sched_steps.induct) (auto intro: step_inv)

subsection \<open>What the operations do\<close>

text \<open>No thread is near the end of its generations.\<close>

definition generations_left :: "'p sched \<Rightarrow> bool" where
  "generations_left s \<longleftrightarrow> (\<forall>t th. sc_threads s t = Some th \<longrightarrow> t_status th + 8 < usize_limit)"

abbreviation live_ready :: "'p sched \<Rightarrow> tid list" where
  "live_ready s \<equiv> dropWhile (\<lambda>t. \<not> is_alive s t) (ready_list s)"

lemma get_next_thread_spec:
  assumes inv: "sched_inv H n s"
  shows "\<exists>v. get_next_thread s = (s\<lparr>sc_ready := v\<rparr>, Ok (case live_ready s of [] \<Rightarrow> None | t # _ \<Rightarrow> Some t)) \<and>
    vec_list v = (case live_ready s of [] \<Rightarrow> [] | _ # ts \<Rightarrow> ts)"
proof -
  have rdy: "vec_ready u64_layout H (sc_ready s)" using inv by (simp add: sched_inv_def queues_ok_def)
  obtain v r where v: "pick_thread (sc_threads s) (sc_ready s) = (v, Ok r)"
    "case r of
       None \<Rightarrow> vec_list v = [] \<and> (\<forall>t \<in> set (ready_list s). \<forall>th. sc_threads s t = Some th \<longrightarrow> \<not> t_is_alive th)
     | Some t \<Rightarrow> \<exists>pre. ready_list s = pre @ t # vec_list v \<and> (\<exists>th. sc_threads s t = Some th \<and> t_is_alive th) \<and>
         (\<forall>u \<in> set pre. \<forall>th. sc_threads s u = Some th \<longrightarrow> \<not> t_is_alive th)"
    using pick_thread_spec [OF rdy, of "sc_threads s"] by blast
  have run: "get_next_thread s = (s\<lparr>sc_ready := v\<rparr>, Ok r)" using v(1) by (simp add: get_next_thread_def)
  show ?thesis
  proof (cases r)
    case None
    then have e: "live_ready s = []" using v(2) by (auto simp: dropWhile_eq_Nil_conv is_alive_def split: option.splits)
    show ?thesis unfolding e using run None v(2) by (intro exI [of _ v]) simp
  next
    case (Some t)
    then obtain pre th where pre: "ready_list s = pre @ t # vec_list v" "sc_threads s t = Some th" "t_is_alive th"
      "\<forall>u \<in> set pre. \<forall>th. sc_threads s u = Some th \<longrightarrow> \<not> t_is_alive th" using v(2) by auto
    have "\<And>u. u \<in> set pre \<Longrightarrow> \<not> is_alive s u" "is_alive s t"
      using pre(2-4) by (auto simp: is_alive_def split: option.splits)
    then have e: "live_ready s = t # vec_list v" unfolding pre(1) by (simp add: dropWhile_append2)
    show ?thesis unfolding e using run Some by (intro exI [of _ v]) simp
  qed
qed

lemma set_state_ok:
  assumes "sc_threads s t = Some th" and "t_status th + 8 < usize_limit"
  obtains m where "set_state s t st = Ok (upd_thread s t (\<lambda>th. th\<lparr>t_status := m\<rparr>))"
    "ThreadState_from_usize m = st" "m div 4 = Suc (t_status th div 4)" "next_status st (t_status th) = Ok m"
proof -
  have "next_status st (t_status th) = Ok (4 * Suc (t_status th div 4) + ThreadState_val st)"
    by (rule next_status_eq [OF assms(2)])
  moreover from next_statusE(3,4) [OF this] assms(2) have
    "ThreadState_from_usize (4 * Suc (t_status th div 4) + ThreadState_val st) = st"
    "(4 * Suc (t_status th div 4) + ThreadState_val st) div 4 = Suc (t_status th div 4)" by simp_all
  ultimately show thesis using that assms(1) by (simp add: set_state_def res_simps)
qed

text \<open>The ready list has room for one more thread.\<close>

lemma insert_ready_room:
  assumes q: "queues_ok H s" and room: "v_len (sc_ready s) < Vec_capacity (sc_ready s)"
  obtains v where "insert_ready_thread H s t = (s\<lparr>sc_ready := v\<rparr>, Ok ())" "vec_list v = ready_list s @ [t]"
    "Vec_capacity v = Vec_capacity (sc_ready s)" "v_len v = Suc (v_len (sc_ready s))"
proof -
  have rdy: "Vec_inv u64_layout (sc_ready s)" "l_size u64_layout \<noteq> 0" "heap_ok H"
    using q by (simp_all add: queues_ok_def vec_ready_def)
  show thesis
  proof (cases rule: Vec_push_cases [OF rdy, of t])
    case 1
    obtain v where "Vec_push_all u64_layout H (sc_ready s) [t] = (v, Ok ())"
      using Vec_push_all_room [of u64_layout H "sc_ready s" "[t]"] q room by (auto simp: queues_ok_def)
    with 1 show thesis by simp
  next
    case (2 v)
    then have "v_len v = Suc (v_len (sc_ready s))" by (metis length_append_singleton length_vec_list)
    with 2 room show thesis by (intro that [of v]) (simp_all add: insert_ready_thread_def)
  qed
qed

lemma switch_effect:
  assumes inv: "sched_inv H n s" and c: "c < n" and st: "st \<noteq> Running" and gen: "generations_left s"
    and nxt: "live_ready s = t # ts"
  obtains s' th where "switch_current_thread_to s c st a eoi now = (s', Ok (Inr ()))"
    "ready_list s' = ts" "sc_threads s t = Some th" "sc_current s' = (sc_current s)(c := t)"
    "sc_post s' = (sc_post s)(c \<mapsto> \<lparr>ps_old_thread = sc_current s c, ps_action = a, ps_send_eoi = eoi\<rparr>)"
    "sc_timeouts s' = sc_timeouts s" "sc_cpu_rsp s' = (sc_cpu_rsp s)(c := t_rsp th)"
    "sc_old_rsp s' = (sc_old_rsp s)(c := sc_cpu_rsp s c)"
    "\<And>u. u \<noteq> t \<Longrightarrow> u \<noteq> sc_current s c \<Longrightarrow> sc_threads s' u = sc_threads s u"
    "\<exists>m. sc_threads s' t = Some (th\<lparr>t_status := m\<rparr>) \<and> ThreadState_from_usize m = Running \<and>
       m div 4 = Suc (t_status th div 4)"
    "\<exists>old m. sc_threads s (sc_current s c) = Some old \<and> sc_threads s' (sc_current s c) = Some (old\<lparr>t_status := m\<rparr>) \<and>
       ThreadState_from_usize m = st \<and> m div 4 = Suc (t_status old div 4)"
proof -
  let ?old = "sc_current s c"
  have core: "core_inv n (statuses s) (ready_list s) (sc_current s) (sc_post s)" using inv by (simp add: sched_inv_def)
  obtain v where v: "get_next_thread s = (s\<lparr>sc_ready := v\<rparr>, Ok (Some t))" "vec_list v = ts"
    using get_next_thread_spec [OF inv] by (auto simp: nxt)
  let ?s1 = "s\<lparr>sc_ready := v\<rparr>"
  have "t \<in> set (live_ready s)" "is_alive s t" using nxt hd_dropWhile [of "\<lambda>t. \<not> is_alive s t" "ready_list s"] by simp_all
  then obtain th where th: "sc_threads s t = Some th" "t \<in> set (ready_list s)"
    by (auto simp: is_alive_def dest: set_dropWhileD split: option.splits)
  have ne: "t \<noteq> ?old" using core_not_ready(1) [OF core core_invD(2) [OF core c]] th(2) by auto
  obtain old where old: "sc_threads s ?old = Some old"
    using core_invD(2) [OF core c] by (auto simp: in_state_def statuses_def)
  have g: "t_status th + 8 < usize_limit" "t_status old + 8 < usize_limit"
    using gen th(1) old unfolding generations_left_def by blast+
  obtain m where m: "set_state ?s1 ?old st = Ok (upd_thread ?s1 ?old (\<lambda>th. th\<lparr>t_status := m\<rparr>))"
    "ThreadState_from_usize m = st" "m div 4 = Suc (t_status old div 4)" by (rule set_state_ok [of ?s1 ?old old st]) (use old g(2) in simp_all)
  let ?s2 = "upd_thread ?s1 ?old (\<lambda>th. th\<lparr>t_status := m\<rparr>)"
  obtain k where k: "set_state ?s2 t Running = Ok (upd_thread ?s2 t (\<lambda>th. th\<lparr>t_status := k\<rparr>))"
    "ThreadState_from_usize k = Running" "k div 4 = Suc (t_status th div 4)" by (rule set_state_ok [of ?s2 t th Running]) (use th(1) ne g(1) in simp_all)
  define s3 where "s3 = upd_thread ?s2 t (\<lambda>th. th\<lparr>t_status := k\<rparr>)"
  have s3: "sc_threads s3 = (sc_threads s)(?old \<mapsto> old\<lparr>t_status := m\<rparr>, t \<mapsto> th\<lparr>t_status := k\<rparr>)"
    "sc_ready s3 = v" "sc_current s3 = sc_current s" "sc_post s3 = sc_post s" "sc_timeouts s3 = sc_timeouts s"
    "sc_cpu_rsp s3 = sc_cpu_rsp s" "sc_old_rsp s3 = sc_old_rsp s"
    using old th(1) ne by (simp_all add: s3_def upd_thread_def)
  have run: "switch_current_thread_to s c st a eoi now =
     (s3\<lparr>sc_fs_base := (sc_fs_base s3)(c := t_thread_local_pointer th),
         sc_syscall_rsp := (sc_syscall_rsp s3)(c := t_stack_top th),
         sc_current := (sc_current s3)(c := t),
         sc_post := (sc_post s3)(c \<mapsto> \<lparr>ps_old_thread = ?old, ps_action = a, ps_send_eoi = eoi\<rparr>),
         sc_last_switch := (sc_last_switch s3)(c := now),
         sc_old_rsp := (sc_old_rsp s3)(c := sc_cpu_rsp s3 c),
         sc_cpu_rsp := (sc_cpu_rsp s3)(c := t_rsp th)\<rparr>, Ok (Inr ()))"
    using st v(1) m(1) k(1) s3(1) unfolding s3_def [symmetric] by (simp add: switch_current_thread_to_def Let_def)
  show thesis
    by (rule that [OF run _ th(1)]) (use m(2,3) k(2,3) v(2) ne old in \<open>auto simp: s3\<close>)
qed

text \<open>A switch does not give up the room of the ready list.\<close>

lemma pick_thread_capacity: "Vec_capacity (fst (pick_thread threads v)) = Vec_capacity v"
proof (induction threads v rule: pick_thread.induct)
  case (1 threads v)
  have "Vec_capacity (fst (Vec_pop_front v)) = Vec_capacity v"
    by (auto simp: Vec_pop_front_def Vec_try_remove_def Let_def ptr_copy_def split: kresult.splits)
  with 1 show ?case by (subst pick_thread.simps) (auto split: prod.splits kresult.splits option.splits)
qed

lemma switch_capacity:
  assumes "switch_current_thread_to s c st a eoi now = (s', Ok r)"
  shows "Vec_capacity (sc_ready s') = Vec_capacity (sc_ready s)"
proof -
  obtain v x where v: "pick_thread (sc_threads s) (sc_ready s) = (v, x)" by fastforce
  have frame: "sc_ready s3 = sc_ready s1" if "rbind (set_state s1 o' st) (\<lambda>s2. set_state s2 t Running) = Ok s3" for s1 o' t s3
    using that unfolding rbind_Ok_iff by (auto elim!: set_stateE)
  have "sc_ready s' = v"
  proof (cases x)
    case (Ok y)
    show ?thesis
    proof (cases y)
      case None
      then show ?thesis
        using assms v Ok by (simp add: switch_current_thread_to_def get_next_thread_def split: if_splits) auto
    next
      case (Some t)
      let ?r = "rbind (set_state (s\<lparr>sc_ready := v\<rparr>) (sc_current s c) st) (\<lambda>s2. set_state s2 t Running)"
      show ?thesis
        using assms v Ok Some frame [of "s\<lparr>sc_ready := v\<rparr>" "sc_current s c" t] unfolding switch_current_thread_to_def get_next_thread_def Let_def
        by (cases ?r) (auto split: if_splits option.splits)
    qed
  qed (use assms v in \<open>auto simp: switch_current_thread_to_def get_next_thread_def split: if_splits\<close>)
  with pick_thread_capacity [of "sc_threads s" "sc_ready s"] v show ?thesis by simp
qed

lemma resumeE:
  assumes "resume_suspended_thread H s t = Ok s'"
  obtains v m where "s' = (upd_thread s t (\<lambda>th. th\<lparr>t_status := m\<rparr>))\<lparr>sc_ready := v\<rparr>"
proof -
  obtain s0 where tr: "transition_state s t Suspended Ready = Ok (s0, True)" and
    "(case insert_ready_thread H s0 t of (s'', Ok _) \<Rightarrow> Ok s'' | _ \<Rightarrow> Panic) = Ok s'"
    using assms unfolding resume_suspended_thread_def rbind_Ok_iff by (auto split: if_splits)
  then obtain v where v: "s' = s0\<lparr>sc_ready := v\<rparr>"
    by (auto simp: insert_ready_thread_def split: prod.splits kresult.splits)
  from tr show thesis by (cases rule: transition_stateE) (use v that in blast)+
qed

lemma resume_effect:
  assumes inv: "sched_inv H n s" and gen: "generations_left s" and th: "sc_threads s t = Some th" "t_state th = Suspended"
    and room: "v_len (sc_ready s) < Vec_capacity (sc_ready s)"
  obtains s' m where "resume_suspended_thread H s t = Ok s'" "ready_list s' = ready_list s @ [t]"
    "sc_threads s' = (sc_threads s)(t \<mapsto> th\<lparr>t_status := m\<rparr>)" "m div 4 = Suc (t_status th div 4)"
    "ThreadState_from_usize m = Ready" "sc_current s' = sc_current s" "sc_post s' = sc_post s" "sc_cpu_rsp s' = sc_cpu_rsp s"
    "sc_timeouts s' = sc_timeouts s"
proof -
  have g: "t_status th + 8 < usize_limit" using gen th(1) unfolding generations_left_def by blast
  obtain m where m: "next_status Ready (t_status th) = Ok m" "ThreadState_from_usize m = Ready" "m div 4 = Suc (t_status th div 4)"
    by (rule set_state_ok [OF th(1) g, of Ready])
  let ?s1 = "upd_thread s t (\<lambda>th. th\<lparr>t_status := m\<rparr>)"
  have "queues_ok H ?s1" using inv by (simp add: sched_inv_def queues_ok_def)
  then obtain v where v: "insert_ready_thread H ?s1 t = (?s1\<lparr>sc_ready := v\<rparr>, Ok ())" "vec_list v = ready_list s @ [t]"
    using insert_ready_room [of H ?s1 t] room by auto
  have "resume_suspended_thread H s t = Ok (?s1\<lparr>sc_ready := v\<rparr>)"
    using th m(1) v(1) by (simp add: resume_suspended_thread_def transition_state_def)
  then show thesis using m v(2) th(1) by (intro that [of "?s1\<lparr>sc_ready := v\<rparr>" m]) (simp_all add: upd_thread_def)
qed

subsection \<open>An example state\<close>

text \<open>
  Two processors run the threads \<open>0\<close> and \<open>1\<close>, thread \<open>2\<close> is ready, thread \<open>3\<close> is suspended and
  waits for a timeout; its last wait ended by a timeout too.
\<close>

definition example_thread :: "usize \<Rightarrow> unit WakeReason \<Rightarrow> usize \<Rightarrow> unit Thread" where
  "example_thread status reason rsp =
     \<lparr>t_status = status, t_wake_reason = reason, t_is_alive = True, t_rsp = rsp, t_stack_top = 0x9000,
      t_thread_local_pointer = 0\<rparr>"

definition example_sched :: "unit sched" where
  "example_sched =
     \<lparr>sc_threads = [0 \<mapsto> example_thread 4 WakeNone 0x100, 1 \<mapsto> example_thread 4 WakeNone 0x200,
        2 \<mapsto> example_thread 5 WakeNone 0x300, 3 \<mapsto> example_thread 6 Timeout 0x400],
      sc_ready = \<lparr>v_inner = \<lparr>rv_ptr = 0x1000, rv_cap = 4, rv_mem = [0 \<mapsto> 2]\<rparr>, v_len = 1\<rparr>,
      sc_timeouts = \<lparr>bh_data = \<lparr>v_inner = \<lparr>rv_ptr = 0x2000, rv_cap = 2,
        rv_mem = [0 \<mapsto> \<lparr>timeout_nsec = 50, tt_thread = \<lparr>tr_thread = 3, tr_generation = 6\<rparr>\<rparr>]\<rparr>, v_len = 1\<rparr>\<rparr>,
      sc_current = (\<lambda>c. c), sc_post = (\<lambda>c. None), sc_last_switch = (\<lambda>c. 0),
      sc_syscall_rsp = (\<lambda>c. 0), sc_fs_base = (\<lambda>c. 0), sc_cpu_rsp = (\<lambda>c. 0x800), sc_old_rsp = (\<lambda>c. 0)\<rparr>"

lemma example_states [simp]:
  "ThreadState_from_usize 4 = Running" "ThreadState_from_usize 5 = Ready" "ThreadState_from_usize 6 = Suspended"
  using state_of_add [of 1 Running] state_of_add [of 1 Ready] state_of_add [of 1 Suspended] by simp_all

lemma example_sched_inv: "sched_inv small_heap 2 example_sched"
proof -
  have "queues_ok small_heap example_sched"
    by (simp add: queues_ok_def example_sched_def vec_ready_def Vec_inv_def buffer_ok_def elem_ok_def small_heap_ok
      bh_ready_def bh_bag_def vec_list_def ref_ok_def heap_order_def parent_def)
  moreover have "core_inv 2 (statuses example_sched) (ready_list example_sched) (sc_current example_sched) (sc_post example_sched)"
    by (auto simp: core_inv_def in_state_def pending_ready_def statuses_def example_sched_def example_thread_def
      vec_list_def less_2_cases_iff split: if_splits)
  ultimately show ?thesis by (simp add: sched_inv_def)
qed

subsection \<open>Properties\<close>



lemma example_facts:
  "generations_left example_sched" "live_ready example_sched = [2]" "ready_list example_sched = [2]"
  "v_len (sc_ready example_sched) < Vec_capacity (sc_ready example_sched)"
  "sc_post example_sched c = None" "sc_current example_sched c = c" "sc_cpu_rsp example_sched c = 0x800"
  "sc_threads example_sched 0 = Some (example_thread 4 WakeNone 0x100)"
  "sc_threads example_sched 2 = Some (example_thread 5 WakeNone 0x300)"
  "sc_threads example_sched 3 = Some (example_thread 6 Timeout 0x400)"
  by (auto simp: generations_left_def example_sched_def example_thread_def vec_list_def is_alive_def split: if_splits)




text \<open>
  C36.  Resuming a thread does not touch its wake reason: a thread that was once woken by a
  timeout and suspends itself again with a timeout is told that the wait timed out although it
  was resumed by another thread, for every later time of the timeout.
\<close>

theorem resume_keeps_stale_timeout:
  assumes "sched_inv H n s" and "c < n" and "sc_threads s t = Some th" and "t_wake_reason th = Timeout"
    and "resume_suspended_thread H s t = Ok s1" and "generations_left s1"
    and "live_ready s1 = t # ts" and "st \<noteq> Running"
  shows "\<exists>s2. switch_current_thread_to s1 c st a eoi now = (s2, Ok (Inr ())) \<and> sc_current s2 c = t \<and>
    thread_suspend_result s2 c (Some nsec) = Err OkTimeout"
proof -
  obtain v m where m: "sc_threads s1 t = Some (th\<lparr>t_status := m\<rparr>)"
    by (rule resumeE [OF assms(5)]) (use assms(3) in simp)
  have inv1: "sched_inv H n s1" by (rule resume_inv [OF assms(1,5)])
  obtain s2 th' where s2: "switch_current_thread_to s1 c st a eoi now = (s2, Ok (Inr ()))" "sc_threads s1 t = Some th'"
    "sc_current s2 = (sc_current s1)(c := t)" "\<exists>k. sc_threads s2 t = Some (th'\<lparr>t_status := k\<rparr>)"
    by (rule switch_effect [OF inv1 assms(2,8,6,7), of a eoi now]) blast
  then show ?thesis using m assms(4) by (auto simp: thread_suspend_result_def)
qed

text \<open>Processor \<open>c\<close> of the example suspends its thread, and a thread is resumed.\<close>

lemma example_suspend_resume:
  assumes c: "c < 2" and own: "sc_threads example_sched c = Some old" "t_status old = 4"
  obtains s1 where "switch_current_thread_to example_sched c Suspended PostNone False 7 = (s1, Ok (Inr ()))"
    "sched_inv small_heap 2 s1" "generations_left s1" "ready_list s1 = []" "v_len (sc_ready s1) < Vec_capacity (sc_ready s1)"
    "sc_threads s1 3 = sc_threads example_sched 3"
    "\<exists>m < 100. sc_threads s1 c = Some (old\<lparr>t_status := m\<rparr>) \<and> ThreadState_from_usize m = Suspended" "sc_post s1 = (sc_post example_sched)(c := sc_post s1 c)"
proof -
  have kind: "switch_kind Suspended PostNone" by (simp add: switch_kind_def)
  obtain s1 th where s1: "switch_current_thread_to example_sched c Suspended PostNone False 7 = (s1, Ok (Inr ()))"
    "ready_list s1 = []" "sc_threads example_sched 2 = Some th"
    "sc_post s1 = (sc_post example_sched)(c \<mapsto> \<lparr>ps_old_thread = sc_current example_sched c, ps_action = PostNone, ps_send_eoi = False\<rparr>)"
    "\<And>u. u \<noteq> 2 \<Longrightarrow> u \<noteq> sc_current example_sched c \<Longrightarrow> sc_threads s1 u = sc_threads example_sched u"
    "\<exists>m. sc_threads s1 2 = Some (th\<lparr>t_status := m\<rparr>) \<and> ThreadState_from_usize m = Running \<and> m div 4 = Suc (t_status th div 4)"
    "\<exists>old m. sc_threads example_sched (sc_current example_sched c) = Some old \<and>
       sc_threads s1 (sc_current example_sched c) = Some (old\<lparr>t_status := m\<rparr>) \<and>
       ThreadState_from_usize m = Suspended \<and> m div 4 = Suc (t_status old div 4)"
    by (rule switch_effect [OF example_sched_inv c _ example_facts(1,2), of Suspended PostNone False 7]) (simp, rule that)
  obtain m where m: "sc_threads s1 c = Some (old\<lparr>t_status := m\<rparr>)" "ThreadState_from_usize m = Suspended" "m div 4 = 2"
    using s1(7) own by (auto simp: example_facts)
  obtain k where k: "sc_threads s1 2 = Some (th\<lparr>t_status := k\<rparr>)" "k div 4 = 2"
    using s1(3,6) by (auto simp: example_facts example_thread_def)
  have small: "m < 12" "k < 12"
    using m(3) k(2) div_mult_mod_eq [of m 4] mod_less_divisor [of 4 m] div_mult_mod_eq [of k 4] mod_less_divisor [of 4 k] by simp_all
  have "t_status th + 8 < usize_limit" if "sc_threads s1 u = Some th" for u th
  proof (cases "u = 2 \<or> u = c")
    case True
    then show ?thesis using that m(1) k(1) small by auto
  next
    case False
    then have "sc_threads example_sched u = Some th" using that s1(5) [of u] by (simp add: example_facts)
    then show ?thesis using example_facts(1) unfolding generations_left_def by blast
  qed
  then have gen: "generations_left s1" unfolding generations_left_def by blast
  have inv: "sched_inv small_heap 2 s1" by (rule switch_inv [OF example_sched_inv c example_facts(5) kind s1(1)])
  have "v_len (sc_ready s1) = 0" using length_vec_list [of "sc_ready s1"] unfolding s1(2) by simp
  moreover have "Vec_capacity (sc_ready s1) = 4" using switch_capacity [OF s1(1)] by (simp add: example_sched_def)
  ultimately show thesis
    using c m(1,2) small(1) s1(5) [of 3]
    by (intro that [OF s1(1) inv gen s1(2)] exI [of _ m]) (simp_all add: s1(4) example_facts)
qed

lemma example_resume:
  assumes "sched_inv small_heap 2 s" and "generations_left s" and "ready_list s = []"
    and "v_len (sc_ready s) < Vec_capacity (sc_ready s)" and "sc_threads s t = Some th" and "t_state th = Suspended"
    and "t_is_alive th" and small: "t_status th < 100"
  obtains s' where "resume_suspended_thread small_heap s t = Ok s'" "generations_left s'" "live_ready s' = [t]"
proof -
  obtain s' m where s': "resume_suspended_thread small_heap s t = Ok s'" "ready_list s' = [t]"
    "sc_threads s' = (sc_threads s)(t \<mapsto> th\<lparr>t_status := m\<rparr>)" "m div 4 = Suc (t_status th div 4)"
    by (rule resume_effect [OF assms(1,2,5,6,4)]) (simp_all add: assms(3))
  have "m < 200" using s'(4) small div_le_mono [of "t_status th" 99 4] div_mult_mod_eq [of m 4] mod_less_divisor [of 4 m] by linarith
  then have "generations_left s'" using assms(2) by (auto simp: generations_left_def s'(3))
  moreover have "live_ready s' = [t]" unfolding s'(2) by (simp add: is_alive_def s'(3) assms(7))
  ultimately show thesis using that s'(1) by blast
qed

lemma example_own: "sc_threads example_sched 1 = Some (example_thread 4 WakeNone 0x200)"
  by (simp add: example_sched_def)

theorem resume_keeps_stale_timeout_witness:
  "\<exists>s0 s1 s2. switch_current_thread_to example_sched 1 Suspended PostNone False 7 = (s0, Ok (Inr ())) \<and>
     resume_suspended_thread small_heap s0 3 = Ok s1 \<and>
     switch_current_thread_to s1 0 Suspended PostNone False 9 = (s2, Ok (Inr ())) \<and> sc_current s2 0 = 3 \<and>
     thread_suspend_result s2 0 (Some 100) = Err OkTimeout"
proof -
  let ?th = "example_thread 6 Timeout 0x400"
  obtain s0 where s0: "switch_current_thread_to example_sched 1 Suspended PostNone False 7 = (s0, Ok (Inr ()))"
    "sched_inv small_heap 2 s0" "generations_left s0" "ready_list s0 = []" "v_len (sc_ready s0) < Vec_capacity (sc_ready s0)"
    "sc_threads s0 3 = Some ?th"
    by (rule example_suspend_resume [OF _ example_own]) (simp_all add: example_thread_def example_facts)
  obtain s1 where s1: "resume_suspended_thread small_heap s0 3 = Ok s1" "generations_left s1" "live_ready s1 = [3]"
    by (rule example_resume [OF s0(2-6)]) (simp_all add: example_thread_def)
  have "\<exists>s2. switch_current_thread_to s1 0 Suspended PostNone False 9 = (s2, Ok (Inr ())) \<and> sc_current s2 0 = 3 \<and>
     thread_suspend_result s2 0 (Some 100) = Err OkTimeout"
    by (rule resume_keeps_stale_timeout [OF s0(2) _ s0(6) _ s1]) (simp_all add: example_thread_def)
  with s0(1) s1(1) show ?thesis by blast
qed

text \<open>
  C37.  The two halves of a switch are not atomic: a thread that suspends itself can be resumed
  and chosen by another processor before the second half has saved its stack pointer.  The other
  processor then runs it on the stack pointer of its previous suspension; the current one is
  still only in the hands of the first processor.
\<close>

theorem switch_race_stale_stack:
  assumes "sched_inv H n s" and "c < n" and "d < n" and "c \<noteq> d" and "sc_post s c = None" and "sc_post s d = None"
    and "sc_threads s (sc_current s c) = Some th" and "generations_left s" and "live_ready s \<noteq> []"
    and "switch_current_thread_to s c Suspended PostNone eoi now = (s1, Ok (Inr ()))"
    and "resume_suspended_thread H s1 (sc_current s c) = Ok s2" and "generations_left s2"
    and "live_ready s2 = sc_current s c # ts"
  shows "\<exists>s3. sched_steps H n s [EvSwitch c Suspended PostNone eoi now, EvResume (sc_current s c),
        EvSwitch d Ready InsertReadyQueue eoi' now'] s3 \<and>
    sc_current s3 d = sc_current s c \<and> sc_cpu_rsp s3 d = t_rsp th \<and> sc_old_rsp s3 c = sc_cpu_rsp s c \<and> sc_post s3 c \<noteq> None"
proof -
  obtain t us where live: "live_ready s = t # us" using assms(9) by (cases "live_ready s") simp_all
  have st: "switch_kind Suspended PostNone" "switch_kind Ready InsertReadyQueue" by (simp_all add: switch_kind_def)
  have inv1: "sched_inv H n s1" by (rule switch_inv [OF assms(1,2,5) st(1) assms(10)])
  have inv2: "sched_inv H n s2" by (rule resume_inv [OF inv1 assms(11)])
  obtain m where m: "sc_threads s1 (sc_current s c) = Some (th\<lparr>t_status := m\<rparr>)"
    and s1: "sc_post s1 = (sc_post s)(c \<mapsto> \<lparr>ps_old_thread = sc_current s c, ps_action = PostNone, ps_send_eoi = eoi\<rparr>)"
      "sc_old_rsp s1 = (sc_old_rsp s)(c := sc_cpu_rsp s c)"
    by (rule switch_effect [OF assms(1,2) _ assms(8) live, of Suspended PostNone eoi now]) (use assms(7,10) in auto)
  obtain v k where k: "s2 = (upd_thread s1 (sc_current s c) (\<lambda>th. th\<lparr>t_status := k\<rparr>))\<lparr>sc_ready := v\<rparr>"
    by (rule resumeE [OF assms(11)])
  obtain s3 th' where s3: "switch_current_thread_to s2 d Ready InsertReadyQueue eoi' now' = (s3, Ok (Inr ()))"
    "sc_threads s2 (sc_current s c) = Some th'" "sc_current s3 = (sc_current s2)(d := sc_current s c)"
    "sc_post s3 = (sc_post s2)(d \<mapsto> \<lparr>ps_old_thread = sc_current s2 d, ps_action = InsertReadyQueue, ps_send_eoi = eoi'\<rparr>)"
    "sc_cpu_rsp s3 = (sc_cpu_rsp s2)(d := t_rsp th')" "sc_old_rsp s3 = (sc_old_rsp s2)(d := sc_cpu_rsp s2 d)"
    by (rule switch_effect [OF inv2 assms(3) _ assms(12,13), of Ready InsertReadyQueue eoi' now']) simp_all
  have "sc_post s2 d = None" using assms(4,6) by (simp add: k s1)
  then have "sched_steps H n s [EvSwitch c Suspended PostNone eoi now, EvResume (sc_current s c),
        EvSwitch d Ready InsertReadyQueue eoi' now'] s3"
    using sched_step.switch [OF assms(2,5) st(1) assms(10)] sched_step.resume [OF assms(11)]
      sched_step.switch [OF assms(3) _ st(2) s3(1)] by (blast intro: sched_steps.intros)
  moreover have "t_rsp th' = t_rsp th" using s3(2) m by (auto simp: k)
  ultimately show ?thesis using assms(4) by (intro exI [of _ s3]) (simp add: s3(3-6) k s1)
qed

theorem switch_race_stale_stack_witness:
  "\<exists>s3. sched_steps small_heap 2 example_sched [EvSwitch 0 Suspended PostNone False 7, EvResume 0,
      EvSwitch 1 Ready InsertReadyQueue False 8] s3 \<and>
    sc_current s3 1 = 0 \<and> sc_cpu_rsp s3 1 = 0x100 \<and> sc_old_rsp s3 0 = 0x800"
proof -
  let ?th = "example_thread 4 WakeNone 0x100"
  obtain s1 m where s1: "switch_current_thread_to example_sched 0 Suspended PostNone False 7 = (s1, Ok (Inr ()))"
    "sched_inv small_heap 2 s1" "generations_left s1" "ready_list s1 = []" "v_len (sc_ready s1) < Vec_capacity (sc_ready s1)"
    "sc_threads s1 0 = Some (?th\<lparr>t_status := m\<rparr>)" "ThreadState_from_usize m = Suspended" "m < 100"
    by (rule example_suspend_resume [OF _ example_facts(8)]) (auto simp: example_thread_def)
  obtain s2 where s2: "resume_suspended_thread small_heap s1 (sc_current example_sched 0) = Ok s2" "generations_left s2"
    "live_ready s2 = [sc_current example_sched 0]"
    unfolding example_facts(6) by (rule example_resume [OF s1(2-6)]) (use s1(7,8) in \<open>simp_all add: example_thread_def\<close>)
  have own: "sc_threads example_sched (sc_current example_sched 0) = Some ?th" by (simp add: example_facts)
  have ne: "live_ready example_sched \<noteq> []" unfolding example_facts(2) by simp
  have "\<exists>s3. sched_steps small_heap 2 example_sched [EvSwitch 0 Suspended PostNone False 7,
      EvResume (sc_current example_sched 0), EvSwitch 1 Ready InsertReadyQueue False 8] s3 \<and>
    sc_current s3 1 = sc_current example_sched 0 \<and> sc_cpu_rsp s3 1 = t_rsp ?th \<and>
    sc_old_rsp s3 0 = sc_cpu_rsp example_sched 0 \<and> sc_post s3 0 \<noteq> None"
    by (rule switch_race_stale_stack [OF example_sched_inv _ _ _ example_facts(5,5) own example_facts(1) ne s1(1) s2]) simp_all
  moreover have "t_rsp ?th = 0x100" by (simp add: example_thread_def)
  ultimately show ?thesis unfolding example_facts(6,7) by metis
qed

end
