(* ===== verification/Sched_Progress.thy ===== *)
theory Sched_Progress
  imports Sched_Invariant
begin

text \<open>
  Progress of the scheduler: a thread in the ready list moves forward with every switch until it
  runs, and the timer wakes every thread whose time has come.
\<close>

subsection \<open>The ready list only grows between switches\<close>

definition grows :: "'p sched \<Rightarrow> 'p sched \<Rightarrow> bool" where
  "grows s s' \<longleftrightarrow> (\<exists>xs. ready_list s' = ready_list s @ xs) \<and> (\<forall>t. is_alive s t \<longrightarrow> is_alive s' t)"

lemma grows_refl: "grows s s"
  by (simp add: grows_def)

lemma grows_trans: "grows s s1 \<Longrightarrow> grows s1 s2 \<Longrightarrow> grows s s2"
  by (auto simp: grows_def)

lemma grows_same: "sc_threads s' = sc_threads s \<Longrightarrow> sc_ready s' = sc_ready s \<Longrightarrow> grows s s'"
  by (simp add: grows_def is_alive_def)

lemma is_alive_upd:
  "(\<And>th. t_is_alive (f th) = t_is_alive th) \<Longrightarrow> is_alive (upd_thread s u f) t = is_alive s t"
  by (auto simp: is_alive_def split: option.splits)

lemma grows_upd: "(\<And>th. t_is_alive (f th) = t_is_alive th) \<Longrightarrow> grows s (upd_thread s t f)"
  by (simp add: grows_def is_alive_upd)

lemma grows_insert:
  assumes "queues_ok H s" and "insert_ready_thread H s t = (s', Ok r)"
  shows "grows s s'"
proof -
  note i = insert_ready_ok [OF assms]
  have "sc_threads s' = sc_threads s" by (subst i(3)) simp
  with i(2) show ?thesis by (simp add: grows_def is_alive_def)
qed

lemma grows_upd_insert:
  assumes "queues_ok H s" and "\<And>th. t_is_alive (f th) = t_is_alive th"
    and "insert_ready_thread H (upd_thread s u f) t = (s', Ok r)"
  shows "grows s s'"
proof -
  have "queues_ok H (upd_thread s u f)" using assms(1) by (simp add: queues_ok_def)
  from grows_trans [OF grows_upd [OF assms(2)] grows_insert [OF this assms(3)]] show ?thesis .
qed

lemma grows_move:
  assumes q: "queues_ok H s" and run: "move_to_ready_list H s r w = Some (Ok (s', b))"
  shows "grows s s'"
proof -
  obtain s1 x where g: "get_thread_as_ready s r = Some (Ok (s1, x))"
    and rest: "(case x of None \<Rightarrow> Ok (s1, False)
      | Some t \<Rightarrow> (case insert_ready_thread H (set_wake_reason s1 t w) t of (s'', Ok _) \<Rightarrow> Ok (s'', True) | _ \<Rightarrow> Panic)) = Ok (s', b)"
    using run by (auto simp: move_to_ready_list_def res_simps)
  have s1: "s1 = s \<or> (\<exists>m. s1 = upd_thread s (tr_thread r) (\<lambda>th. th\<lparr>t_status := m\<rparr>))"
    using g by (auto simp: get_thread_as_ready_def split: option.splits kresult.splits if_splits)
  then have g1: "grows s s1" and q1: "queues_ok H s1" using q by (auto simp: queues_ok_def intro: grows_refl grows_upd)
  show ?thesis
  proof (cases x)
    case None
    then show ?thesis using rest g1 by simp
  next
    case (Some t)
    then obtain u where "insert_ready_thread H (set_wake_reason s1 t w) t = (s', Ok u)"
      using rest by (auto split: prod.splits kresult.splits)
    then have "grows s1 s'" unfolding set_wake_reason_def by (rule grows_upd_insert [OF q1, rotated]) simp
    with g1 show ?thesis by (rule grows_trans)
  qed
qed

lemma grows_wake_threads:
  assumes "sched_inv H n s" and "wake_threads H s now = Some (Ok s')"
  shows "grows s s'"
  using assms
proof (induction H s now rule: wake_threads.induct)
  case (1 H s now)
  show ?case
  proof (cases "bh_peek (sc_timeouts s)")
    case None
    then show ?thesis using "1.prems" by (simp add: wake_threads.simps [of H s] grows_refl)
  next
    case (Some x)
    show ?thesis
    proof (cases "timeout_nsec x \<le> now")
      case False
      then show ?thesis using "1.prems" Some by (simp add: wake_threads.simps [of H s] grows_refl)
    next
      case True
      have bh: "bh_ready timeout_layout H timeout_key (sc_timeouts s)" and refs: "\<forall>x \<in># bh_bag (sc_timeouts s). ref_ok (tt_thread x)"
        using "1.prems"(1) by (simp_all add: sched_inv_def queues_ok_def)
      obtain q where q: "bh_pop timeout_key (sc_timeouts s) = (q, Ok (Some x))" "bh_ready timeout_layout H timeout_key q"
        "bh_bag (sc_timeouts s) = add_mset x (bh_bag q)" by (rule bh.pop_some [OF bh Some])
      have inv1: "sched_inv H n (s\<lparr>sc_timeouts := q\<rparr>)"
        using "1.prems"(1) q refs by (simp add: sched_inv_def queues_ok_def)
      obtain s1 b where s1: "move_to_ready_list H (s\<lparr>sc_timeouts := q\<rparr>) (tt_thread x) Timeout = Some (Ok (s1, b))"
        and rec: "wake_threads H s1 now = Some (Ok s')"
        using "1.prems"(2) Some True q(1)
        by (subst (asm) wake_threads.simps) (auto split: option.splits kresult.splits)
      have "sched_inv H n s1" using move_inv [OF inv1 _ s1] refs q(3) by simp
      then have "grows s1 s'" using "1.IH" [OF Some True q(1) [symmetric] refl refl s1 refl refl _ rec] by blast
      moreover have "grows (s\<lparr>sc_timeouts := q\<rparr>) s1" using grows_move [OF _ s1] inv1 by (simp add: sched_inv_def)
      moreover have "grows s (s\<lparr>sc_timeouts := q\<rparr>)" by (rule grows_same) simp_all
      ultimately show ?thesis by (blast intro: grows_trans)
    qed
  qed
qed

lemma grows_post:
  assumes q: "queues_ok H s" and run: "post_switch_handler H s c = Ok s'"
  shows "grows s s'"
proof -
  obtain d where d: "sc_post s c = Some d" using run by (auto simp: post_switch_handler_def res_simps)
  let ?t = "ps_old_thread d" and ?s0 = "s\<lparr>sc_post := (sc_post s)(c := None)\<rparr>"
  let ?s1 = "upd_thread ?s0 ?t (\<lambda>th. th\<lparr>t_rsp := sc_old_rsp s c\<rparr>)"
  have q0: "queues_ok H ?s0" using q by (simp add: queues_ok_def)
  have g0: "grows s ?s0" by (rule grows_same) simp_all
  have g1: "grows s ?s1" by (rule grows_trans [OF g0 grows_upd]) simp
  show ?thesis
  proof (cases "ps_action d")
    case PostNone
    then show ?thesis using run d g1 by (simp add: post_switch_handler_def Let_def)
  next
    case InsertReadyQueue
    then obtain u where "insert_ready_thread H ?s1 ?t = (s', Ok u)"
      using run d by (auto simp: post_switch_handler_def Let_def split: prod.splits kresult.splits)
    from grows_trans [OF g0 grows_upd_insert [OF q0 _ this]] show ?thesis by simp
  next
    case (SetTimeout nsec)
    then have "rbind (ThreadRef_new ?s1 ?t) (\<lambda>r. case insert_thread H ?s1 r nsec of (s2, Ok _) \<Rightarrow> Ok s2 | _ \<Rightarrow> Panic) = Ok s'"
      using run d by (simp add: post_switch_handler_def Let_def)
    then obtain r where "(case insert_thread H ?s1 r nsec of (s2, Ok _) \<Rightarrow> Ok s2 | _ \<Rightarrow> Panic) = Ok s'"
      unfolding rbind_Ok_iff by blast
    then obtain u where "insert_thread H ?s1 r nsec = (s', Ok u)"
      by (auto split: prod.splits kresult.splits)
    then have "grows ?s1 s'" by (intro grows_same) (auto simp: insert_thread_def split: prod.splits)
    with g1 show ?thesis by (rule grows_trans)
  qed
qed

lemma grows_resume:
  assumes q: "queues_ok H s" and run: "resume_suspended_thread H s t = Ok s'"
  shows "grows s s'"
proof -
  obtain s1 where tr: "transition_state s t Suspended Ready = Ok (s1, True)" and
    "(case insert_ready_thread H s1 t of (s'', Ok _) \<Rightarrow> Ok s'' | _ \<Rightarrow> Panic) = Ok s'"
    using run unfolding resume_suspended_thread_def rbind_Ok_iff by (auto split: if_splits)
  then obtain u where u: "insert_ready_thread H s1 t = (s', Ok u)" by (auto split: prod.splits kresult.splits)
  from tr show ?thesis
  proof (cases rule: transition_stateE)
    case (yes th m)
    then show ?thesis using grows_upd_insert [OF q, of "\<lambda>th. th\<lparr>t_status := m\<rparr>" t t s' u] u by simp
  qed simp
qed

lemma grows_destroy:
  assumes "destroy_suspended_thread s t = Ok s'"
  shows "grows s s'"
proof -
  have "transition_state s t Suspended Dead = Ok (s', True)"
    using assms unfolding destroy_suspended_thread_def rbind_Ok_iff by (auto split: if_splits)
  then show ?thesis by (cases rule: transition_stateE) (auto intro: grows_upd)
qed

lemma grows_create:
  assumes q: "queues_ok H s" and new: "sc_threads s t = None"
    and run: "start_thread H (s\<lparr>sc_threads := (sc_threads s)(t \<mapsto> Thread_new stack_top rsp)\<rparr>) t mode = Ok s'"
  shows "grows s s'"
proof -
  let ?s = "s\<lparr>sc_threads := (sc_threads s)(t \<mapsto> Thread_new stack_top rsp)\<rparr>"
  have g: "grows s ?s" using new by (auto simp: grows_def is_alive_def split: if_splits)
  have q1: "queues_ok H ?s" using q by (simp add: queues_ok_def)
  have "grows ?s s'"
  proof (cases mode)
    case StartReady
    then obtain s1 where s1: "set_state ?s t Ready = Ok s1"
      and "(case insert_ready_thread H s1 t of (s2, r) \<Rightarrow> rbind r (\<lambda>_. Ok s2)) = Ok s'"
      using run unfolding start_thread_def by (auto simp: rbind_Ok_iff)
    then obtain u where u: "insert_ready_thread H s1 t = (s', Ok u)" by (auto simp: rbind_Ok_iff split: prod.splits)
    from s1 obtain m where "s1 = upd_thread ?s t (\<lambda>th. th\<lparr>t_status := m\<rparr>)" by (rule set_stateE)
    with u grows_upd_insert [OF q1, of "\<lambda>th. th\<lparr>t_status := m\<rparr>" t t s' u] show ?thesis by simp
  next
    case StartSuspended
    then have "set_state ?s t Suspended = Ok s'" using run by (simp add: start_thread_def)
    then obtain m where "s' = upd_thread ?s t (\<lambda>th. th\<lparr>t_status := m\<rparr>)" by (rule set_stateE)
    then show ?thesis using grows_upd [of "\<lambda>th. th\<lparr>t_status := m\<rparr>" ?s t] by simp
  qed
  with g show ?thesis by (rule grows_trans)
qed

subsection \<open>First in, first out\<close>

primrec is_switch :: "'p sched_event \<Rightarrow> bool" where
  "is_switch (EvSwitch c st a eoi now) = True"
| "is_switch (EvPost c) = False"
| "is_switch (EvResume t) = False"
| "is_switch (EvDestroy t) = False"
| "is_switch (EvWake r w) = False"
| "is_switch (EvTimer now) = False"
| "is_switch (EvKill t) = False"
| "is_switch (EvRun c rsp) = False"
| "is_switch (EvCreate t mode stack_top rsp) = False"
| "is_switch (EvRelease t) = False"

abbreviation switches :: "'p sched_event list \<Rightarrow> nat" where
  "switches es \<equiv> length (filter is_switch es)"

text \<open>A step that is no switch leaves the place of a thread in the list alone.\<close>

lemma step_grows:
  assumes inv: "sched_inv H n s" and step: "sched_step H n s e s'" and no: "\<not> is_switch e"
    and t: "is_alive s t" "e \<noteq> EvKill t" "e \<noteq> EvRelease t"
  shows "is_alive s' t \<and> (\<exists>xs. ready_list s' = ready_list s @ xs)"
proof -
  have q: "queues_ok H s" using inv by (simp add: sched_inv_def)
  have "grows s s' \<or> e = EvKill u \<and> s' = set_dead s u \<or> e = EvRelease u \<and> s' = s\<lparr>sc_threads := (sc_threads s)(u := None)\<rparr>"
    if "u = (case e of EvKill u \<Rightarrow> u | EvRelease u \<Rightarrow> u | _ \<Rightarrow> 0)" for u
    using step that no
    by cases (auto intro: grows_post [OF q] grows_resume [OF q] grows_destroy grows_move [OF q]
        grows_wake_threads [OF inv] grows_create [OF q] grows_same)
  then show ?thesis
    using t by (fastforce simp: grows_def set_dead_def is_alive_def)
qed

text \<open>A switch takes the thread or brings it forward.\<close>

lemma switch_advances:
  assumes inv: "sched_inv H n s" and st: "st \<noteq> Running"
    and list: "ready_list s = pre @ t # post" and t: "is_alive s t"
    and run: "switch_current_thread_to s c st a eoi now = (s', Ok r)"
  shows "is_alive s' t \<and> (sc_current s' c = t \<or> (\<exists>pre'. ready_list s' = pre' @ t # post \<and> length pre' < length pre))"
proof (cases rule: get_next_threadE [OF inv])
  case (1 v)
  obtain v' where "get_next_thread s = (s\<lparr>sc_ready := v'\<rparr>, Ok (case live_ready s of [] \<Rightarrow> None | t # _ \<Rightarrow> Some t))"
    using get_next_thread_spec [OF inv] by blast
  moreover have "live_ready s \<noteq> []" using t by (simp add: list dropWhile_eq_Nil_conv)
  ultimately show ?thesis using 1(1) by (auto split: list.splits)
next
  case (2 v u pre1)
  let ?s1 = "s\<lparr>sc_ready := v\<rparr>" and ?old = "sc_current s c"
  from run st 2(1) obtain s2 s3 th where s2: "set_state ?s1 ?old st = Ok s2" and s3: "set_state s2 u Running = Ok s3"
    and s': "sc_threads s' = sc_threads s3" "sc_ready s' = sc_ready s3" "sc_current s' = (sc_current s3)(c := u)"
    by (auto simp: switch_current_thread_to_def Let_def res_simps split: kresult.splits option.splits if_splits)
  obtain m where m: "s2 = upd_thread ?s1 ?old (\<lambda>th. th\<lparr>t_status := m\<rparr>)" by (rule set_stateE [OF s2])
  obtain m' where m': "s3 = upd_thread s2 u (\<lambda>th. th\<lparr>t_status := m'\<rparr>)" by (rule set_stateE [OF s3])
  have "is_alive s' t = is_alive s3 t" by (simp add: is_alive_def s'(1))
  also have "\<dots> = is_alive s t" by (simp add: m m' is_alive_upd) (simp add: is_alive_def)
  finally have alive: "is_alive s' t" using t by simp
  have rl: "ready_list s' = vec_list v" by (simp add: s'(2) m' m)
  have eq: "pre @ t # post = pre1 @ u # vec_list v" using list 2(3) by simp
  show ?thesis
  proof (cases "length pre = length pre1")
    case True
    then show ?thesis using eq alive s'(3) by simp
  next
    case False
    have "t \<notin> set pre1" using 2(6) t by blast
    then have "\<not> length pre < length pre1" using arg_cong [OF eq, of "\<lambda>xs. xs ! length pre"] by (auto simp: nth_append)
    with False obtain zs where "pre = pre1 @ u # zs"
      using eq by (auto simp: append_eq_append_conv2 append_eq_Cons_conv)
    then have "ready_list s' = zs @ t # post" "length zs < length pre" using eq rl by simp_all
    then show ?thesis using alive by blast
  qed
qed

lemma progress:
  assumes "sched_steps H n s es s'" and "sched_inv H n s" and "ready_list s = pre @ t # post" and "is_alive s t"
    and "EvKill t \<notin> set es" and "EvRelease t \<notin> set es" and "length pre < switches es"
  shows "\<exists>es1 c st a eoi now es2 s1. es = es1 @ EvSwitch c st a eoi now # es2 \<and> switches es1 \<le> length pre \<and>
    sched_steps H n s (es1 @ [EvSwitch c st a eoi now]) s1 \<and> c < n \<and> sc_current s1 c = t"
  using assms
proof (induction arbitrary: pre post rule: sched_steps.induct)
  case (none s)
  then show ?case by simp
next
  case (more s e s1 es s')
  have inv1: "sched_inv H n s1" by (rule step_inv [OF more.prems(1) more.hyps(1)])
  have ne: "e \<noteq> EvKill t" "e \<noteq> EvRelease t" using more.prems(4,5) by auto
  have later: ?case if p: "ready_list s1 = pre1 @ t # post1" "is_alive s1 t" "length pre1 < switches es"
    "(if is_switch e then 1 else 0) + length pre1 \<le> length pre" for pre1 post1
  proof -
    obtain es1 c st a eoi now es2 s2 where h: "es = es1 @ EvSwitch c st a eoi now # es2" "switches es1 \<le> length pre1"
      "sched_steps H n s1 (es1 @ [EvSwitch c st a eoi now]) s2" "c < n" "sc_current s2 c = t"
      using more.IH [OF inv1 p(1,2) _ _ p(3)] more.prems(4,5) by auto
    have "e # es = (e # es1) @ EvSwitch c st a eoi now # es2" using h(1) by simp
    moreover have "switches (e # es1) \<le> length pre" using h(2) p(4) by (simp split: if_splits)
    moreover have "sched_steps H n s ((e # es1) @ [EvSwitch c st a eoi now]) s2" using h(3) more.hyps(1) by auto
    ultimately show ?thesis using h(4,5) by blast
  qed
  show ?case
  proof (cases "is_switch e")
    case False
    obtain xs where "is_alive s1 t" "ready_list s1 = pre @ t # post @ xs"
      using step_grows [OF more.prems(1) more.hyps(1) False more.prems(3) ne] more.prems(2) by auto
    then show ?thesis using later [of pre "post @ xs"] False more.prems(6) by simp
  next
    case True
    then obtain c st a eoi now r where e: "e = EvSwitch c st a eoi now" "c < n" "switch_kind st a"
      "switch_current_thread_to s c st a eoi now = (s1, Ok r)"
      using more.hyps(1) by (auto elim: sched_stepE)
    have "st \<noteq> Running" using e(3) by (auto simp: switch_kind_def split: PostSwitchAction.splits)
    note adv = switch_advances [OF more.prems(1) this more.prems(2,3) e(4)]
    show ?thesis
    proof (cases "sc_current s1 c = t")
      case True
      have "sched_steps H n s ([] @ [EvSwitch c st a eoi now]) s1" using more.hyps(1) e(1) by simp
      then show ?thesis using True e(1,2) by (intro exI [of _ "[]"]) auto
    next
      case False
      then obtain pre1 where "is_alive s1 t" "ready_list s1 = pre1 @ t # post" "length pre1 < length pre" using adv by blast
      then show ?thesis using later [of pre1 post] True more.prems(6) by simp
    qed
  qed
qed

subsection \<open>Timeouts that are due\<close>

text \<open>
  A reference whose generation the thread has reached (the call does not spin) and that is not the
  last one of its thread.
\<close>

definition ref_reached :: "'p sched \<Rightarrow> ThreadRef \<Rightarrow> bool" where
  "ref_reached s r \<longleftrightarrow> tr_generation r + 8 < usize_limit \<and>
     (\<forall>th. sc_threads s (tr_thread r) = Some th \<longrightarrow> t_status th < usize_limit \<and> tr_generation r div 4 \<le> t_status th div 4)"

definition ref_matches :: "'p sched \<Rightarrow> ThreadRef \<Rightarrow> bool" where
  "ref_matches s r \<longleftrightarrow> (\<exists>th. sc_threads s (tr_thread r) = Some th \<and> t_status th = tr_generation r)"

definition woken :: "'p WakeReason \<Rightarrow> 'p Thread \<Rightarrow> 'p Thread" where
  "woken w th = th\<lparr>t_status := 4 * Suc (t_status th div 4) + ThreadState_val Ready, t_wake_reason := w\<rparr>"

definition waits_for :: "'p sched \<Rightarrow> nat \<Rightarrow> tid \<Rightarrow> bool" where
  "waits_for s now t \<longleftrightarrow>
     (\<exists>x \<in># bh_bag (sc_timeouts s). timeout_nsec x \<le> now \<and> tr_thread (tt_thread x) = t \<and> ref_matches s (tt_thread x))"

abbreviation due :: "'p sched \<Rightarrow> nat \<Rightarrow> ThreadTimeout multiset" where
  "due s now \<equiv> filter_mset (\<lambda>x. timeout_nsec x \<le> now) (bh_bag (sc_timeouts s))"

lemma move_effect:
  assumes q: "queues_ok H s" and r: "ref_reached s r" and room: "v_len (sc_ready s) < Vec_capacity (sc_ready s)"
  obtains (no) "\<not> ref_matches s r" "move_to_ready_list H s r w = Some (Ok (s, False))"
    | (yes) s' where "ref_matches s r" "move_to_ready_list H s r w = Some (Ok (s', True))"
        "sc_threads s' = (sc_threads s)(tr_thread r := map_option (woken w) (sc_threads s (tr_thread r)))"
        "ready_list s' = ready_list s @ [tr_thread r]" "Vec_capacity (sc_ready s') = Vec_capacity (sc_ready s)"
        "v_len (sc_ready s') = Suc (v_len (sc_ready s))"
proof (cases "ref_matches s r")
  case False
  have "tr_generation r < usize_limit" using r by (simp add: ref_reached_def)
  then have "get_thread_as_ready s r = Some (Ok (s, None))"
    using False r next_status_eq [of "tr_generation r" Ready]
    by (auto simp: get_thread_as_ready_def ref_matches_def ref_reached_def generation_bits_eq split: option.splits)
  with False show thesis by (intro no) (simp_all add: move_to_ready_list_def)
next
  case True
  then obtain th where th: "sc_threads s (tr_thread r) = Some th" "t_status th = tr_generation r"
    by (auto simp: ref_matches_def)
  let ?t = "tr_thread r" and ?m = "4 * Suc (tr_generation r div 4) + ThreadState_val Ready"
  let ?s1 = "set_wake_reason (upd_thread s ?t (\<lambda>th. th\<lparr>t_status := ?m\<rparr>)) ?t w"
  have "get_thread_as_ready s r = Some (Ok (upd_thread s ?t (\<lambda>th. th\<lparr>t_status := ?m\<rparr>), Some ?t))"
    using th r next_status_eq [of "tr_generation r" Ready] by (simp add: get_thread_as_ready_def ref_reached_def)
  moreover have q1: "queues_ok H ?s1" using q by (simp add: queues_ok_def set_wake_reason_def)
  obtain v where v: "insert_ready_thread H ?s1 ?t = (?s1\<lparr>sc_ready := v\<rparr>, Ok ())" "vec_list v = ready_list ?s1 @ [?t]"
    "Vec_capacity v = Vec_capacity (sc_ready ?s1)" "v_len v = Suc (v_len (sc_ready ?s1))"
    by (rule insert_ready_room [OF q1]) (use room in \<open>simp add: set_wake_reason_def\<close>)
  ultimately have "move_to_ready_list H s r w = Some (Ok (?s1\<lparr>sc_ready := v\<rparr>, True))"
    by (simp add: move_to_ready_list_def)
  moreover have "sc_threads ?s1 = (sc_threads s)(?t := map_option (woken w) (sc_threads s ?t))"
    by (simp add: fun_eq_iff set_wake_reason_def th woken_def)
  ultimately show thesis using v True by (intro yes [of "?s1\<lparr>sc_ready := v\<rparr>"]) (simp_all add: set_wake_reason_def)
qed

lemma woken_status:
  "t_status (woken w th) div 4 = Suc (t_status th div 4)" "t_state (woken w th) = Ready"
  using state_of_add [of "Suc (t_status th div 4)" Ready] by (simp_all add: woken_def)

lemma ref_reached_woken:
  assumes r: "ref_reached s r" and x: "ref_reached s x" "ref_matches s r"
    and s': "sc_threads s' = (sc_threads s)(tr_thread r := map_option (woken w) (sc_threads s (tr_thread r)))"
  shows "ref_reached s' x"
proof -
  obtain th where th: "sc_threads s (tr_thread r) = Some th" "t_status th = tr_generation r" "tr_generation r + 8 < usize_limit"
    using r x(2) by (auto simp: ref_matches_def ref_reached_def)
  have "4 * (tr_generation r div 4) \<le> tr_generation r" by simp
  then have "t_status (woken w th) < usize_limit" using th(2,3) by (simp add: woken_def)
  then show ?thesis using x(1) th by (auto simp: ref_reached_def s' woken_status le_SucI)
qed

lemma ref_matches_woken:
  assumes "ref_ok x"
    and s': "sc_threads s' = (sc_threads s)(tr_thread r := map_option (woken w) (sc_threads s (tr_thread r)))"
  shows "ref_matches s' x \<longleftrightarrow> tr_thread x \<noteq> tr_thread r \<and> ref_matches s x"
proof -
  have "t_status (woken w th) \<noteq> tr_generation x" for th
    using woken_status(2) [of w th] assms(1) by (auto simp: ref_ok_def)
  then show ?thesis by (auto simp: ref_matches_def s')
qed

lemma wake_threads_effect:
  assumes "sched_inv H n s" and "\<forall>x \<in># due s now. ref_reached s (tt_thread x)"
    and "v_len (sc_ready s) + size (due s now) \<le> Vec_capacity (sc_ready s)"
  shows "\<exists>s' ts. wake_threads H s now = Some (Ok s') \<and>
    bh_bag (sc_timeouts s') = filter_mset (\<lambda>x. now < timeout_nsec x) (bh_bag (sc_timeouts s)) \<and>
    ready_list s' = ready_list s @ ts \<and> distinct ts \<and> set ts = {t. waits_for s now t} \<and>
    (\<forall>t. sc_threads s' t = (if waits_for s now t then map_option (woken Timeout) (sc_threads s t) else sc_threads s t))"
  using assms
proof (induction "size (bh_bag (sc_timeouts s))" arbitrary: s)
  case 0
  then have e: "bh_bag (sc_timeouts s) = {#}" by simp
  have "bh_ready timeout_layout H timeout_key (sc_timeouts s)" using "0.prems"(1) by (simp add: sched_inv_def queues_ok_def)
  then have "bh_peek (sc_timeouts s) = None" using bh.peek_none e by blast
  then show ?case using e by (simp add: wake_threads.simps [of H s] waits_for_def)
next
  case (Suc k)
  have q: "queues_ok H s" using Suc.prems(1) by (simp add: sched_inv_def)
  then have bh: "bh_ready timeout_layout H timeout_key (sc_timeouts s)"
    and refs: "\<And>x. x \<in># bh_bag (sc_timeouts s) \<Longrightarrow> ref_ok (tt_thread x)" by (simp_all add: queues_ok_def)
  have "bh_bag (sc_timeouts s) \<noteq> {#}" using Suc.hyps(2) by auto
  then obtain x where x: "bh_peek (sc_timeouts s) = Some x" using bh.peek_none [OF bh] by (cases "bh_peek (sc_timeouts s)") auto
  show ?case
  proof (cases "timeout_nsec x \<le> now")
    case False
    have "\<not> timeout_nsec y \<le> now" if "y \<in># bh_bag (sc_timeouts s)" for y
      using bh.peek_max [OF bh x] that False by (auto simp: timeout_key_def)
    then have "filter_mset (\<lambda>x. now < timeout_nsec x) (bh_bag (sc_timeouts s)) = bh_bag (sc_timeouts s)"
      "\<not> waits_for s now t" for t by (fastforce simp: filter_mset_eq_conv waits_for_def not_le)+
    then show ?thesis using False x by (simp add: wake_threads.simps [of H s])
  next
    case True
    obtain q1 where q1: "bh_pop timeout_key (sc_timeouts s) = (q1, Ok (Some x))" "bh_ready timeout_layout H timeout_key q1"
      "bh_bag (sc_timeouts s) = add_mset x (bh_bag q1)" by (rule bh.pop_some [OF bh x])
    let ?s0 = "s\<lparr>sc_timeouts := q1\<rparr>" and ?t = "tr_thread (tt_thread x)"
    have inv0: "sched_inv H n ?s0" and q0: "queues_ok H ?s0"
      using Suc.prems(1) q1 refs by (simp_all add: sched_inv_def queues_ok_def)
    have reached: "ref_reached s (tt_thread y)" if "y \<in># bh_bag (sc_timeouts s)" "timeout_nsec y \<le> now" for y
      using Suc.prems(2) that by simp
    have r0: "ref_reached ?s0 (tt_thread x)" using reached [of x] q1(3) True by (simp add: ref_reached_def)
    have room: "v_len (sc_ready ?s0) < Vec_capacity (sc_ready ?s0)" using Suc.prems(3) q1(3) True by simp
    have k: "k = size (bh_bag q1)" using Suc.hyps(2) q1(3) by simp
    have run: "wake_threads H s now = wake_threads H s1 now"
      if "move_to_ready_list H ?s0 (tt_thread x) Timeout = Some (Ok (s1, b))" for s1 b
      using x True q1(1) that by (subst wake_threads.simps) simp
    have m0: "ref_matches ?s0 = ref_matches s" by (simp add: ref_matches_def fun_eq_iff)
    have bag: "filter_mset (\<lambda>x. now < timeout_nsec x) (bh_bag (sc_timeouts s)) = filter_mset (\<lambda>x. now < timeout_nsec x) (bh_bag q1)"
      using q1(3) True by simp
    show ?thesis
    proof (cases rule: move_effect [OF q0 r0 room, of Timeout])
      case 1
      have w: "waits_for ?s0 now = waits_for s now"
        using 1(1) by (auto simp: waits_for_def fun_eq_iff q1(3) m0)
      have "\<forall>y \<in># due ?s0 now. ref_reached ?s0 (tt_thread y)"
        using reached q1(3) by (auto simp: ref_reached_def)
      moreover have "v_len (sc_ready ?s0) + size (due ?s0 now) \<le> Vec_capacity (sc_ready ?s0)"
        using Suc.prems(3) q1(3) True by simp
      ultimately show ?thesis
        using Suc.hyps(1) [of ?s0] k inv0 unfolding run [OF 1(2)] bag w by (simp cong: if_cong)
    next
      case (2 s1)
      have st1: "sc_timeouts s1 = q1" using move_keeps_timeouts [OF 2(2)] by simp
      have inv1: "sched_inv H n s1" using move_inv [OF inv0 _ 2(2)] refs q1(3) by simp
      have th: "sc_threads s1 = (sc_threads s)(?t := map_option (woken Timeout) (sc_threads s ?t))" using 2(3) by simp
      have m: "ref_matches s1 (tt_thread y) \<longleftrightarrow> tr_thread (tt_thread y) \<noteq> ?t \<and> ref_matches s (tt_thread y)"
        if "y \<in># bh_bag q1" for y using ref_matches_woken [OF refs th] that q1(3) by simp
      have w: "waits_for s now u \<longleftrightarrow> u = ?t \<or> waits_for s1 now u" for u
        using 2(1) m True unfolding waits_for_def st1 q1(3) m0 by auto
      have wt: "\<not> waits_for s1 now ?t" using m by (auto simp: waits_for_def st1)
      have "ref_reached s1 (tt_thread y)" if "y \<in># due s1 now" for y
        using ref_reached_woken [of s "tt_thread x" "tt_thread y", OF _ _ _ th] reached 2(1) that q1(3) True
        by (simp add: st1 m0)
      moreover have "v_len (sc_ready s1) + size (due s1 now) \<le> Vec_capacity (sc_ready s1)"
        using Suc.prems(3) q1(3) True 2(5,6) by (simp add: st1)
      ultimately obtain s' ts where s': "wake_threads H s1 now = Some (Ok s')"
        "bh_bag (sc_timeouts s') = filter_mset (\<lambda>x. now < timeout_nsec x) (bh_bag (sc_timeouts s1))"
        "ready_list s' = ready_list s1 @ ts" "distinct ts" "set ts = {t. waits_for s1 now t}"
        "\<And>t. sc_threads s' t = (if waits_for s1 now t then map_option (woken Timeout) (sc_threads s1 t) else sc_threads s1 t)"
        using Suc.hyps(1) [of s1] k inv1 st1 by auto
      have "sc_threads s' u = (if waits_for s now u then map_option (woken Timeout) (sc_threads s u) else sc_threads s u)" for u
        using wt by (cases "u = ?t") (simp_all add: s'(6) w th)
      moreover have "ready_list s' = ready_list s @ ?t # ts" "distinct (?t # ts)" "set (?t # ts) = {t. waits_for s now t}"
        using s'(3-5) 2(4) wt w by auto
      moreover have "wake_threads H s now = Some (Ok s')" using run [OF 2(2)] s'(1) by simp
      ultimately show ?thesis using s'(2) bag st1 by (intro exI [of _ s'] exI [of _ "?t # ts"]) simp
    qed
  qed
qed

subsection \<open>Properties\<close>

text \<open>
  C12.  Scheduling is fair: a living thread at position \<open>i\<close> of the ready list is running after at
  most \<open>i + 1\<close> switches of whatever processors, whatever else happens in between (threads wake,
  are created, resumed, destroyed), unless it is killed.
\<close>

theorem ready_thread_runs:
  assumes "sched_inv H n s" and "ready_list s = pre @ t # post" and "is_alive s t"
    and "sched_steps H n s es s'" and "EvKill t \<notin> set es" and "EvRelease t \<notin> set es"
    and "length pre < switches es"
  shows "\<exists>es1 c st a eoi now es2 s1. es = es1 @ EvSwitch c st a eoi now # es2 \<and> switches es1 \<le> length pre \<and>
    sched_steps H n s (es1 @ [EvSwitch c st a eoi now]) s1 \<and> c < n \<and> sc_current s1 c = t"
  by (rule progress [OF assms(4,1,2,3,5,6,7)])

theorem ready_thread_runs_witness:
  "\<exists>(s :: unit sched) es. sched_inv small_heap 2 s \<and> ready_list s = [2, 3] \<and> switches es = 2 \<and>
     (\<exists>es1 c st a eoi now es2 s1. es = es1 @ EvSwitch c st a eoi now # es2 \<and> switches es1 \<le> 1 \<and>
        sched_steps small_heap 2 s (es1 @ [EvSwitch c st a eoi now]) s1 \<and> c < 2 \<and> sc_current s1 c = 3)"
proof -
  have th: "t_state (example_thread 6 Timeout 0x400) = Suspended" by (simp add: example_thread_def)
  obtain s1 m where s1: "resume_suspended_thread small_heap example_sched 3 = Ok s1" "ready_list s1 = [2, 3]"
    "sc_threads s1 = (sc_threads example_sched)(3 \<mapsto> (example_thread 6 Timeout 0x400)\<lparr>t_status := m\<rparr>)"
    "m div 4 = Suc (6 div 4)" "sc_current s1 = sc_current example_sched" "sc_post s1 = sc_post example_sched"
    by (rule resume_effect [OF example_sched_inv example_facts(1) example_facts(10) th example_facts(4)])
      (simp_all add: example_facts example_thread_def)
  have inv1: "sched_inv small_heap 2 s1" by (rule resume_inv [OF example_sched_inv s1(1)])
  have "m < 12" using s1(4) div_mult_mod_eq [of m 4] mod_less_divisor [of 4 m] by simp
  then have gen: "generations_left s1" and small: "\<And>t th. sc_threads s1 t = Some th \<Longrightarrow> t_status th < 12"
    using example_facts(1) by (auto simp: generations_left_def s1(3) example_sched_def example_thread_def split: if_splits)
  have al: "is_alive s1 2" "is_alive s1 3"
    by (simp_all add: is_alive_def s1(3) example_facts(9)) (simp_all add: example_thread_def)
  then have live: "live_ready s1 = [2, 3]" by (simp add: s1(2))
  obtain s2 x where s2: "switch_current_thread_to s1 0 Suspended PostNone False 7 = (s2, Ok (Inr ()))"
    "ready_list s2 = [3]" "sc_current s2 = (sc_current s1)(0 := 2)"
    "sc_post s2 = (sc_post s1)(0 \<mapsto> \<lparr>ps_old_thread = sc_current s1 0, ps_action = PostNone, ps_send_eoi = False\<rparr>)"
    "\<And>u. u \<noteq> 2 \<Longrightarrow> u \<noteq> sc_current s1 0 \<Longrightarrow> sc_threads s2 u = sc_threads s1 u"
    "sc_threads s1 2 = Some x" "\<exists>m. sc_threads s2 2 = Some (x\<lparr>t_status := m\<rparr>) \<and> m div 4 = Suc (t_status x div 4)"
    "\<exists>old m. sc_threads s1 (sc_current s1 0) = Some old \<and> sc_threads s2 (sc_current s1 0) = Some (old\<lparr>t_status := m\<rparr>) \<and>
       m div 4 = Suc (t_status old div 4)"
    by (rule switch_effect [OF inv1 _ _ gen live, of 0 Suspended PostNone False 7]) (simp, simp, blast)
  have step2: "sched_step small_heap 2 s1 (EvSwitch 0 Suspended PostNone False 7) s2"
    by (rule sched_step.switch [OF _ _ _ s2(1)]) (simp_all add: s1(6) example_facts switch_kind_def)
  have inv2: "sched_inv small_heap 2 s2" by (rule step_inv [OF inv1 step2])
  have cur: "sc_current s1 c = c" for c by (simp add: s1(5) example_facts)
  have gen2: "generations_left s2"
    unfolding generations_left_def
  proof (intro allI impI)
    fix t th
    assume t: "sc_threads s2 t = Some th"
    have less: "k < 20" if "k div 4 = Suc (t_status y div 4)" "sc_threads s1 u = Some y" for k y u
    proof -
      have "t_status y div 4 < 4" using small [OF that(2)] by simp
      then show ?thesis using that(1) div_mult_mod_eq [of k 4] mod_less_divisor [of 4 k] by linarith
    qed
    have "t_status th < 20"
    proof (cases "t = 2 \<or> t = 0")
      case True
      then show ?thesis using t s2(6,7,8) less by (auto simp: cur)
    next
      case False
      then have "sc_threads s1 t = Some th" using t s2(5) by (simp add: cur)
      then show ?thesis using small by fastforce
    qed
    then show "t_status th + 8 < usize_limit" by simp
  qed
  have "is_alive s2 3" using al(2) s2(5) by (simp add: is_alive_def cur)
  then have live2: "live_ready s2 = [3]" by (simp add: s2(2))
  obtain s3 where s3: "switch_current_thread_to s2 1 Suspended PostNone False 9 = (s3, Ok (Inr ()))"
    by (rule switch_effect [OF inv2 _ _ gen2 live2, of 1 Suspended PostNone False 9]) simp_all
  have "sched_step small_heap 2 s2 (EvSwitch 1 Suspended PostNone False 9) s3"
    by (rule sched_step.switch [OF _ _ _ s3]) (simp_all add: s2(4) s1(6) example_facts switch_kind_def)
  then have steps: "sched_steps small_heap 2 s1 [EvSwitch 0 Suspended PostNone False 7, EvSwitch 1 Suspended PostNone False 9] s3"
    using step2 by auto
  have one: "length [2 :: tid] = 1" by simp
  note runs = ready_thread_runs [OF inv1 _ al(2) steps, of "[2]" "[]", unfolded one]
  let ?es = "[EvSwitch 0 Suspended PostNone False 7, EvSwitch 1 Suspended PostNone False 9] :: unit sched_event list"
  have two: "switches ?es = 2" "1 < switches ?es" and no: "ready_list s1 = [2] @ 3 # []"
    "EvKill 3 \<notin> set ?es" "EvRelease 3 \<notin> set ?es" by (simp_all add: s1(2))
  show ?thesis
    by (rule exI [of _ s1], rule exI [of _ ?es]) (intro conjI inv1 s1(2) two(1) runs [OF no two(2)])
qed


lemma example_timeouts:
  "bh_bag (sc_timeouts example_sched) = {#\<lparr>timeout_nsec = 50, tt_thread = \<lparr>tr_thread = 3, tr_generation = 6\<rparr>\<rparr>#}"
  by (simp add: example_sched_def bh_bag_def vec_list_def)


end
