(* ===== verification/Aser_Bytes.thy ===== *)
theory Aser_Bytes
  imports Prelude
begin

text \<open>
  Bytes as the message format of \<^verbatim>\<open>userland/aser\<close> uses them: integers in little endian order
  (\<open>to_le_bytes\<close> and \<open>from_le_bytes\<close> of the integer types), the validity check behind
  \<open>str::from_utf8\<close>, the scalar values of \<open>char\<close>, and the three-way comparisons that
  \<open>derive(Ord)\<close> generates.  Signed and unsigned integers of a width are the words of that width; a
  cast between them is the identity.
\<close>

type_synonym byte = "8 word"

subsection \<open>Little endian integers\<close>

primrec le_bytes :: "nat \<Rightarrow> nat \<Rightarrow> byte list" where
  "le_bytes 0 x = []"
| "le_bytes (Suc n) x = of_nat (x mod 256) # le_bytes n (x div 256)"

primrec from_le :: "byte list \<Rightarrow> nat" where
  "from_le [] = 0"
| "from_le (b # bs) = unat b + 256 * from_le bs"

lemma length_le_bytes [simp]: "length (le_bytes n x) = n"
  by (induction n arbitrary: x) simp_all

lemma unat_byte_less: "unat (b :: byte) < 256"
  using unsigned_less [of b, where ?'a = nat] by simp

lemma unat_byte [simp]: "unat (of_nat (x mod 256) :: byte) = x mod 256"
  by (simp add: unat_of_nat)

lemma from_le_bytes: "x < 256 ^ n \<Longrightarrow> from_le (le_bytes n x) = x"
proof (induction n arbitrary: x)
  case (Suc n)
  have "x div 256 < 256 ^ n" using Suc.prems by (simp add: less_mult_imp_div_less mult.commute)
  with Suc.IH show ?case by simp
qed simp

lemma from_le_less: "from_le bs < 256 ^ length bs"
proof (induction bs)
  case (Cons b bs)
  have "unat b < 256" by (rule unat_byte_less)
  moreover have "Suc (from_le bs) \<le> 256 ^ length bs" using Cons.IH by simp
  then have "256 * Suc (from_le bs) \<le> 256 * 256 ^ length bs" by (rule mult_le_mono2)
  ultimately show ?case by simp
qed simp

lemma le_bytes_from: "le_bytes (length bs) (from_le bs) = bs"
proof (induction bs)
  case (Cons b bs)
  have b: "unat b < 256" by (rule unat_byte_less)
  then have "(unat b + 256 * from_le bs) div 256 = from_le bs" by simp
  moreover have "(of_nat ((unat b + 256 * from_le bs) mod 256) :: byte) = b" using b by simp
  ultimately show ?case using Cons.IH by simp
qed simp

lemma word_le_bytes:
  fixes w :: "'a :: len word"
  assumes "LENGTH('a) = 8 * n"
  shows "(of_nat (from_le (le_bytes n (unat w))) :: 'a word) = w"
proof -
  have "unat w < 2 ^ (8 * n)" using unsigned_less [of w, where ?'a = nat] assms by simp
  then have "unat w < 256 ^ n" by (simp add: power_mult)
  then show ?thesis by (simp add: from_le_bytes)
qed

subsection \<open>UTF-8\<close>

text \<open>The well-formed sequences of bytes of the Unicode standard.\<close>

definition utf8_cont :: "byte \<Rightarrow> bool" where
  "utf8_cont b \<longleftrightarrow> 0x80 \<le> unat b \<and> unat b \<le> 0xBF"

fun utf8_valid :: "byte list \<Rightarrow> bool" where
  "utf8_valid [] = True"
| "utf8_valid (b0 # bs) =
     (let n = unat b0
      in if n \<le> 0x7F then utf8_valid bs
         else if 0xC2 \<le> n \<and> n \<le> 0xDF then
           (case bs of b1 # r \<Rightarrow> utf8_cont b1 \<and> utf8_valid r | _ \<Rightarrow> False)
         else if 0xE0 \<le> n \<and> n \<le> 0xEF then
           (case bs of
              b1 # b2 # r \<Rightarrow>
                (if n = 0xE0 then 0xA0 else 0x80) \<le> unat b1 \<and> unat b1 \<le> (if n = 0xED then 0x9F else 0xBF) \<and>
                utf8_cont b2 \<and> utf8_valid r
            | _ \<Rightarrow> False)
         else if 0xF0 \<le> n \<and> n \<le> 0xF4 then
           (case bs of
              b1 # b2 # b3 # r \<Rightarrow>
                (if n = 0xF0 then 0x90 else 0x80) \<le> unat b1 \<and> unat b1 \<le> (if n = 0xF4 then 0x8F else 0xBF) \<and>
                utf8_cont b2 \<and> utf8_cont b3 \<and> utf8_valid r
            | _ \<Rightarrow> False)
         else False)"

definition char_valid :: "32 word \<Rightarrow> bool" where
  "char_valid c \<longleftrightarrow> unat c < 0xD800 \<or> (0xE000 \<le> unat c \<and> unat c \<le> 0x10FFFF)"

subsection \<open>Comparisons\<close>

datatype ordering = Less | Equal | Greater

primrec invert :: "ordering \<Rightarrow> ordering" where
  "invert Less = Greater"
| "invert Equal = Equal"
| "invert Greater = Less"

definition cmp :: "'a :: linorder \<Rightarrow> 'a \<Rightarrow> ordering" where
  "cmp a b = (if a < b then Less else if a = b then Equal else Greater)"

definition then_cmp :: "ordering \<Rightarrow> ordering \<Rightarrow> ordering" where
  "then_cmp a b = (case a of Equal \<Rightarrow> b | _ \<Rightarrow> a)"

text \<open>Slices and vectors are compared element by element, a proper prefix is less.\<close>

fun lex_cmp :: "('a \<Rightarrow> 'a \<Rightarrow> ordering) \<Rightarrow> 'a list \<Rightarrow> 'a list \<Rightarrow> ordering" where
  "lex_cmp f [] [] = Equal"
| "lex_cmp f [] (y # ys) = Less"
| "lex_cmp f (x # xs) [] = Greater"
| "lex_cmp f (x # xs) (y # ys) = then_cmp (f x y) (lex_cmp f xs ys)"

definition pair_cmp :: "('a \<Rightarrow> 'a \<Rightarrow> ordering) \<Rightarrow> ('b \<Rightarrow> 'b \<Rightarrow> ordering) \<Rightarrow> 'a \<times> 'b \<Rightarrow> 'a \<times> 'b \<Rightarrow> ordering" where
  "pair_cmp f g p q = then_cmp (f (fst p) (fst q)) (g (snd p) (snd q))"

lemma pair_cmp_cong [fundef_cong]:
  assumes "p = p'" and "q = q'" and "\<And>x. f (fst p') x = f' (fst p') x" and "\<And>x. g (snd p') x = g' (snd p') x"
  shows "pair_cmp f g p q = pair_cmp f' g' p' q'"
  using assms by (simp add: pair_cmp_def)

lemma lex_cmp_cong [fundef_cong]:
  assumes "xs = xs'" and "ys = ys'" and "\<And>x y. x \<in> set xs' \<Longrightarrow> f x y = g x y"
  shows "lex_cmp f xs ys = lex_cmp g xs' ys'"
  using assms(3) unfolding assms(1,2)
  by (induction g xs' ys' rule: lex_cmp.induct) simp_all

text \<open>What makes a comparison a total order, at one element.\<close>

definition cmp_ok :: "('a \<Rightarrow> 'a \<Rightarrow> ordering) \<Rightarrow> 'a \<Rightarrow> bool" where
  "cmp_ok f a \<longleftrightarrow> (\<forall>b. f b a = invert (f a b)) \<and> (\<forall>b. f a b = Equal \<longleftrightarrow> a = b) \<and>
     (\<forall>b c. f a b = Less \<longrightarrow> f b c = Less \<or> f b c = Equal \<longrightarrow> f a c = Less)"

lemma cmp_okD:
  assumes "cmp_ok f a"
  shows "f b a = invert (f a b)" "f a b = Equal \<longleftrightarrow> a = b" 
    "f a b = Less \<Longrightarrow> f b c = Less \<or> f b c = Equal \<Longrightarrow> f a c = Less"
  using assms unfolding cmp_ok_def by blast+

lemma invert_simps [simp]: "invert x = Equal \<longleftrightarrow> x = Equal" "invert (invert x) = x"
  by (cases x; simp)+

lemma then_cmp_simps [simp]:
  "then_cmp a b = Equal \<longleftrightarrow> a = Equal \<and> b = Equal" "then_cmp a b = Less \<longleftrightarrow> a = Less \<or> a = Equal \<and> b = Less"
  "invert (then_cmp a b) = then_cmp (invert a) (invert b)"
  by (cases a; simp add: then_cmp_def)+

lemma then_cmp_trans:
  assumes f: "cmp_ok f x"
    and xy: "then_cmp (f x y) g1 = Less" and yz: "then_cmp (f y z) g2 = Less \<or> then_cmp (f y z) g2 = Equal"
    and g: "g1 = Less \<Longrightarrow> g2 = Less \<or> g2 = Equal \<Longrightarrow> g3 = Less"
  shows "then_cmp (f x z) g3 = Less"
proof (cases "f x y")
  case Less
  moreover have "f y z = Less \<or> f y z = Equal" using yz by auto
  ultimately show ?thesis using cmp_okD(3) [OF f] by simp
next
  case Equal
  then have "x = y" using cmp_okD(2) [OF f] by simp
  then show ?thesis using Equal xy yz g by auto
next
  case Greater
  then show ?thesis using xy by simp
qed

lemma cmp_ok_cmp: "cmp_ok cmp (a :: 'a :: linorder)"
  by (auto simp: cmp_ok_def cmp_def split: if_splits)

lemma cmp_ok_key:
  assumes "inj key" and "cmp_ok f (key a)"
  shows "cmp_ok (\<lambda>x y. f (key x) (key y)) a"
  using assms(2) inj_eq [OF assms(1)] unfolding cmp_ok_def by metis

lemma lex_cmp_ok: "(\<And>x. x \<in> set xs \<Longrightarrow> cmp_ok f x) \<Longrightarrow> cmp_ok (lex_cmp f) xs"
proof (induction xs)
  case Nil
  have "lex_cmp f ys [] = invert (lex_cmp f [] ys)" "lex_cmp f [] ys = Equal \<longleftrightarrow> [] = ys"
    "lex_cmp f [] ys = Less \<Longrightarrow> lex_cmp f ys zs = Less \<or> lex_cmp f ys zs = Equal \<Longrightarrow> lex_cmp f [] zs = Less" for ys zs
    by (cases ys; cases zs; simp)+
  then show ?case by (simp add: cmp_ok_def)
next
  case (Cons x xs)
  have x: "cmp_ok f x" and xs: "cmp_ok (lex_cmp f) xs" using Cons by simp_all
  have "lex_cmp f ys (x # xs) = invert (lex_cmp f (x # xs) ys)" for ys
    by (cases ys) (simp_all add: cmp_okD(1) [OF x] cmp_okD(1) [OF xs])
  moreover have "lex_cmp f (x # xs) ys = Equal \<longleftrightarrow> x # xs = ys" for ys
    by (cases ys) (simp_all add: cmp_okD(2) [OF x] cmp_okD(2) [OF xs])
  moreover have "lex_cmp f (x # xs) zs = Less" 
    if "lex_cmp f (x # xs) ys = Less" "lex_cmp f ys zs = Less \<or> lex_cmp f ys zs = Equal" for ys zs
  proof (cases ys)
    case Y: (Cons y ys')
    then show ?thesis
    proof (cases zs)
      case Z: (Cons z zs')
      show ?thesis
        using that unfolding Y Z lex_cmp.simps by (rule then_cmp_trans [OF x]) (rule cmp_okD(3) [OF xs])
    qed (use that in simp)
  qed (use that in simp)
  ultimately show ?case by (simp add: cmp_ok_def)
qed

lemma pair_cmp_ok:
  assumes "cmp_ok f (fst p)" and "cmp_ok g (snd p)"
  shows "cmp_ok (pair_cmp f g) p"
proof -
  have "pair_cmp f g q p = invert (pair_cmp f g p q)" for q
    by (simp add: pair_cmp_def cmp_okD(1) [OF assms(1)] cmp_okD(1) [OF assms(2)])
  moreover have "pair_cmp f g p q = Equal \<longleftrightarrow> p = q" for q
    by (simp add: pair_cmp_def cmp_okD(2) [OF assms(1)] cmp_okD(2) [OF assms(2)] prod_eq_iff)
  moreover have "pair_cmp f g p r = Less"
    if "pair_cmp f g p q = Less" "pair_cmp f g q r = Less \<or> pair_cmp f g q r = Equal" for q r
    using that unfolding pair_cmp_def by (rule then_cmp_trans [OF assms(1)]) (rule cmp_okD(3) [OF assms(2)])
  ultimately show ?thesis unfolding cmp_ok_def by blast
qed

end
