(* ===== verification/Aser_Value.thy ===== *)
theory Aser_Value
  imports Aser_Bytes Cap_Id
begin

text \<open>
  The data of the message format (\<^verbatim>\<open>userland/aser/src/lib.rs\<close> and \<^verbatim>\<open>value/mod.rs\<close>): its errors,
  the type bytes, and \<open>Value\<close>, which can hold any message.  Strings are their bytes, floating point
  numbers their bits.  The order that \<open>derive(Ord)\<close> gives to \<open>Value\<close> is a linear order, and the
  \<open>BTreeMap\<close> of a message is the list of its entries in that order.
\<close>

subsection \<open>Results\<close>

datatype AserError =
    SerializeMessage | DeserializeMessage | TooManyCapabilities | ExpectedCapablity | MultipleCapabilties
  | FormattingError | EndOfInput | InvalidDataType | InvalidUtf8 | UnexpectedTerminator
  | EnumUnexpectedData | InvalidCapabilityIndex | InvalidCapabilityId | TrailingInput

text \<open>\<open>AFuel\<close> is the outcome of a recursion that was cut off; it is shown not to occur.\<close>

datatype 'a aresult = AOk 'a | AErr AserError | APanic | AFuel

primrec abind :: "'a aresult \<Rightarrow> ('a \<Rightarrow> 'b aresult) \<Rightarrow> 'b aresult" where
  "abind (AOk x) f = f x"
| "abind (AErr e) f = AErr e"
| "abind APanic f = APanic"
| "abind AFuel f = AFuel"

lemma abind_cong [fundef_cong]:
  assumes "m = m'" and "\<And>x. m' = AOk x \<Longrightarrow> f x = g x"
  shows "abind m f = abind m' g"
  using assms by (cases m') simp_all

lemma abind_AOk_iff: "abind m f = AOk y \<longleftrightarrow> (\<exists>x. m = AOk x \<and> f x = AOk y)"
  by (cases m) simp_all

text \<open>A loop over a list that stops at the first failure.\<close>

primrec fold_a :: "('a \<Rightarrow> 's \<Rightarrow> 's aresult) \<Rightarrow> 'a list \<Rightarrow> 's \<Rightarrow> 's aresult" where
  "fold_a f [] s = AOk s"
| "fold_a f (x # xs) s = abind (f x s) (fold_a f xs)"

lemma fold_a_cong [fundef_cong]:
  assumes "xs = ys" and "s = t" and "\<And>x s. x \<in> set ys \<Longrightarrow> f x s = g x s"
  shows "fold_a f xs s = fold_a g ys t"
  using assms(3) unfolding assms(1,2)
proof (induction ys arbitrary: t)
  case (Cons y ys)
  then show ?case by (auto intro!: abind_cong)
qed simp

definition a_ok_or :: "'a option \<Rightarrow> AserError \<Rightarrow> 'a aresult" where
  "a_ok_or x e = (case x of None \<Rightarrow> AErr e | Some v \<Rightarrow> AOk v)"

lemma a_ok_or_simps [simp]: "a_ok_or (Some v) e = AOk v" "a_ok_or None e = AErr e"
  by (simp_all add: a_ok_or_def)

subsection \<open>Type bytes\<close>

datatype DataType =
  TNull | TTrue | TFalse | TI8 | TI16 | TI32 | TI64 | TI128 | TU8 | TU16 | TU32 | TU64 | TU128 | TF32
  | TF64 | TChar | TString8 | TString16 | TString32 | TString64 | TBytes8 | TBytes16 | TBytes32 |
  TBytes64 | TNewtype | TSome | TSequenceStart | TSequenceEnd | TMapStart | TMapEnd | TVariant |
  TVariantValue | TCapability | TFiller

primrec dt_byte :: "DataType \<Rightarrow> byte" where
  "dt_byte TNull = 0"
| "dt_byte TTrue = 1"
| "dt_byte TFalse = 2"
| "dt_byte TI8 = 3"
| "dt_byte TI16 = 4"
| "dt_byte TI32 = 5"
| "dt_byte TI64 = 6"
| "dt_byte TI128 = 7"
| "dt_byte TU8 = 8"
| "dt_byte TU16 = 9"
| "dt_byte TU32 = 10"
| "dt_byte TU64 = 11"
| "dt_byte TU128 = 12"
| "dt_byte TF32 = 13"
| "dt_byte TF64 = 14"
| "dt_byte TChar = 15"
| "dt_byte TString8 = 16"
| "dt_byte TString16 = 17"
| "dt_byte TString32 = 18"
| "dt_byte TString64 = 19"
| "dt_byte TBytes8 = 20"
| "dt_byte TBytes16 = 21"
| "dt_byte TBytes32 = 22"
| "dt_byte TBytes64 = 23"
| "dt_byte TNewtype = 24"
| "dt_byte TSome = 25"
| "dt_byte TSequenceStart = 26"
| "dt_byte TSequenceEnd = 27"
| "dt_byte TMapStart = 28"
| "dt_byte TMapEnd = 29"
| "dt_byte TVariant = 30"
| "dt_byte TVariantValue = 31"
| "dt_byte TCapability = 32"
| "dt_byte TFiller = 0xff"

definition all_data_types :: "DataType list" where
  "all_data_types =
  [TNull, TTrue, TFalse, TI8, TI16, TI32, TI64, TI128, TU8, TU16, TU32, TU64, TU128, TF32, TF64, TChar,
   TString8, TString16, TString32, TString64, TBytes8, TBytes16, TBytes32, TBytes64, TNewtype, TSome,
   TSequenceStart, TSequenceEnd, TMapStart, TMapEnd, TVariant, TVariantValue, TCapability, TFiller]"

definition DataType_try_from :: "byte \<Rightarrow> DataType option" where
  "DataType_try_from b = find (\<lambda>t. dt_byte t = b) all_data_types"

lemma dt_roundtrip [simp]: "DataType_try_from (dt_byte t) = Some t"
  by (cases t) (simp_all add: DataType_try_from_def all_data_types_def)

declare dt_byte.simps [simp del]

subsection \<open>Values\<close>

datatype Integer =
    I8 "8 word" | I16 "16 word" | I32 "32 word" | I64 "64 word" | I128 "128 word"
  | U8 "8 word" | U16 "16 word" | U32 "32 word" | U64 "64 word" | U128 "128 word"

datatype Float = F32 "32 word" | F64 "64 word"

datatype Value =
    VNull | VBool bool | VInteger Integer | VFloat Float | VChar "32 word" | VString "byte list"
  | VBytes "byte list" | VSequence "Value list" | VMap "(Value \<times> Value) list" | VCapability CapId
  | VNewtype Value | VSome Value | VEnumVariant "32 word" Value

definition SERIALIZE_ENUM_VARIANT :: "32 word" where
  "SERIALIZE_ENUM_VARIANT = 2987132124"

subsection \<open>The derived order\<close>

primrec integer_key :: "Integer \<Rightarrow> nat \<times> int" where
  "integer_key (I8 n) = (0, sint n)"
| "integer_key (I16 n) = (1, sint n)"
| "integer_key (I32 n) = (2, sint n)"
| "integer_key (I64 n) = (3, sint n)"
| "integer_key (I128 n) = (4, sint n)"
| "integer_key (U8 n) = (5, uint n)"
| "integer_key (U16 n) = (6, uint n)"
| "integer_key (U32 n) = (7, uint n)"
| "integer_key (U64 n) = (8, uint n)"
| "integer_key (U128 n) = (9, uint n)"

definition integer_cmp :: "Integer \<Rightarrow> Integer \<Rightarrow> ordering" where
  "integer_cmp a b = pair_cmp cmp cmp (integer_key a) (integer_key b)"

primrec float_key :: "Float \<Rightarrow> nat \<times> nat" where
  "float_key (F32 a) = (0, unat a)"
| "float_key (F64 a) = (1, unat a)"

definition float_cmp :: "Float \<Rightarrow> Float \<Rightarrow> ordering" where
  "float_cmp a b = pair_cmp cmp cmp (float_key a) (float_key b)"

definition bytes_cmp :: "byte list \<Rightarrow> byte list \<Rightarrow> ordering" where
  "bytes_cmp a b = lex_cmp cmp (map unat a) (map unat b)"

primrec value_index :: "Value \<Rightarrow> nat" where
  "value_index VNull = 0"
| "value_index (VBool _) = 1"
| "value_index (VInteger _) = 2"
| "value_index (VFloat _) = 3"
| "value_index (VChar _) = 4"
| "value_index (VString _) = 5"
| "value_index (VBytes _) = 6"
| "value_index (VSequence _) = 7"
| "value_index (VMap _) = 8"
| "value_index (VCapability _) = 9"
| "value_index (VNewtype _) = 10"
| "value_index (VSome _) = 11"
| "value_index (VEnumVariant _ _) = 12"

fun value_cmp :: "Value \<Rightarrow> Value \<Rightarrow> ordering" where
  "value_cmp VNull b = cmp 0 (value_index b)"
| "value_cmp (VBool x) b = (case b of VBool y \<Rightarrow> cmp x y | _ \<Rightarrow> cmp 1 (value_index b))"
| "value_cmp (VInteger x) b = (case b of VInteger y \<Rightarrow> integer_cmp x y | _ \<Rightarrow> cmp 2 (value_index b))"
| "value_cmp (VFloat x) b = (case b of VFloat y \<Rightarrow> float_cmp x y | _ \<Rightarrow> cmp 3 (value_index b))"
| "value_cmp (VChar x) b = (case b of VChar y \<Rightarrow> cmp (unat x) (unat y) | _ \<Rightarrow> cmp 4 (value_index b))"
| "value_cmp (VString x) b = (case b of VString y \<Rightarrow> bytes_cmp x y | _ \<Rightarrow> cmp 5 (value_index b))"
| "value_cmp (VBytes x) b = (case b of VBytes y \<Rightarrow> bytes_cmp x y | _ \<Rightarrow> cmp 6 (value_index b))"
| "value_cmp (VSequence xs) b = (case b of VSequence ys \<Rightarrow> lex_cmp value_cmp xs ys | _ \<Rightarrow> cmp 7 (value_index b))"
| "value_cmp (VMap xs) b =
     (case b of
        VMap ys \<Rightarrow> lex_cmp (\<lambda>p q. pair_cmp value_cmp value_cmp p q) xs ys
      | _ \<Rightarrow> cmp 8 (value_index b))"
| "value_cmp (VCapability x) b = (case b of VCapability y \<Rightarrow> cmp x y | _ \<Rightarrow> cmp 9 (value_index b))"
| "value_cmp (VNewtype x) b = (case b of VNewtype y \<Rightarrow> value_cmp x y | _ \<Rightarrow> cmp 10 (value_index b))"
| "value_cmp (VSome x) b = (case b of VSome y \<Rightarrow> value_cmp x y | _ \<Rightarrow> cmp 11 (value_index b))"
| "value_cmp (VEnumVariant i x) b =
     (case b of
        VEnumVariant j y \<Rightarrow> then_cmp (cmp (unat i) (unat j)) (value_cmp x y)
      | _ \<Rightarrow> cmp 12 (value_index b))"

lemma inj_integer_key: "inj integer_key"
proof (rule injI)
  fix a b
  assume "integer_key a = integer_key b"
  then show "a = b" by (cases a; cases b) (auto dest: signed_word_eqI unsigned_word_eqI)
qed

lemma inj_float_key: "inj float_key"
proof (rule injI)
  fix a b
  assume "float_key a = float_key b"
  then show "a = b" by (cases a; cases b) (auto dest: unsigned_word_eqI)
qed

lemma basic_cmps_ok: "cmp_ok integer_cmp i" "cmp_ok float_cmp f" "cmp_ok bytes_cmp bs"
proof -
  have "integer_cmp = (\<lambda>a b. pair_cmp cmp cmp (integer_key a) (integer_key b))" by (intro ext integer_cmp_def)
  then show "cmp_ok integer_cmp i"
    using cmp_ok_key [OF inj_integer_key pair_cmp_ok [OF cmp_ok_cmp cmp_ok_cmp]] by simp
  have "float_cmp = (\<lambda>a b. pair_cmp cmp cmp (float_key a) (float_key b))" by (intro ext float_cmp_def)
  then show "cmp_ok float_cmp f"
    using cmp_ok_key [OF inj_float_key pair_cmp_ok [OF cmp_ok_cmp cmp_ok_cmp]] by simp
  have "inj (unat :: byte \<Rightarrow> nat)" by (rule injI) (rule unsigned_word_eqI)
  then have inj: "inj (map unat :: byte list \<Rightarrow> nat list)" by (rule inj_mapI)
  have "bytes_cmp = (\<lambda>a b. lex_cmp cmp (map unat a) (map unat b))" by (intro ext bytes_cmp_def)
  then show "cmp_ok bytes_cmp bs" using cmp_ok_key [OF inj lex_cmp_ok [OF cmp_ok_cmp]] by simp
qed

text \<open>Values of different variants are compared by the position of the variant.\<close>

lemma value_cmp_diff: "value_index a \<noteq> value_index b \<Longrightarrow> value_cmp a b = cmp (value_index a) (value_index b)"
  by (cases a; cases b) simp_all

lemma value_cmp_index:
  assumes "value_cmp a b = Less \<or> value_cmp a b = Equal"
  shows "value_index a \<le> value_index b"
proof (rule ccontr)
  assume "\<not> value_index a \<le> value_index b"
  then show False using value_cmp_diff [of a b] assms by (simp add: cmp_def)
qed

text \<open>Values of one variant are compared by what they hold.\<close>

lemma cmp_ok_variant:
  assumes b: "\<And>b. value_index b = value_index (C x) \<Longrightarrow> \<exists>y. b = C y"
    and idx: "\<And>y. value_index (C y) = value_index (C x)" and C: "inj C"
    and f: "\<And>y z. value_cmp (C y) (C z) = f y z" and ok: "cmp_ok f x"
  shows "cmp_ok value_cmp (C x)"
proof -
  let ?i = "value_index (C x)"
  have diff: "value_cmp a b = cmp (value_index a) (value_index b)" if "value_index a \<noteq> value_index b" for a b
    by (rule value_cmp_diff [OF that])
  have "value_cmp b (C x) = invert (value_cmp (C x) b)" for b
  proof (cases "value_index b = ?i")
    case True
    then obtain y where "b = C y" using b by blast
    show ?thesis unfolding \<open>b = C y\<close> f by (rule cmp_okD(1) [OF ok])
  next
    case False
    then show ?thesis using diff [of b "C x"] diff [of "C x" b] by (simp add: cmp_def)
  qed
  moreover have "value_cmp (C x) b = Equal \<longleftrightarrow> C x = b" for b
  proof (cases "value_index b = ?i")
    case True
    then obtain y where "b = C y" using b by blast
    then show ?thesis using cmp_okD(2) [OF ok] C by (simp add: f inj_eq)
  next
    case False
    then show ?thesis using diff [of "C x" b] by (auto simp: cmp_def)
  qed
  moreover have "value_cmp (C x) c = Less"
    if ab: "value_cmp (C x) b = Less" and bc: "value_cmp b c = Less \<or> value_cmp b c = Equal" for b c
  proof (cases "value_index b = ?i \<and> value_index c = ?i")
    case True
    then obtain y z where "b = C y" "c = C z" using b by blast
    then show ?thesis using ab bc cmp_okD(3) [OF ok] by (simp add: f)
  next
    case False
    have "?i \<le> value_index b" "value_index b \<le> value_index c"
      using value_cmp_index [of "C x" b] value_cmp_index [of b c] ab bc by blast+
    then have "?i < value_index c" using False by auto
    then show ?thesis using diff [of "C x" c] by (simp add: cmp_def)
  qed
  ultimately show ?thesis unfolding cmp_ok_def by blast
qed

lemma value_index_iff:
  "value_index b = 0 \<longleftrightarrow> b = VNull" "value_index b = 1 \<longleftrightarrow> (\<exists>x. b = VBool x)"
  "value_index b = Suc 0 \<longleftrightarrow> (\<exists>x. b = VBool x)"
  "value_index b = 2 \<longleftrightarrow> (\<exists>x. b = VInteger x)" "value_index b = 3 \<longleftrightarrow> (\<exists>x. b = VFloat x)"
  "value_index b = 4 \<longleftrightarrow> (\<exists>x. b = VChar x)" "value_index b = 5 \<longleftrightarrow> (\<exists>x. b = VString x)"
  "value_index b = 6 \<longleftrightarrow> (\<exists>x. b = VBytes x)" "value_index b = 7 \<longleftrightarrow> (\<exists>x. b = VSequence x)"
  "value_index b = 8 \<longleftrightarrow> (\<exists>x. b = VMap x)" "value_index b = 9 \<longleftrightarrow> (\<exists>x. b = VCapability x)"
  "value_index b = 10 \<longleftrightarrow> (\<exists>x. b = VNewtype x)" "value_index b = 11 \<longleftrightarrow> (\<exists>x. b = VSome x)"
  "value_index b = 12 \<longleftrightarrow> (\<exists>i x. b = VEnumVariant i x)"
  by (cases b; simp)+

lemma cmp_ok_unat: "cmp_ok (\<lambda>x y. cmp (unat x) (unat y)) (w :: 'a :: len word)"
proof (rule cmp_ok_key [OF _ cmp_ok_cmp])
  show "inj (unat :: 'a word \<Rightarrow> nat)" by (rule injI) (rule unsigned_word_eqI)
qed

lemma value_cmp_ok: "cmp_ok value_cmp v"
proof (induction v)
  case VNull
  have "cmp_ok (\<lambda>_ _. Equal) ()" by (simp add: cmp_ok_def)
  then show ?case
    by (rule cmp_ok_variant [where C = "\<lambda>_ :: unit. VNull" and x = "()", rotated 4]) (simp_all add: value_index_iff inj_def cmp_def)
next
  case (VBool x)
  show ?case by (rule cmp_ok_variant [where C = VBool and f = "cmp", OF _ _ _ _ cmp_ok_cmp]) (simp_all add: value_index_iff inj_def)
next
  case (VInteger x)
  show ?case by (rule cmp_ok_variant [where C = VInteger and f = "integer_cmp", OF _ _ _ _ basic_cmps_ok(1)]) (simp_all add: value_index_iff inj_def)
next
  case (VFloat x)
  show ?case by (rule cmp_ok_variant [where C = VFloat and f = "float_cmp", OF _ _ _ _ basic_cmps_ok(2)]) (simp_all add: value_index_iff inj_def)
next
  case (VChar x)
  show ?case by (rule cmp_ok_variant [where C = VChar and f = "\<lambda>x y. cmp (unat x) (unat y)", OF _ _ _ _ cmp_ok_unat]) (simp_all add: value_index_iff inj_def)
next
  case (VString x)
  show ?case by (rule cmp_ok_variant [where C = VString and f = "bytes_cmp", OF _ _ _ _ basic_cmps_ok(3)]) (simp_all add: value_index_iff inj_def)
next
  case (VBytes x)
  show ?case by (rule cmp_ok_variant [where C = VBytes and f = "bytes_cmp", OF _ _ _ _ basic_cmps_ok(3)]) (simp_all add: value_index_iff inj_def)
next
  case (VSequence xs)
  show ?case by (rule cmp_ok_variant [where C = VSequence and f = "lex_cmp value_cmp", OF _ _ _ _ lex_cmp_ok [OF VSequence]]) (simp_all add: value_index_iff inj_def)
next
  case (VMap xs)
  have "cmp_ok (lex_cmp (pair_cmp value_cmp value_cmp)) xs"
    by (intro lex_cmp_ok pair_cmp_ok) (auto intro: VMap fsts.intros snds.intros)
  then show ?case
    by (rule cmp_ok_variant [where C = VMap and f = "lex_cmp (pair_cmp value_cmp value_cmp)", rotated 4])
      (simp_all add: value_index_iff inj_def)
next
  case (VCapability x)
  show ?case by (rule cmp_ok_variant [where C = VCapability and f = "cmp", OF _ _ _ _ cmp_ok_cmp]) (simp_all add: value_index_iff inj_def)
next
  case (VNewtype x)
  show ?case by (rule cmp_ok_variant [where C = VNewtype and f = "value_cmp", OF _ _ _ _ VNewtype]) (simp_all add: value_index_iff inj_def)
next
  case (VSome x)
  show ?case by (rule cmp_ok_variant [where C = VSome and f = "value_cmp", OF _ _ _ _ VSome]) (simp_all add: value_index_iff inj_def)
next
  case (VEnumVariant i x)
  have "cmp_ok (pair_cmp (\<lambda>x y. cmp (unat x) (unat y)) value_cmp) (i, x)"
    by (intro pair_cmp_ok) (simp_all add: cmp_ok_unat VEnumVariant)
  from cmp_ok_variant [where C = "\<lambda>p. VEnumVariant (fst p) (snd p)", OF _ _ _ _ this]
  show ?case by (simp add: value_index_iff inj_def pair_cmp_def prod_eq_iff)
qed

subsection \<open>The order as a class\<close>

instantiation Value :: linorder
begin

definition less_Value :: "Value \<Rightarrow> Value \<Rightarrow> bool" where
  "less_Value a b \<longleftrightarrow> value_cmp a b = Less"

definition less_eq_Value :: "Value \<Rightarrow> Value \<Rightarrow> bool" where
  "less_eq_Value a b \<longleftrightarrow> value_cmp a b \<noteq> Greater"

instance
proof
  fix x y z :: Value
  note ok = cmp_okD [OF value_cmp_ok]
  have le: "a \<le> b \<longleftrightarrow> value_cmp a b = Less \<or> a = b" for a b
    using ok(2) [of a b] by (cases "value_cmp a b") (auto simp: less_eq_Value_def)
  have anti: "\<not> (value_cmp a b = Less \<and> value_cmp b a = Less)" for a b
    using ok(1) [of b a] by auto
  show "x < y \<longleftrightarrow> x \<le> y \<and> \<not> y \<le> x"
    using ok(2) [of x x] anti [of x y] by (auto simp: le less_Value_def)
  show "x \<le> x" by (simp add: le)
  show "x \<le> y \<Longrightarrow> y \<le> z \<Longrightarrow> x \<le> z" using ok(3) [of x y z] by (auto simp: le)
  show "x \<le> y \<Longrightarrow> y \<le> x \<Longrightarrow> x = y" using anti [of x y] by (auto simp: le)
  show "x \<le> y \<or> y \<le> x" using ok(1) [of y x] ok(2) [of x y] by (cases "value_cmp x y") (auto simp: le)
qed

end

subsection \<open>Maps\<close>

text \<open>\<open>BTreeMap::insert\<close> on the entries in ascending order of their keys.\<close>

fun bt_insert :: "'k :: linorder \<Rightarrow> 'v \<Rightarrow> ('k \<times> 'v) list \<Rightarrow> ('k \<times> 'v) list" where
  "bt_insert k v [] = [(k, v)]"
| "bt_insert k v ((k', v') # es) =
     (if k < k' then (k, v) # (k', v') # es
      else if k = k' then (k', v) # es
      else (k', v') # bt_insert k v es)"

abbreviation bt_sorted :: "('k :: linorder \<times> 'v) list \<Rightarrow> bool" where
  "bt_sorted es \<equiv> sorted_wrt (<) (map fst es)"

lemma bt_insert_keys: "set (map fst (bt_insert k v es)) = insert k (set (map fst es))"
  by (induction k v es rule: bt_insert.induct) auto

lemma bt_insert_entries: "p \<in> set (bt_insert k v es) \<Longrightarrow> p = (k, v) \<or> p \<in> set es \<or> (\<exists>v'. (k, v') \<in> set es \<and> p = (k, v))"
  by (induction k v es rule: bt_insert.induct) (auto split: if_splits)

lemma bt_insert_sorted:
  fixes es :: "('k :: linorder \<times> 'v) list"
  shows "bt_sorted es \<Longrightarrow> bt_sorted (bt_insert k v es)"
proof (induction k v es rule: bt_insert.induct)
  case (2 k v k' v' es)
  have "x > k'" if "x \<in> set (map fst (bt_insert k v es))" "\<not> k < k'" "k \<noteq> k'" for x
    using that 2(2) unfolding bt_insert_keys by auto
  with 2 show ?case by auto
qed simp

text \<open>The entries of a sorted list, inserted in order, give the list back.\<close>

lemma bt_insert_last:
  fixes es :: "('k :: linorder \<times> 'v) list"
  shows "(\<And>x. x \<in> set (map fst es) \<Longrightarrow> x < k) \<Longrightarrow> bt_insert k v es = es @ [(k, v)]"
proof (induction k v es rule: bt_insert.induct)
  case (2 k v k' v' es)
  have "k' < k" using 2(2) by simp
  then have n: "\<not> k < k'" "k \<noteq> k'" by auto
  then show ?case using 2(1) [OF n] 2(2) by auto
qed simp

subsection \<open>Well-formed values\<close>

text \<open>
  What the types of the source guarantee (strings are UTF-8, characters are scalar values, the
  entries of a map are in order, lengths fit into a machine word, a capability id has a valid
  type), and that the variant number that marks capabilities is not used by another enumeration.
\<close>

fun wf_value :: "Value \<Rightarrow> bool" where
  "wf_value VNull = True"
| "wf_value (VBool b) = True"
| "wf_value (VInteger i) = True"
| "wf_value (VFloat f) = True"
| "wf_value (VChar c) = char_valid c"
| "wf_value (VString s) \<longleftrightarrow> utf8_valid s \<and> length s < usize_limit"
| "wf_value (VBytes b) \<longleftrightarrow> length b < usize_limit"
| "wf_value (VSequence vs) = list_all wf_value vs"
| "wf_value (VMap es) \<longleftrightarrow> bt_sorted es \<and> list_all (\<lambda>p. wf_value (fst p) \<and> wf_value (snd p)) es"
| "wf_value (VCapability c) \<longleftrightarrow> c < usize_limit \<and> CapId_try_from c = Some c"
| "wf_value (VNewtype v) = wf_value v"
| "wf_value (VSome v) = wf_value v"
| "wf_value (VEnumVariant i v) \<longleftrightarrow> i \<noteq> SERIALIZE_ENUM_VARIANT \<and> wf_value v"

end
