(* ===== verification/Aser_Ser.thy ===== *)
theory Aser_Ser
  imports Aser_Value
begin

text \<open>
  The serializers of \<^verbatim>\<open>userland/aser\<close>: \<open>Serializer\<close> (\<^verbatim>\<open>ser.rs\<close>), which writes a message,
  \<open>CapabilitySerializer\<close> and \<open>CapabilityCounter\<close>, which find and count capabilities, and
  \<open>ValueSerializer\<close>, which builds a \<open>Value\<close>.

  What is serialized is anything that implements the \<open>Serialize\<close> trait of the serde library.  Such
  data is represented by the calls it makes on a serializer (\<open>ser_data\<close>): one constructor for each
  method of the \<open>Serializer\<close> trait, with the nested data for the methods that take some, and for
  the compound ones the elements, entries or fields that are handed over before \<open>end\<close>.  The text
  of a \<open>Display\<close> object is given, or \<open>None\<close> when its formatting fails.
\<close>

datatype ser_data =
    SBool bool | SInt Integer | SFloat Float | SChar "32 word" | SStr "byte list" | SBytes "byte list"
  | SUnit | SNone | SSome ser_data | SUnitStruct | SUnitVariant "32 word"
  | SNewtypeStruct ser_data | SNewtypeVariant "32 word" ser_data
  | SSeq "ser_data list" | STuple "ser_data list" | STupleStruct "ser_data list" | STupleVariant "32 word" "ser_data list"
  | SMap "(ser_data \<times> ser_data) list" | SStruct "(byte list \<times> ser_data) list"
  | SStructVariant "32 word" "(byte list \<times> ser_data) list" | SCollectStr "byte list option"

subsection \<open>Finding a capability\<close>

text \<open>
  \<open>CapabilitySerializer\<close> accepts one number of 64 bits; every other method, also those that open
  a sequence or a map, fails.
\<close>

definition cap_serialize :: "ser_data \<Rightarrow> 64 word option \<Rightarrow> 64 word option aresult" where
  "cap_serialize d capability_id =
     (case d of
        SInt (U64 v) \<Rightarrow> (case capability_id of Some _ \<Rightarrow> AErr MultipleCapabilties | None \<Rightarrow> AOk (Some v))
      | _ \<Rightarrow> AErr ExpectedCapablity)"

definition get_capability :: "64 word option \<Rightarrow> 64 word aresult" where
  "get_capability capability_id = a_ok_or capability_id ExpectedCapablity"

definition find_capability :: "ser_data \<Rightarrow> 64 word aresult" where
  "find_capability d = abind (cap_serialize d None) get_capability"

subsection \<open>Counting capabilities\<close>

fun count_caps :: "ser_data \<Rightarrow> nat \<Rightarrow> nat aresult" where
  "count_caps (SBool v) n = AOk n"
| "count_caps (SInt i) n = AOk n"
| "count_caps (SFloat f) n = AOk n"
| "count_caps (SChar c) n = AOk n"
| "count_caps (SStr s) n = AOk n"
| "count_caps (SBytes b) n = AOk n"
| "count_caps SUnit n = AOk n"
| "count_caps SNone n = AOk n"
| "count_caps (SSome d) n = count_caps d n"
| "count_caps SUnitStruct n = AOk n"
| "count_caps (SUnitVariant i) n = AOk n"
| "count_caps (SNewtypeStruct d) n = count_caps d n"
| "count_caps (SNewtypeVariant i d) n =
     (if i = SERIALIZE_ENUM_VARIANT
      then abind (find_capability d) (\<lambda>_. if n + 1 < usize_limit then AOk (n + 1) else APanic)
      else count_caps d n)"
| "count_caps (SSeq ds) n = fold_a count_caps ds n"
| "count_caps (STuple ds) n = fold_a count_caps ds n"
| "count_caps (STupleStruct ds) n = fold_a count_caps ds n"
| "count_caps (STupleVariant i ds) n = fold_a count_caps ds n"
| "count_caps (SMap es) n = fold_a (\<lambda>p n. abind (count_caps (fst p) n) (\<lambda>n. count_caps (snd p) n)) es n"
| "count_caps (SStruct fs) n = fold_a (\<lambda>p n. count_caps (snd p) n) fs n"
| "count_caps (SStructVariant i fs) n = fold_a (\<lambda>p n. count_caps (snd p) n) fs n"
| "count_caps (SCollectStr x) n = AOk n"

definition count_capabilties :: "ser_data \<Rightarrow> nat aresult" where
  "count_capabilties d = count_caps d 0"

subsection \<open>Writing a message\<close>

record Serializer =
  capability_index :: nat
  data_offset :: nat
  sbuf :: "byte list"

text \<open>A machine word at an index of the buffer.\<close>

definition get_usize :: "byte list \<Rightarrow> nat \<Rightarrow> nat option" where
  "get_usize data index =
     (if index * 8 + 8 \<le> length data then Some (from_le (take 8 (drop (index * 8) data))) else None)"

definition set_usize :: "byte list \<Rightarrow> nat \<Rightarrow> nat \<Rightarrow> byte list option" where
  "set_usize data index num =
     (if index * 8 + 8 \<le> length data
      then Some (take (index * 8) data @ le_bytes 8 num @ drop (index * 8 + 8) data) else None)"

definition Serializer_new :: "nat \<Rightarrow> Serializer" where
  "Serializer_new num_capabilties =
     (let buf = le_bytes 8 0 @ replicate (num_capabilties * 8) (dt_byte TFiller)
      in \<lparr>capability_index = 1, data_offset = length buf, sbuf = buf\<rparr>)"

definition push_bytes :: "byte list \<Rightarrow> Serializer \<Rightarrow> Serializer" where
  "push_bytes bs s = s\<lparr>sbuf := sbuf s @ bs\<rparr>"

definition push_type :: "DataType \<Rightarrow> Serializer \<Rightarrow> Serializer" where
  "push_type t s = push_bytes [dt_byte t] s"

definition push_u16 :: "16 word \<Rightarrow> Serializer \<Rightarrow> Serializer" where
  "push_u16 v s = push_bytes (le_bytes 2 (unat v)) s"

definition push_u32 :: "32 word \<Rightarrow> Serializer \<Rightarrow> Serializer" where
  "push_u32 v s = push_bytes (le_bytes 4 (unat v)) s"

definition push_u64 :: "64 word \<Rightarrow> Serializer \<Rightarrow> Serializer" where
  "push_u64 v s = push_bytes (le_bytes 8 (unat v)) s"

definition push_u128 :: "128 word \<Rightarrow> Serializer \<Rightarrow> Serializer" where
  "push_u128 v s = push_bytes (le_bytes 16 (unat v)) s"

definition unwrap_set :: "Serializer \<Rightarrow> byte list option \<Rightarrow> Serializer aresult" where
  "unwrap_set s x = (case x of None \<Rightarrow> APanic | Some b \<Rightarrow> AOk (s\<lparr>sbuf := b\<rparr>))"

definition push_capability :: "64 word \<Rightarrow> Serializer \<Rightarrow> Serializer aresult" where
  "push_capability cap_id s =
     (if data_offset s \<le> capability_index s * 8 then AErr TooManyCapabilities
      else
        abind (unwrap_set s (set_usize (sbuf s) (capability_index s) (unat cap_id))) (\<lambda>s1.
        case get_usize (sbuf s1) 0 of
          None \<Rightarrow> APanic
        | Some cap_count \<Rightarrow>
            if cap_count + 1 < usize_limit then
              abind (unwrap_set s1 (set_usize (sbuf s1) 0 (cap_count + 1))) (\<lambda>s2.
              AOk (s2\<lparr>capability_index := capability_index s2 + 1\<rparr>))
            else APanic))"

definition serialize_bool :: "bool \<Rightarrow> Serializer \<Rightarrow> Serializer" where
  "serialize_bool v s = (if v then push_type TTrue s else push_type TFalse s)"

definition serialize_int :: "Integer \<Rightarrow> Serializer \<Rightarrow> Serializer" where
  "serialize_int n s =
     (case n of
        I8 v \<Rightarrow> push_bytes [v] (push_type TI8 s)
      | I16 v \<Rightarrow> push_u16 v (push_type TI16 s)
      | I32 v \<Rightarrow> push_u32 v (push_type TI32 s)
      | I64 v \<Rightarrow> push_u64 v (push_type TI64 s)
      | I128 v \<Rightarrow> push_u128 v (push_type TI128 s)
      | U8 v \<Rightarrow> push_bytes [v] (push_type TU8 s)
      | U16 v \<Rightarrow> push_u16 v (push_type TU16 s)
      | U32 v \<Rightarrow> push_u32 v (push_type TU32 s)
      | U64 v \<Rightarrow> push_u64 v (push_type TU64 s)
      | U128 v \<Rightarrow> push_u128 v (push_type TU128 s))"

definition serialize_float :: "Float \<Rightarrow> Serializer \<Rightarrow> Serializer" where
  "serialize_float n s =
     (case n of F32 v \<Rightarrow> push_u32 v (push_type TF32 s) | F64 v \<Rightarrow> push_u64 v (push_type TF64 s))"

definition serialize_char :: "32 word \<Rightarrow> Serializer \<Rightarrow> Serializer" where
  "serialize_char v s = push_u32 v (push_type TChar s)"

definition push_correct_size_type ::
  "nat \<Rightarrow> DataType \<Rightarrow> DataType \<Rightarrow> DataType \<Rightarrow> DataType \<Rightarrow> Serializer \<Rightarrow> Serializer" where
  "push_correct_size_type len t8 t16 t32 t64 s =
     (if len \<le> 0xFF then push_bytes [of_nat len] (push_type t8 s)
      else if len \<le> 0xFFFF then push_u16 (of_nat len) (push_type t16 s)
      else if len \<le> 0xFFFFFFFF then push_u32 (of_nat len) (push_type t32 s)
      else push_u64 (of_nat len) (push_type t64 s))"

definition serialize_str :: "byte list \<Rightarrow> Serializer \<Rightarrow> Serializer" where
  "serialize_str data s =
     push_bytes data (push_correct_size_type (length data) TString8 TString16 TString32 TString64 s)"

definition serialize_bytes :: "byte list \<Rightarrow> Serializer \<Rightarrow> Serializer" where
  "serialize_bytes v s =
     push_bytes v (push_correct_size_type (length v) TBytes8 TBytes16 TBytes32 TBytes64 s)"

definition serialize_unit :: "Serializer \<Rightarrow> Serializer" where
  "serialize_unit s = push_type TNull s"

definition serialize_unit_variant :: "32 word \<Rightarrow> Serializer \<Rightarrow> Serializer" where
  "serialize_unit_variant variant_index s = push_u32 variant_index (push_type TVariant s)"

text \<open>The index is truncated to 16 bits before 1 is subtracted.\<close>

definition serialize_capability :: "ser_data \<Rightarrow> Serializer \<Rightarrow> Serializer aresult" where
  "serialize_capability d s =
     (let s1 = push_type TCapability s;
          i = (of_nat (capability_index s1) :: 16 word)
      in if i = 0 then APanic
         else abind (find_capability d) (\<lambda>c. push_capability c (push_u16 (i - 1) s1)))"

definition variant_value :: "32 word \<Rightarrow> Serializer \<Rightarrow> Serializer" where
  "variant_value variant_index s = push_u32 variant_index (push_type TVariantValue s)"

text \<open>The size is written as 0 first and replaced when the text has been written.\<close>

definition collect_str :: "byte list option \<Rightarrow> Serializer \<Rightarrow> Serializer aresult" where
  "collect_str value s =
     (let s1 = push_type TString64 s;
          size_index = length (sbuf s1);
          s2 = push_u64 0 s1;
          start_write_index = length (sbuf s2)
      in (case value of
            None \<Rightarrow> AErr FormattingError
          | Some text \<Rightarrow>
              let s3 = push_bytes text s2;
                  write_size = length (sbuf s3) - start_write_index
              in AOk (s3\<lparr>sbuf := take size_index (sbuf s3) @ le_bytes 8 write_size @ drop start_write_index (sbuf s3)\<rparr>)))"

text \<open>The closing byte of a sequence and of a map is pushed by \<open>end\<close>.\<close>

definition end_seq :: "Serializer \<Rightarrow> Serializer aresult" where
  "end_seq s = AOk (push_type TSequenceEnd s)"

definition end_map :: "Serializer \<Rightarrow> Serializer aresult" where
  "end_map s = AOk (push_type TMapEnd s)"

fun ser :: "ser_data \<Rightarrow> Serializer \<Rightarrow> Serializer aresult" where
  "ser (SBool v) s = AOk (serialize_bool v s)"
| "ser (SInt n) s = AOk (serialize_int n s)"
| "ser (SFloat n) s = AOk (serialize_float n s)"
| "ser (SChar v) s = AOk (serialize_char v s)"
| "ser (SStr v) s = AOk (serialize_str v s)"
| "ser (SBytes v) s = AOk (serialize_bytes v s)"
| "ser SUnit s = AOk (serialize_unit s)"
| "ser SNone s = AOk (serialize_unit s)"
| "ser (SSome d) s = ser d (push_type TSome s)"
| "ser SUnitStruct s = AOk (serialize_unit s)"
| "ser (SUnitVariant i) s = AOk (serialize_unit_variant i s)"
| "ser (SNewtypeStruct d) s = ser d (push_type TNewtype s)"
| "ser (SNewtypeVariant i d) s =
     (if i = SERIALIZE_ENUM_VARIANT then serialize_capability d s else ser d (variant_value i s))"
| "ser (SSeq ds) s = abind (fold_a ser ds (push_type TSequenceStart s)) end_seq"
| "ser (STuple ds) s = abind (fold_a ser ds (push_type TSequenceStart s)) end_seq"
| "ser (STupleStruct ds) s = abind (fold_a ser ds (push_type TSequenceStart s)) end_seq"
| "ser (STupleVariant i ds) s = abind (fold_a ser ds (push_type TSequenceStart (variant_value i s))) end_seq"
| "ser (SMap es) s =
     abind (fold_a (\<lambda>p s. abind (ser (fst p) s) (\<lambda>s. ser (snd p) s)) es (push_type TMapStart s)) end_map"
| "ser (SStruct fs) s =
     abind (fold_a (\<lambda>p s. abind (collect_str (Some (fst p)) s) (\<lambda>s. ser (snd p) s)) fs (push_type TMapStart s)) end_map"
| "ser (SStructVariant i fs) s =
     abind (fold_a (\<lambda>p s. abind (collect_str (Some (fst p)) s) (\<lambda>s. ser (snd p) s)) fs
       (push_type TMapStart (variant_value i s))) end_map"
| "ser (SCollectStr v) s = collect_str v s"

definition to_bytes :: "ser_data \<Rightarrow> nat \<Rightarrow> byte list aresult" where
  "to_bytes data num_capabilities =
     (if num_capabilities * 8 < usize_limit
      then abind (ser data (Serializer_new num_capabilities)) (\<lambda>s. AOk (sbuf s)) else APanic)"

definition to_bytes_count_cap :: "ser_data \<Rightarrow> byte list aresult" where
  "to_bytes_count_cap data = abind (count_capabilties data) (to_bytes data)"

subsection \<open>Building a value\<close>

fun to_value :: "ser_data \<Rightarrow> Value aresult" where
  "to_value (SBool v) = AOk (VBool v)"
| "to_value (SInt n) = AOk (VInteger n)"
| "to_value (SFloat n) = AOk (VFloat n)"
| "to_value (SChar v) = AOk (VChar v)"
| "to_value (SStr v) = AOk (VString v)"
| "to_value (SBytes v) = AOk (VBytes v)"
| "to_value SUnit = AOk VNull"
| "to_value SNone = AOk VNull"
| "to_value (SSome d) = abind (to_value d) (\<lambda>v. AOk (VSome v))"
| "to_value SUnitStruct = AOk VNull"
| "to_value (SUnitVariant i) = AOk (VEnumVariant i VNull)"
| "to_value (SNewtypeStruct d) = abind (to_value d) (\<lambda>v. AOk (VNewtype v))"
| "to_value (SNewtypeVariant i d) =
     (if i = SERIALIZE_ENUM_VARIANT
      then abind (find_capability d) (\<lambda>c.
             abind (a_ok_or (CapId_try_from (unat c)) InvalidCapabilityId) (\<lambda>cap_id. AOk (VCapability cap_id)))
      else abind (to_value d) (\<lambda>v. AOk (VEnumVariant i v)))"
| "to_value (SSeq ds) =
     abind (fold_a (\<lambda>d acc. abind (to_value d) (\<lambda>v. AOk (acc @ [v]))) ds []) (\<lambda>vs. AOk (VSequence vs))"
| "to_value (STuple ds) =
     abind (fold_a (\<lambda>d acc. abind (to_value d) (\<lambda>v. AOk (acc @ [v]))) ds []) (\<lambda>vs. AOk (VSequence vs))"
| "to_value (STupleStruct ds) =
     abind (fold_a (\<lambda>d acc. abind (to_value d) (\<lambda>v. AOk (acc @ [v]))) ds []) (\<lambda>vs. AOk (VSequence vs))"
| "to_value (STupleVariant i ds) =
     abind (fold_a (\<lambda>d acc. abind (to_value d) (\<lambda>v. AOk (acc @ [v]))) ds []) (\<lambda>vs. AOk (VEnumVariant i (VSequence vs)))"
| "to_value (SMap es) =
     abind (fold_a (\<lambda>p m. abind (to_value (fst p)) (\<lambda>k. abind (to_value (snd p)) (\<lambda>v. AOk (bt_insert k v m)))) es [])
       (\<lambda>m. AOk (VMap m))"
| "to_value (SStruct fs) =
     abind (fold_a (\<lambda>p m. abind (to_value (snd p)) (\<lambda>v. AOk (bt_insert (VString (fst p)) v m))) fs [])
       (\<lambda>m. AOk (VMap m))"
| "to_value (SStructVariant i fs) =
     abind (fold_a (\<lambda>p m. abind (to_value (snd p)) (\<lambda>v. AOk (bt_insert (VString (fst p)) v m))) fs [])
       (\<lambda>m. AOk (VEnumVariant i (VMap m)))"
| "to_value (SCollectStr v) = (case v of None \<Rightarrow> APanic | Some text \<Rightarrow> AOk (VString text))"

definition Value_from_serialize :: "ser_data \<Rightarrow> Value aresult" where
  "Value_from_serialize data = to_value data"

subsection \<open>Serializing a value\<close>

fun Value_serialize :: "Value \<Rightarrow> ser_data" where
  "Value_serialize VNull = SNone"
| "Value_serialize (VBool v) = SBool v"
| "Value_serialize (VInteger n) = SInt n"
| "Value_serialize (VFloat n) = SFloat n"
| "Value_serialize (VChar c) = SChar c"
| "Value_serialize (VString s) = SStr s"
| "Value_serialize (VBytes b) = SBytes b"
| "Value_serialize (VSequence vs) = STuple (map Value_serialize vs)"
| "Value_serialize (VMap es) = SMap (map (\<lambda>p. (Value_serialize (fst p), Value_serialize (snd p))) es)"
| "Value_serialize (VCapability c) = SNewtypeVariant SERIALIZE_ENUM_VARIANT (SInt (U64 (of_nat c)))"
| "Value_serialize (VNewtype v) = SNewtypeStruct (Value_serialize v)"
| "Value_serialize (VSome v) = SSome (Value_serialize v)"
| "Value_serialize (VEnumVariant i v) =
     (if v = VNull then SUnitVariant i else SNewtypeVariant i (Value_serialize v))"

end
