(* ===== verification/Aser_De.thy ===== *)
theory Aser_De
  imports Aser_Value
begin

text \<open>
  The deserializers of \<^verbatim>\<open>userland/aser\<close>: \<open>Deserializer\<close> (\<^verbatim>\<open>de.rs\<close>), which reads a message, and
  the one that reads a \<open>Value\<close> (\<^verbatim>\<open>value/value_deserializer.rs\<close>), both driven by the visitor that
  builds a \<open>Value\<close> (\<^verbatim>\<open>value/mod.rs\<close>).

  \<open>deserialize_any\<close> reads the next type byte with its data and calls one method of the visitor:
  \<open>next_visit\<close> gives that call as a \<open>visit\<close>.  The number of a capability is read with the
  implementation of \<open>u64\<close> in the serde library, which decides for each call whether it yields a
  number; it is the parameter \<open>u\<close>.  The functions return the state of the deserializer also when
  they fail, because the end of a sequence is looked for before the failure of an element is
  reported.  Nested data is read by recursion with fuel; twice the length of the input and one is
  enough.
\<close>

record Deserializer =
  de_caps :: "64 word list"
  de_input :: "byte list"

datatype visit =
    VisUnit | VisBool bool | VisInt Integer | VisFloat Float | VisChar "32 word" | VisStr "byte list"
  | VisBytes "byte list" | VisNewtype | VisSome | VisSeq bool | VisMap bool | VisEnum bool | VisCap "64 word"

type_synonym 'a de_result = "Deserializer \<times> 'a aresult"

definition dbind :: "'a de_result \<Rightarrow> (Deserializer \<Rightarrow> 'a \<Rightarrow> 'b de_result) \<Rightarrow> 'b de_result" where
  "dbind m f =
     (case m of
        (D, AOk x) \<Rightarrow> f D x
      | (D, AErr e) \<Rightarrow> (D, AErr e)
      | (D, APanic) \<Rightarrow> (D, APanic)
      | (D, AFuel) \<Rightarrow> (D, AFuel))"

lemma dbind_simps [simp]:
  "dbind (D, AOk x) f = f D x" "dbind (D, AErr e) f = (D, AErr e)"
  "dbind (D, APanic) f = (D, APanic)" "dbind (D, AFuel) f = (D, AFuel)"
  by (simp_all add: dbind_def)

lemma dbind_cong [fundef_cong]:
  assumes "m = m'" and "\<And>D x. m' = (D, AOk x) \<Longrightarrow> f D x = g D x"
  shows "dbind m f = dbind m' g"
  using assms by (cases m'; cases "snd m'") auto

subsection \<open>Taking bytes\<close>

definition take_bytes :: "nat \<Rightarrow> Deserializer \<Rightarrow> byte list de_result" where
  "take_bytes num_bytes D =
     (if num_bytes \<le> length (de_input D)
      then (D\<lparr>de_input := drop num_bytes (de_input D)\<rparr>, AOk (take num_bytes (de_input D)))
      else (D, AErr EndOfInput))"

definition take_u8 :: "Deserializer \<Rightarrow> 8 word de_result" where
  "take_u8 D = (case de_input D of [] \<Rightarrow> (D, AErr EndOfInput) | b # bs \<Rightarrow> (D\<lparr>de_input := bs\<rparr>, AOk b))"

definition take_u16 :: "Deserializer \<Rightarrow> 16 word de_result" where
  "take_u16 D = dbind (take_bytes 2 D) (\<lambda>D bs. (D, AOk (of_nat (from_le bs))))"

definition take_u32 :: "Deserializer \<Rightarrow> 32 word de_result" where
  "take_u32 D = dbind (take_bytes 4 D) (\<lambda>D bs. (D, AOk (of_nat (from_le bs))))"

definition take_u64 :: "Deserializer \<Rightarrow> 64 word de_result" where
  "take_u64 D = dbind (take_bytes 8 D) (\<lambda>D bs. (D, AOk (of_nat (from_le bs))))"

definition take_u128 :: "Deserializer \<Rightarrow> 128 word de_result" where
  "take_u128 D = dbind (take_bytes 16 D) (\<lambda>D bs. (D, AOk (of_nat (from_le bs))))"

definition take_data_type :: "Deserializer \<Rightarrow> DataType de_result" where
  "take_data_type D = dbind (take_u8 D) (\<lambda>D b. (D, a_ok_or (DataType_try_from b) InvalidDataType))"

definition peek_data_type :: "Deserializer \<Rightarrow> DataType aresult" where
  "peek_data_type D =
     (case de_input D of [] \<Rightarrow> AErr EndOfInput | b # bs \<Rightarrow> a_ok_or (DataType_try_from b) InvalidDataType)"

definition take_str :: "nat \<Rightarrow> Deserializer \<Rightarrow> byte list de_result" where
  "take_str num_bytes D =
     dbind (take_bytes num_bytes D) (\<lambda>D bs. (D, if utf8_valid bs then AOk bs else AErr InvalidUtf8))"

subsection \<open>One call of the visitor\<close>

text \<open>The loop that skips filler bytes, on the input.\<close>

fun skip_filler :: "byte list \<Rightarrow> byte list \<times> unit aresult" where
  "skip_filler [] = ([], AErr EndOfInput)"
| "skip_filler (b # bs) =
     (case DataType_try_from b of
        None \<Rightarrow> (b # bs, AErr InvalidDataType)
      | Some t \<Rightarrow> if t = TFiller then skip_filler bs else (b # bs, AOk ()))"

text \<open>A sequence or a map ends with a closing byte, which is taken when it is next.\<close>

definition check_if_finished :: "DataType \<Rightarrow> Deserializer \<Rightarrow> bool de_result" where
  "check_if_finished end_type D =
     (case peek_data_type D of
        AOk t \<Rightarrow>
          if t = end_type
          then (case take_data_type D of (D1, AOk _) \<Rightarrow> (D1, AOk True) | (D1, _) \<Rightarrow> (D1, APanic))
          else (D, AOk False)
      | AErr e \<Rightarrow> (D, AErr e)
      | _ \<Rightarrow> (D, APanic))"

definition visit_str :: "nat \<Rightarrow> Deserializer \<Rightarrow> visit de_result" where
  "visit_str num_bytes D = dbind (take_str num_bytes D) (\<lambda>D s. (D, AOk (VisStr s)))"

definition visit_bytes :: "nat \<Rightarrow> Deserializer \<Rightarrow> visit de_result" where
  "visit_bytes num_bytes D = dbind (take_bytes num_bytes D) (\<lambda>D s. (D, AOk (VisBytes s)))"

definition visit_of_type :: "DataType \<Rightarrow> Deserializer \<Rightarrow> visit de_result" where
  "visit_of_type t D =
     (case t of
        TFiller \<Rightarrow> (D, APanic)
      | TNull \<Rightarrow> (D, AOk VisUnit)
      | TTrue \<Rightarrow> (D, AOk (VisBool True))
      | TFalse \<Rightarrow> (D, AOk (VisBool False))
      | TI8 \<Rightarrow> dbind (take_u8 D) (\<lambda>D n. (D, AOk (VisInt (I8 n))))
      | TI16 \<Rightarrow> dbind (take_u16 D) (\<lambda>D n. (D, AOk (VisInt (I16 n))))
      | TI32 \<Rightarrow> dbind (take_u32 D) (\<lambda>D n. (D, AOk (VisInt (I32 n))))
      | TI64 \<Rightarrow> dbind (take_u64 D) (\<lambda>D n. (D, AOk (VisInt (I64 n))))
      | TI128 \<Rightarrow> dbind (take_u128 D) (\<lambda>D n. (D, AOk (VisInt (I128 n))))
      | TU8 \<Rightarrow> dbind (take_u8 D) (\<lambda>D n. (D, AOk (VisInt (U8 n))))
      | TU16 \<Rightarrow> dbind (take_u16 D) (\<lambda>D n. (D, AOk (VisInt (U16 n))))
      | TU32 \<Rightarrow> dbind (take_u32 D) (\<lambda>D n. (D, AOk (VisInt (U32 n))))
      | TU64 \<Rightarrow> dbind (take_u64 D) (\<lambda>D n. (D, AOk (VisInt (U64 n))))
      | TU128 \<Rightarrow> dbind (take_u128 D) (\<lambda>D n. (D, AOk (VisInt (U128 n))))
      | TF32 \<Rightarrow> dbind (take_u32 D) (\<lambda>D n. (D, AOk (VisFloat (F32 n))))
      | TF64 \<Rightarrow> dbind (take_u64 D) (\<lambda>D n. (D, AOk (VisFloat (F64 n))))
      | TChar \<Rightarrow> dbind (take_u32 D) (\<lambda>D c. (D, if char_valid c then AOk (VisChar c) else AErr InvalidUtf8))
      | TString8 \<Rightarrow> dbind (take_u8 D) (\<lambda>D n. visit_str (unat n) D)
      | TString16 \<Rightarrow> dbind (take_u16 D) (\<lambda>D n. visit_str (unat n) D)
      | TString32 \<Rightarrow> dbind (take_u32 D) (\<lambda>D n. visit_str (unat n) D)
      | TString64 \<Rightarrow> dbind (take_u64 D) (\<lambda>D n. visit_str (unat n) D)
      | TBytes8 \<Rightarrow> dbind (take_u8 D) (\<lambda>D n. visit_bytes (unat n) D)
      | TBytes16 \<Rightarrow> dbind (take_u16 D) (\<lambda>D n. visit_bytes (unat n) D)
      | TBytes32 \<Rightarrow> dbind (take_u32 D) (\<lambda>D n. visit_bytes (unat n) D)
      | TBytes64 \<Rightarrow> dbind (take_u64 D) (\<lambda>D n. visit_bytes (unat n) D)
      | TNewtype \<Rightarrow> (D, AOk VisNewtype)
      | TSome \<Rightarrow> (D, AOk VisSome)
      | TSequenceStart \<Rightarrow> dbind (check_if_finished TSequenceEnd D) (\<lambda>D fin. (D, AOk (VisSeq fin)))
      | TSequenceEnd \<Rightarrow> (D, AErr UnexpectedTerminator)
      | TMapStart \<Rightarrow> dbind (check_if_finished TMapEnd D) (\<lambda>D fin. (D, AOk (VisMap fin)))
      | TMapEnd \<Rightarrow> (D, AErr UnexpectedTerminator)
      | TVariant \<Rightarrow> (D, AOk (VisEnum False))
      | TVariantValue \<Rightarrow> (D, AOk (VisEnum True))
      | TCapability \<Rightarrow>
          dbind (take_u16 D) (\<lambda>D i.
            if unat i < length (de_caps D) then (D, AOk (VisCap (de_caps D ! unat i)))
            else (D, AErr InvalidCapabilityIndex)))"

definition next_visit :: "Deserializer \<Rightarrow> visit de_result" where
  "next_visit D =
     (case skip_filler (de_input D) of
        (bs, r) \<Rightarrow>
          dbind (D\<lparr>de_input := bs\<rparr>, r) (\<lambda>D _.
          dbind (take_data_type D) (\<lambda>D t. visit_of_type t D)))"

subsection \<open>Building a value\<close>

text \<open>\<open>newtype_variant::<u64>\<close> of an enumeration of the message.\<close>

definition de_u64 :: "(visit \<Rightarrow> 64 word option) \<Rightarrow> bool \<Rightarrow> Deserializer \<Rightarrow> 64 word de_result" where
  "de_u64 u has_data D =
     (if has_data then dbind (next_visit D) (\<lambda>D vis. (D, a_ok_or (u vis) DeserializeMessage))
      else (D, a_ok_or (u VisUnit) DeserializeMessage))"

definition cap_value :: "64 word \<Rightarrow> Value aresult" where
  "cap_value cap_id =
     (case CapId_try_from (unat cap_id) of
        Some c \<Rightarrow> AOk (VCapability c)
      | None \<Rightarrow> AErr DeserializeMessage)"

fun de_any :: "(visit \<Rightarrow> 64 word option) \<Rightarrow> nat \<Rightarrow> Deserializer \<Rightarrow> Value de_result"
  and de_seq :: "(visit \<Rightarrow> 64 word option) \<Rightarrow> nat \<Rightarrow> bool \<Rightarrow> Value list \<Rightarrow> Deserializer \<Rightarrow> Value de_result"
  and de_map :: "(visit \<Rightarrow> 64 word option) \<Rightarrow> nat \<Rightarrow> bool \<Rightarrow> (Value \<times> Value) list \<Rightarrow> Deserializer \<Rightarrow> Value de_result" where
  "de_any u 0 D = (D, AFuel)"
| "de_any u (Suc n) D =
     dbind (next_visit D) (\<lambda>D vis.
       case vis of
         VisUnit \<Rightarrow> (D, AOk VNull)
       | VisBool b \<Rightarrow> (D, AOk (VBool b))
       | VisInt i \<Rightarrow> (D, AOk (VInteger i))
       | VisFloat f \<Rightarrow> (D, AOk (VFloat f))
       | VisChar c \<Rightarrow> (D, AOk (VChar c))
       | VisStr s \<Rightarrow> (D, AOk (VString s))
       | VisBytes b \<Rightarrow> (D, AOk (VBytes b))
       | VisNewtype \<Rightarrow> dbind (de_any u n D) (\<lambda>D v. (D, AOk (VNewtype v)))
       | VisSome \<Rightarrow> dbind (de_any u n D) (\<lambda>D v. (D, AOk (VSome v)))
       | VisSeq fin \<Rightarrow> de_seq u n fin [] D
       | VisMap fin \<Rightarrow> de_map u n fin [] D
       | VisEnum has_data \<Rightarrow>
           dbind (take_u32 D) (\<lambda>D i.
             if i = SERIALIZE_ENUM_VARIANT then dbind (de_u64 u has_data D) (\<lambda>D c. (D, cap_value c))
             else if has_data then dbind (de_any u n D) (\<lambda>D v. (D, AOk (VEnumVariant i v)))
             else (D, AOk (VEnumVariant i VNull)))
       | VisCap c \<Rightarrow> (D, abind (a_ok_or (u (VisInt (U64 c))) DeserializeMessage) cap_value))"
| "de_seq u 0 fin acc D = (D, AFuel)"
| "de_seq u (Suc n) fin acc D =
     (if fin then (D, AOk (VSequence acc))
      else
        (case de_any u n D of
           (D1, AOk x) \<Rightarrow> dbind (check_if_finished TSequenceEnd D1) (\<lambda>D2 fin. de_seq u n fin (acc @ [x]) D2)
         | (D1, AErr e) \<Rightarrow> dbind (check_if_finished TSequenceEnd D1) (\<lambda>D2 _. (D2, AErr e))
         | (D1, r) \<Rightarrow> (D1, r)))"
| "de_map u 0 fin m D = (D, AFuel)"
| "de_map u (Suc n) fin m D =
     (if fin then (D, AOk (VMap m))
      else
        dbind (de_any u n D) (\<lambda>D1 k.
          case de_any u n D1 of
            (D2, AOk v) \<Rightarrow> dbind (check_if_finished TMapEnd D2) (\<lambda>D3 fin. de_map u n fin (bt_insert k v m) D3)
          | (D2, AErr e) \<Rightarrow> dbind (check_if_finished TMapEnd D2) (\<lambda>D3 _. (D3, AErr e))
          | (D2, r) \<Rightarrow> (D2, r)))"

subsection \<open>Reading a message\<close>

primrec read_words :: "nat \<Rightarrow> byte list \<Rightarrow> 64 word list" where
  "read_words 0 bs = []"
| "read_words (Suc n) bs = of_nat (from_le (take 8 bs)) # read_words n (drop 8 bs)"

definition Deserializer_from_bytes :: "byte list \<Rightarrow> Deserializer aresult" where
  "Deserializer_from_bytes data =
     (if length data < 8 then AErr EndOfInput
      else
        let num_capabilities = from_le (take 8 data);
            rest = drop 8 data
        in if usize_limit \<le> 8 * num_capabilities then APanic
           else if length rest < 8 * num_capabilities then AErr EndOfInput
           else AOk \<lparr>de_caps = read_words num_capabilities rest, de_input = drop (8 * num_capabilities) rest\<rparr>)"

definition from_bytes :: "(visit \<Rightarrow> 64 word option) \<Rightarrow> byte list \<Rightarrow> Value aresult" where
  "from_bytes u bytes =
     abind (Deserializer_from_bytes bytes) (\<lambda>D.
       case de_any u (2 * length bytes + 1) D of
         (D', r) \<Rightarrow> abind r (\<lambda>v. if de_input D' = [] then AOk v else AErr TrailingInput))"

subsection \<open>Reading a value\<close>

primrec value_visit :: "Value \<Rightarrow> visit" where
  "value_visit VNull = VisUnit"
| "value_visit (VBool v) = VisBool v"
| "value_visit (VInteger n) = VisInt n"
| "value_visit (VFloat n) = VisFloat n"
| "value_visit (VChar c) = VisChar c"
| "value_visit (VString s) = VisStr s"
| "value_visit (VBytes b) = VisBytes b"
| "value_visit (VSequence vs) = VisSeq (vs = [])"
| "value_visit (VMap es) = VisMap (es = [])"
| "value_visit (VCapability c) = VisCap (of_nat c)"
| "value_visit (VNewtype v) = VisNewtype"
| "value_visit (VSome v) = VisSome"
| "value_visit (VEnumVariant i v) = VisEnum True"

fun de_value :: "(visit \<Rightarrow> 64 word option) \<Rightarrow> Value \<Rightarrow> Value aresult" where
  "de_value u VNull = AOk VNull"
| "de_value u (VBool v) = AOk (VBool v)"
| "de_value u (VInteger n) = AOk (VInteger n)"
| "de_value u (VFloat n) = AOk (VFloat n)"
| "de_value u (VChar c) = AOk (VChar c)"
| "de_value u (VString s) = AOk (VString s)"
| "de_value u (VBytes b) = AOk (VBytes b)"
| "de_value u (VSequence vs) =
     abind (fold_a (\<lambda>v acc. abind (de_value u v) (\<lambda>x. AOk (acc @ [x]))) vs []) (\<lambda>xs. AOk (VSequence xs))"
| "de_value u (VMap es) =
     abind (fold_a (\<lambda>p m. abind (de_value u (fst p)) (\<lambda>k. abind (de_value u (snd p)) (\<lambda>v. AOk (bt_insert k v m)))) es [])
       (\<lambda>m. AOk (VMap m))"
| "de_value u (VCapability c) = abind (a_ok_or (u (VisInt (U64 (of_nat c)))) DeserializeMessage) cap_value"
| "de_value u (VNewtype v) = abind (de_value u v) (\<lambda>x. AOk (VNewtype x))"
| "de_value u (VSome v) = abind (de_value u v) (\<lambda>x. AOk (VSome x))"
| "de_value u (VEnumVariant i v) =
     (if i = SERIALIZE_ENUM_VARIANT then abind (a_ok_or (u (value_visit v)) DeserializeMessage) cap_value
      else abind (de_value u v) (\<lambda>x. AOk (VEnumVariant i x)))"

definition Value_into_deserialize :: "(visit \<Rightarrow> 64 word option) \<Rightarrow> Value \<Rightarrow> Value aresult" where
  "Value_into_deserialize u v = de_value u v"

end
