(* ===== verification/Aser_Roundtrip.thy ===== *)
theory Aser_Roundtrip
  imports Aser_Ser Aser_De
begin

text \<open>
  The two directions of the message format together.  Whatever is serialized, the message that is
  written reads back as the value that \<open>ValueSerializer\<close> builds from the same data, and the values
  that are read from arbitrary bytes are well-formed.
\<close>

declare de_any.simps [simp del] de_seq.simps [simp del] de_map.simps [simp del]

subsection \<open>The serializer between two calls\<close>

text \<open>
  The buffer: the number of capabilities, the capabilities, filler for those that are still
  missing, and the data.
\<close>

definition cap_words :: "64 word list \<Rightarrow> byte list" where
  "cap_words caps = concat (map (\<lambda>c. le_bytes 8 (unat c)) caps)"

definition ser_state :: "nat \<Rightarrow> 64 word list \<Rightarrow> byte list \<Rightarrow> Serializer" where
  "ser_state N caps body =
     \<lparr>capability_index = Suc (length caps), data_offset = 8 + 8 * N,
      sbuf = le_bytes 8 (length caps) @ cap_words caps @ replicate (8 * (N - length caps)) (dt_byte TFiller) @ body\<rparr>"

lemma cap_words_simps [simp]:
  "cap_words [] = []" "cap_words (c # cs) = le_bytes 8 (unat c) @ cap_words cs"
  "cap_words (cs @ ds) = cap_words cs @ cap_words ds" "length (cap_words cs) = 8 * length cs"
  by (simp_all add: cap_words_def) (induction cs; simp)

lemma ser_state_fields [simp]: "capability_index (ser_state N caps body) = Suc (length caps)"
  by (simp add: ser_state_def)

lemma Serializer_new_state: "Serializer_new N = ser_state N [] []"
  by (simp add: Serializer_new_def ser_state_def Let_def mult.commute)

lemma push_bytes_state [simp]: "push_bytes bs (ser_state N caps body) = ser_state N caps (body @ bs)"
  by (simp add: push_bytes_def ser_state_def)

lemma push_state [simp]:
  "push_type t (ser_state N caps body) = ser_state N caps (body @ [dt_byte t])"
  "push_u16 v16 (ser_state N caps body) = ser_state N caps (body @ le_bytes 2 (unat v16))"
  "push_u32 v32 (ser_state N caps body) = ser_state N caps (body @ le_bytes 4 (unat v32))"
  "push_u64 v64 (ser_state N caps body) = ser_state N caps (body @ le_bytes 8 (unat v64))"
  "push_u128 v128 (ser_state N caps body) = ser_state N caps (body @ le_bytes 16 (unat v128))"
  by (simp_all add: push_type_def push_u16_def push_u32_def push_u64_def push_u128_def)

lemma set_usize_middle:
  assumes "length pre = 8 * i" and "length old = 8"
  shows "set_usize (pre @ old @ post) i n = Some (pre @ le_bytes 8 n @ post)"
  using assms by (simp add: set_usize_def mult.commute)

lemma get_usize_first: "n < usize_limit \<Longrightarrow> get_usize (le_bytes 8 n @ post) 0 = Some n"
  using from_le_bytes [of n 8] by (simp add: get_usize_def)

lemma push_capability_state:
  assumes room: "length caps < N" and small: "length caps + 1 < usize_limit"
  shows "push_capability c (ser_state N caps body) = AOk (ser_state N (caps @ [c]) body)"
proof -
  let ?len = "le_bytes 8 (length caps)" and ?F = "dt_byte TFiller"
  obtain m where m: "N - length caps = Suc m" using room by (metis Suc_diff_Suc)
  have buf: "sbuf (ser_state N caps body) = (?len @ cap_words caps) @ replicate 8 ?F @ replicate (8 * m) ?F @ body"
    by (simp add: ser_state_def m replicate_add [symmetric])
  have 1: "set_usize (sbuf (ser_state N caps body)) (Suc (length caps)) (unat c) =
      Some (?len @ cap_words caps @ le_bytes 8 (unat c) @ replicate (8 * m) ?F @ body)"
    unfolding buf by (subst set_usize_middle) simp_all
  have 2: "set_usize ([] @ ?len @ post) 0 (Suc (length caps)) = Some ([] @ le_bytes 8 (Suc (length caps)) @ post)" for post
    by (rule set_usize_middle) simp_all
  have m': "N - Suc (length caps) = m" using m by simp
  define s1 where "s1 = (ser_state N caps body)\<lparr>sbuf := ?len @ cap_words caps @ le_bytes 8 (unat c) @ replicate (8 * m) ?F @ body\<rparr>"
  define s2 where "s2 = s1\<lparr>sbuf := le_bytes 8 (Suc (length caps)) @ cap_words caps @ le_bytes 8 (unat c) @ replicate (8 * m) ?F @ body\<rparr>"
  have idx: "capability_index (ser_state N caps body) = Suc (length caps)" by simp
  have a: "unwrap_set (ser_state N caps body) (set_usize (sbuf (ser_state N caps body)) (Suc (length caps)) (unat c)) = AOk s1"
    unfolding 1 by (simp add: unwrap_set_def s1_def)
  have b: "get_usize (sbuf s1) 0 = Some (length caps)"
    using small by (simp add: s1_def get_usize_first)
  have c: "unwrap_set s1 (set_usize (sbuf s1) 0 (length caps + 1)) = AOk s2"
    using 2 by (simp add: s1_def s2_def unwrap_set_def)
  have "\<not> data_offset (ser_state N caps body) \<le> capability_index (ser_state N caps body) * 8"
    using room by (simp add: ser_state_def)
  then have "push_capability c (ser_state N caps body) = AOk (s2\<lparr>capability_index := capability_index s2 + 1\<rparr>)"
    using small unfolding push_capability_def idx a abind.simps b option.case by (simp only: c abind.simps if_False if_True)
  also have "s2\<lparr>capability_index := capability_index s2 + 1\<rparr> = ser_state N (caps @ [c]) body"
    by (simp add: s2_def s1_def ser_state_def m')
  finally show ?thesis .
qed

lemma collect_str_state:
  "collect_str (Some text) (ser_state N caps body) =
     AOk (ser_state N caps (body @ dt_byte TString64 # le_bytes 8 (length text) @ text))"
proof -
  define pre where "pre = sbuf (ser_state N caps (body @ [dt_byte TString64]))"
  have s: "sbuf (ser_state N caps (body @ dt_byte TString64 # xs)) = pre @ xs" for xs
    by (simp add: ser_state_def pre_def)
  have e: "(ser_state N caps (body @ dt_byte TString64 # xs))\<lparr>sbuf := pre @ ys\<rparr> = ser_state N caps (body @ dt_byte TString64 # ys)"
    for xs ys by (simp add: ser_state_def pre_def)
  show ?thesis by (simp add: collect_str_def Let_def s e)
qed

subsection \<open>Reading what was written\<close>

abbreviation de_at :: "64 word list \<Rightarrow> byte list \<Rightarrow> Deserializer" where
  "de_at C bs \<equiv> \<lparr>de_caps = C, de_input = bs\<rparr>"

lemma take_bytes_at: "length bs = n \<Longrightarrow> take_bytes n (de_at C (bs @ rest)) = (de_at C rest, AOk bs)"
  by (auto simp: take_bytes_def)

lemma take_word_at [simp]:
  "take_u8 (de_at C (b # rest)) = (de_at C rest, AOk b)"
  "take_u16 (de_at C (le_bytes 2 (unat v16) @ rest)) = (de_at C rest, AOk v16)"
  "take_u32 (de_at C (le_bytes 4 (unat v32) @ rest)) = (de_at C rest, AOk v32)"
  "take_u64 (de_at C (le_bytes 8 (unat v64) @ rest)) = (de_at C rest, AOk v64)"
  "take_u128 (de_at C (le_bytes 16 (unat v128) @ rest)) = (de_at C rest, AOk v128)"
  by (simp_all add: take_u8_def take_u16_def take_u32_def take_u64_def take_u128_def take_bytes_at word_le_bytes)

lemma take_type_at [simp]:
  "take_data_type (de_at C (dt_byte t # rest)) = (de_at C rest, AOk t)"
  "peek_data_type (de_at C (dt_byte t # rest)) = AOk t"
  by (simp_all add: take_data_type_def peek_data_type_def)

lemma check_if_finished_at:
  "check_if_finished e (de_at C (dt_byte t # rest)) =
     (if t = e then (de_at C rest, AOk True) else (de_at C (dt_byte t # rest), AOk False))"
  by (simp add: check_if_finished_def)

lemma next_visit_at: "t \<noteq> TFiller \<Longrightarrow> next_visit (de_at C (dt_byte t # rest)) = visit_of_type t (de_at C rest)"
  by (simp add: next_visit_def)

lemma skip_filler_replicate: "skip_filler (replicate k (dt_byte TFiller) @ bs) = skip_filler bs"
  by (induction k) simp_all

text \<open>
  The data that \<open>Serialize\<close> implementations hand over: strings are UTF-8, characters are scalar
  values, lengths fit into a machine word, and only capabilities use their variant number.
\<close>

definition text_ok :: "byte list \<Rightarrow> bool" where
  "text_ok s \<longleftrightarrow> utf8_valid s \<and> length s < usize_limit"

fun wf_data :: "ser_data \<Rightarrow> bool" where
  "wf_data (SBool v) = True"
| "wf_data (SInt n) = True"
| "wf_data (SFloat n) = True"
| "wf_data (SChar c) = char_valid c"
| "wf_data (SStr s) = text_ok s"
| "wf_data (SBytes b) = (length b < usize_limit)"
| "wf_data SUnit = True"
| "wf_data SNone = True"
| "wf_data (SSome d) = wf_data d"
| "wf_data SUnitStruct = True"
| "wf_data (SUnitVariant i) = (i \<noteq> SERIALIZE_ENUM_VARIANT)"
| "wf_data (SNewtypeStruct d) = wf_data d"
| "wf_data (SNewtypeVariant i d) = (i \<noteq> SERIALIZE_ENUM_VARIANT \<longrightarrow> wf_data d)"
| "wf_data (SSeq ds) = list_all wf_data ds"
| "wf_data (STuple ds) = list_all wf_data ds"
| "wf_data (STupleStruct ds) = list_all wf_data ds"
| "wf_data (STupleVariant i ds) = (i \<noteq> SERIALIZE_ENUM_VARIANT \<and> list_all wf_data ds)"
| "wf_data (SMap es) = list_all (\<lambda>p. wf_data (fst p) \<and> wf_data (snd p)) es"
| "wf_data (SStruct fs) = list_all (\<lambda>p. text_ok (fst p) \<and> wf_data (snd p)) fs"
| "wf_data (SStructVariant i fs) =
     (i \<noteq> SERIALIZE_ENUM_VARIANT \<and> list_all (\<lambda>p. text_ok (fst p) \<and> wf_data (snd p)) fs)"
| "wf_data (SCollectStr x) = (case x of None \<Rightarrow> True | Some s \<Rightarrow> text_ok s)"

text \<open>The capabilities in the order in which they are met.\<close>

fun caps_of :: "ser_data \<Rightarrow> 64 word list" where
  "caps_of (SSome d) = caps_of d"
| "caps_of (SNewtypeStruct d) = caps_of d"
| "caps_of (SNewtypeVariant i d) =
     (if i = SERIALIZE_ENUM_VARIANT then (case find_capability d of AOk c \<Rightarrow> [c] | _ \<Rightarrow> []) else caps_of d)"
| "caps_of (SSeq ds) = concat (map caps_of ds)"
| "caps_of (STuple ds) = concat (map caps_of ds)"
| "caps_of (STupleStruct ds) = concat (map caps_of ds)"
| "caps_of (STupleVariant i ds) = concat (map caps_of ds)"
| "caps_of (SMap es) = concat (map (\<lambda>p. caps_of (fst p) @ caps_of (snd p)) es)"
| "caps_of (SStruct fs) = concat (map (\<lambda>p. caps_of (snd p)) fs)"
| "caps_of (SStructVariant i fs) = concat (map (\<lambda>p. caps_of (snd p)) fs)"
| "caps_of _ = []"

text \<open>
  \<open>bs\<close> reads as \<open>v\<close> when the capabilities \<open>cs\<close> are at position \<open>i\<close> of the capability table, and
  \<open>d\<close> is written as bytes that read as \<open>v\<close> and adds the capabilities \<open>cs\<close>.
\<close>

definition starts_value :: "byte list \<Rightarrow> bool" where
  "starts_value bs \<longleftrightarrow> (\<exists>t r. bs = dt_byte t # r \<and> t \<notin> {TFiller, TSequenceEnd, TMapEnd})"

definition reads :: "(visit \<Rightarrow> 64 word option) \<Rightarrow> nat \<Rightarrow> 64 word list \<Rightarrow> byte list \<Rightarrow> Value \<Rightarrow> bool" where
  "reads u i cs bs v \<longleftrightarrow> starts_value bs \<and>
     (\<forall>C rest n. take (length cs) (drop i C) = cs \<longrightarrow> 2 * length bs < n \<longrightarrow>
       de_any u n (de_at C (bs @ rest)) = (de_at C rest, AOk v))"

definition serializes :: "(visit \<Rightarrow> 64 word option) \<Rightarrow> ser_data \<Rightarrow> 64 word list \<Rightarrow> Value \<Rightarrow> bool" where
  "serializes u d cs v \<longleftrightarrow>
     (\<forall>N caps body. length caps + length cs \<le> N \<longrightarrow> length caps + length cs < 65536 \<longrightarrow>
       (\<exists>bs. ser d (ser_state N caps body) = AOk (ser_state N (caps @ cs) (body @ bs)) \<and> reads u (length caps) cs bs v))"

lemma readsD:
  assumes "reads u i cs bs v"
  shows "starts_value bs" "take (length cs) (drop i C) = cs \<Longrightarrow> 2 * length bs < n \<Longrightarrow>
    de_any u n (de_at C (bs @ rest)) = (de_at C rest, AOk v)"
  using assms by (simp_all add: reads_def)

lemma serializesE:
  assumes "serializes u d cs v" and "length caps + length cs \<le> N" and "length caps + length cs < 65536"
  obtains bs where "ser d (ser_state N caps body) = AOk (ser_state N (caps @ cs) (body @ bs))" "reads u (length caps) cs bs v"
  using assms unfolding serializes_def by blast

text \<open>Data without nested data, and data that wraps other data.\<close>

lemma serializes_leaf:
  assumes "t \<notin> {TFiller, TSequenceEnd, TMapEnd}"
    and "\<And>N caps body. ser d (ser_state N caps body) = AOk (ser_state N caps (body @ dt_byte t # r))"
    and "\<And>C rest n. de_any u (Suc n) (de_at C (dt_byte t # r @ rest)) = (de_at C rest, AOk v)"
  shows "serializes u d [] v"
proof -
  have "de_any u n (de_at C (dt_byte t # r @ rest)) = (de_at C rest, AOk v)" if "2 * length (dt_byte t # r) < n" for C rest n
    using that assms(3) by (cases n) simp_all
  then have "reads u i [] (dt_byte t # r) v" for i
    unfolding reads_def starts_value_def using assms(1) by auto
  then show ?thesis unfolding serializes_def using assms(2) by fastforce
qed

lemma serializes_wrap:
  assumes d: "serializes u d cs v" and t: "t \<notin> {TFiller, TSequenceEnd, TMapEnd}"
    and ser: "\<And>N caps body. ser d' (ser_state N caps body) = ser d (ser_state N caps (body @ dt_byte t # r))"
    and de: "\<And>C rest n. de_any u (Suc n) (de_at C (dt_byte t # r @ rest)) =
      dbind (de_any u n (de_at C rest)) (\<lambda>D v. (D, AOk (f v)))"
  shows "serializes u d' cs (f v)"
  unfolding serializes_def
proof (intro allI impI)
  fix N :: nat and caps :: "64 word list" and body :: "byte list"
  assume room: "length caps + length cs \<le> N" "length caps + length cs < 65536"
  obtain bs where bs: "ser d (ser_state N caps (body @ dt_byte t # r)) = AOk (ser_state N (caps @ cs) ((body @ dt_byte t # r) @ bs))"
    "reads u (length caps) cs bs v" by (rule serializesE [OF d room])
  have "reads u (length caps) cs (dt_byte t # r @ bs) (f v)"
    unfolding reads_def
  proof (intro conjI allI impI)
    show "starts_value (dt_byte t # r @ bs)" using t by (auto simp: starts_value_def)
    fix C rest n
    assume C: "take (length cs) (drop (length caps) C) = cs" and n: "2 * length (dt_byte t # r @ bs) < n"
    then obtain m where m: "n = Suc m" "2 * length bs < m" by (cases n) simp_all
    show "de_any u n (de_at C ((dt_byte t # r @ bs) @ rest)) = (de_at C rest, AOk (f v))"
      using de [of m C "bs @ rest"] readsD(2) [OF bs(2) C m(2)] by (simp add: m(1))
  qed
  with bs(1) show "\<exists>bs. ser d' (ser_state N caps body) = AOk (ser_state N (caps @ cs) (body @ bs)) \<and>
      reads u (length caps) cs bs (f v)"
    by (intro exI [of _ "dt_byte t # r @ bs"]) (simp add: ser)
qed

subsection \<open>Sequences and maps\<close>

lemma window_append:
  assumes "take (length (cs @ ds)) (drop i C) = cs @ ds"
  shows "take (length cs) (drop i C) = cs" "take (length ds) (drop (i + length cs) C) = ds"
proof -
  have "take (length cs) (take (length (cs @ ds)) (drop i C)) = cs" unfolding assms by simp
  then show "take (length cs) (drop i C) = cs" by (simp add: min_def)
  have "drop (length cs) (take (length (cs @ ds)) (drop i C)) = ds" unfolding assms by simp
  then show "take (length ds) (drop (i + length cs) C) = ds" by (simp add: drop_take add.commute)
qed

lemma starts_value_check:
  assumes "starts_value bs" and "e = TSequenceEnd \<or> e = TMapEnd"
  shows "check_if_finished e (de_at C (bs @ rest)) = (de_at C (bs @ rest), AOk False)"
proof -
  obtain t r where "bs = dt_byte t # r" "t \<notin> {TFiller, TSequenceEnd, TMapEnd}" using assms(1) by (auto simp: starts_value_def)
  then show ?thesis using assms(2) by (auto simp: check_if_finished_at)
qed

lemma starts_value_length: "starts_value bs \<Longrightarrow> 0 < length bs"
  by (auto simp: starts_value_def)

abbreviation collect_values :: "ser_data list \<Rightarrow> Value list \<Rightarrow> Value list aresult" where
  "collect_values ds acc \<equiv> fold_a (\<lambda>d acc. abind (to_value d) (\<lambda>v. AOk (acc @ [v]))) ds acc"

abbreviation collect_map :: "(ser_data \<times> ser_data) list \<Rightarrow> (Value \<times> Value) list \<Rightarrow> (Value \<times> Value) list aresult" where
  "collect_map es m \<equiv>
     fold_a (\<lambda>p m. abind (to_value (fst p)) (\<lambda>k. abind (to_value (snd p)) (\<lambda>v. AOk (bt_insert k v m)))) es m"

abbreviation ser_pairs :: "(ser_data \<times> ser_data) list \<Rightarrow> Serializer \<Rightarrow> Serializer aresult" where
  "ser_pairs es s \<equiv> fold_a (\<lambda>p s. abind (ser (fst p) s) (\<lambda>s. ser (snd p) s)) es s"

lemma ser_elements:
  assumes "\<And>d v. d \<in> set ds \<Longrightarrow> to_value d = AOk v \<Longrightarrow> serializes u d (caps_of d) v"
    and "collect_values ds acc = AOk vs" and "cs = concat (map caps_of ds)"
    and "length caps + length cs \<le> N" and "length caps + length cs < 65536"
  shows "\<exists>bs. fold_a ser ds (ser_state N caps body) = AOk (ser_state N (caps @ cs) (body @ bs)) \<and>
    (\<forall>C rest n. take (length cs) (drop (length caps) C) = cs \<longrightarrow> 2 * length bs + 1 < n \<longrightarrow>
      dbind (check_if_finished TSequenceEnd (de_at C (bs @ dt_byte TSequenceEnd # rest))) (\<lambda>D fin. de_seq u n fin acc D) =
        (de_at C rest, AOk (VSequence vs)))"
  using assms
proof (induction ds arbitrary: acc caps body cs)
  case Nil
  have "de_seq u n True acc D = (D, AOk (VSequence vs))" if "2 * length [] + 1 < n" for n D
    using that Nil.prems(2) by (cases n) (simp_all add: de_seq.simps)
  then show ?case using Nil.prems(3) by (intro exI [of _ "[]"]) (simp add: check_if_finished_at)
next
  case (Cons d ds)
  let ?cs1 = "caps_of d" and ?cs2 = "concat (map caps_of ds)"
  have cs: "cs = ?cs1 @ ?cs2" using Cons.prems(3) by simp
  obtain v where v: "to_value d = AOk v" "collect_values ds (acc @ [v]) = AOk vs"
    using Cons.prems(2) by (auto simp: abind_AOk_iff)
  obtain b1 where b1: "ser d (ser_state N caps body) = AOk (ser_state N (caps @ ?cs1) (body @ b1))" "reads u (length caps) ?cs1 b1 v"
    by (rule serializesE [OF Cons.prems(1) [OF _ v(1)], of caps N body]) (use Cons.prems(4,5) cs in simp_all)
  obtain b2 where b2: "fold_a ser ds (ser_state N (caps @ ?cs1) (body @ b1)) = AOk (ser_state N ((caps @ ?cs1) @ ?cs2) ((body @ b1) @ b2))"
    and rd: "\<And>C rest n. take (length ?cs2) (drop (length (caps @ ?cs1)) C) = ?cs2 \<Longrightarrow> 2 * length b2 + 1 < n \<Longrightarrow>
      dbind (check_if_finished TSequenceEnd (de_at C (b2 @ dt_byte TSequenceEnd # rest))) (\<lambda>D fin. de_seq u n fin (acc @ [v]) D) =
        (de_at C rest, AOk (VSequence vs))"
    using Cons.IH [of "acc @ [v]" ?cs2 "caps @ ?cs1" "body @ b1", OF Cons.prems(1) v(2) refl] Cons.prems(4,5) cs by auto
  have "dbind (check_if_finished TSequenceEnd (de_at C ((b1 @ b2) @ dt_byte TSequenceEnd # rest))) (\<lambda>D fin. de_seq u n fin acc D) =
      (de_at C rest, AOk (VSequence vs))"
    if C: "take (length cs) (drop (length caps) C) = cs" and n: "2 * length (b1 @ b2) + 1 < n" for C rest n
  proof -
    note w = window_append [OF C [unfolded cs]]
    have pos: "0 < length b1" by (rule starts_value_length [OF readsD(1) [OF b1(2)]])
    obtain m where nm: "n = Suc m" using n by (cases n) simp_all
    have m: "2 * length b1 < m" "2 * length b2 + 1 < m" 
      using n pos unfolding nm length_append by (simp_all only: distrib_left)
    have "de_any u m (de_at C (b1 @ b2 @ dt_byte TSequenceEnd # rest)) = (de_at C (b2 @ dt_byte TSequenceEnd # rest), AOk v)"
      by (rule readsD(2) [OF b1(2) w(1) m(1)])
    then show ?thesis
      using starts_value_check [OF readsD(1) [OF b1(2)], of TSequenceEnd C "b2 @ dt_byte TSequenceEnd # rest"] rd [OF _ m(2)] w(2)
      by (simp add: nm de_seq.simps)
  qed
  then show ?case using b1(1) b2 by (intro exI [of _ "b1 @ b2"]) (simp add: cs)
qed

lemma ser_pair_elements:
  assumes "\<And>p v. p \<in> set es \<Longrightarrow> to_value (fst p) = AOk v \<Longrightarrow> serializes u (fst p) (caps_of (fst p)) v"
    and "\<And>p v. p \<in> set es \<Longrightarrow> to_value (snd p) = AOk v \<Longrightarrow> serializes u (snd p) (caps_of (snd p)) v"
    and "collect_map es m = AOk m'" and "cs = concat (map (\<lambda>p. caps_of (fst p) @ caps_of (snd p)) es)"
    and "length caps + length cs \<le> N" and "length caps + length cs < 65536"
  shows "\<exists>bs. ser_pairs es (ser_state N caps body) = AOk (ser_state N (caps @ cs) (body @ bs)) \<and>
    (\<forall>C rest n. take (length cs) (drop (length caps) C) = cs \<longrightarrow> 2 * length bs + 1 < n \<longrightarrow>
      dbind (check_if_finished TMapEnd (de_at C (bs @ dt_byte TMapEnd # rest))) (\<lambda>D fin. de_map u n fin m D) =
        (de_at C rest, AOk (VMap m')))"
  using assms
proof (induction es arbitrary: m caps body cs)
  case Nil
  have "de_map u n True m D = (D, AOk (VMap m'))" if "2 * length [] + 1 < n" for n D
    using that Nil.prems(3) by (cases n) (simp_all add: de_map.simps)
  then show ?case using Nil.prems(4) by (intro exI [of _ "[]"]) (simp add: check_if_finished_at)
next
  case (Cons p es)
  let ?ck = "caps_of (fst p)" and ?cv = "caps_of (snd p)" and ?cs2 = "concat (map (\<lambda>p. caps_of (fst p) @ caps_of (snd p)) es)"
  have cs: "cs = ?ck @ ?cv @ ?cs2" using Cons.prems(4) by simp
  obtain k v where v: "to_value (fst p) = AOk k" "to_value (snd p) = AOk v" "collect_map es (bt_insert k v m) = AOk m'"
    using Cons.prems(3) by (auto simp: abind_AOk_iff)
  obtain b1 where b1: "ser (fst p) (ser_state N caps body) = AOk (ser_state N (caps @ ?ck) (body @ b1))" "reads u (length caps) ?ck b1 k"
    by (rule serializesE [OF Cons.prems(1) [OF _ v(1)], of caps N body]) (use Cons.prems(5,6) cs in simp_all)
  obtain b2 where b2: "ser (snd p) (ser_state N (caps @ ?ck) (body @ b1)) = AOk (ser_state N ((caps @ ?ck) @ ?cv) ((body @ b1) @ b2))"
      "reads u (length (caps @ ?ck)) ?cv b2 v"
    by (rule serializesE [OF Cons.prems(2) [OF _ v(2)], of "caps @ ?ck" N "body @ b1"]) (use Cons.prems(5,6) cs in simp_all)
  have room: "length ((caps @ ?ck) @ ?cv) + length ?cs2 \<le> N" "length ((caps @ ?ck) @ ?cv) + length ?cs2 < 65536"
    using Cons.prems(5,6) by (simp_all add: cs)
  have sub: "\<And>q v. q \<in> set es \<Longrightarrow> to_value (fst q) = AOk v \<Longrightarrow> serializes u (fst q) (caps_of (fst q)) v"
    "\<And>q v. q \<in> set es \<Longrightarrow> to_value (snd q) = AOk v \<Longrightarrow> serializes u (snd q) (caps_of (snd q)) v"
    by (rule Cons.prems(1), simp_all) (rule Cons.prems(2), simp_all)
  obtain b3 where b3: "ser_pairs es (ser_state N ((caps @ ?ck) @ ?cv) ((body @ b1) @ b2)) =
      AOk (ser_state N (((caps @ ?ck) @ ?cv) @ ?cs2) (((body @ b1) @ b2) @ b3))"
    and rd: "\<And>C rest n. take (length ?cs2) (drop (length ((caps @ ?ck) @ ?cv)) C) = ?cs2 \<Longrightarrow> 2 * length b3 + 1 < n \<Longrightarrow>
      dbind (check_if_finished TMapEnd (de_at C (b3 @ dt_byte TMapEnd # rest))) (\<lambda>D fin. de_map u n fin (bt_insert k v m) D) =
        (de_at C rest, AOk (VMap m'))"
    using Cons.IH [of "bt_insert k v m" ?cs2 "(caps @ ?ck) @ ?cv" "(body @ b1) @ b2", OF sub v(3) refl room] by blast
  have "dbind (check_if_finished TMapEnd (de_at C ((b1 @ b2 @ b3) @ dt_byte TMapEnd # rest))) (\<lambda>D fin. de_map u n fin m D) =
      (de_at C rest, AOk (VMap m'))"
    if C: "take (length cs) (drop (length caps) C) = cs" and n: "2 * length (b1 @ b2 @ b3) + 1 < n" for C rest n
  proof -
    note w = window_append [OF C [unfolded cs]]
    note w2 = window_append [OF w(2)]
    have pos: "0 < length b1" by (rule starts_value_length [OF readsD(1) [OF b1(2)]])
    obtain q where nq: "n = Suc q" using n by (cases n) simp_all
    have q: "2 * length b1 < q" "2 * length b2 < q" "2 * length b3 + 1 < q" 
      using n pos unfolding nq length_append by (simp_all only: distrib_left)
    have "de_any u q (de_at C (b1 @ b2 @ b3 @ dt_byte TMapEnd # rest)) = (de_at C (b2 @ b3 @ dt_byte TMapEnd # rest), AOk k)"
      by (rule readsD(2) [OF b1(2) w(1) q(1)])
    moreover have "de_any u q (de_at C (b2 @ b3 @ dt_byte TMapEnd # rest)) = (de_at C (b3 @ dt_byte TMapEnd # rest), AOk v)"
      by (rule readsD(2) [OF b2(2) _ q(2)]) (use w2(1) in simp)
    ultimately show ?thesis
      using starts_value_check [OF readsD(1) [OF b1(2)], of TMapEnd C "b2 @ b3 @ dt_byte TMapEnd # rest"] rd [OF _ q(3)] w2(2)
      by (simp add: nq de_map.simps add.assoc)
  qed
  then show ?case using b1(1) b2(1) b3 by (intro exI [of _ "b1 @ b2 @ b3"]) (simp add: cs)
qed

subsection \<open>The induction\<close>

lemma take_len_at:
  "len < 2 ^ 16 \<Longrightarrow> take_u16 (de_at C (le_bytes 2 len @ rest)) = (de_at C rest, AOk (of_nat len))"
  "len < 2 ^ 32 \<Longrightarrow> take_u32 (de_at C (le_bytes 4 len @ rest)) = (de_at C rest, AOk (of_nat len))"
  "len < 2 ^ 64 \<Longrightarrow> take_u64 (de_at C (le_bytes 8 len @ rest)) = (de_at C rest, AOk (of_nat len))"
  by (simp_all add: take_u16_def take_u32_def take_u64_def take_bytes_at from_le_bytes)

lemma serializes_sized:
  assumes len: "length data < usize_limit"
    and ts: "\<And>t. t \<in> {t8, t16, t32, t64} \<Longrightarrow> t \<notin> {TFiller, TSequenceEnd, TMapEnd}"
    and ser: "\<And>s. ser d s = AOk (push_bytes data (push_correct_size_type (length data) t8 t16 t32 t64 s))"
    and V: "\<And>C rest. V (length data) (de_at C (data @ rest)) = (de_at C rest, AOk vis)"
    and visit: "\<And>D. visit_of_type t8 D = dbind (take_u8 D) (\<lambda>D n. V (unat n) D)"
      "\<And>D. visit_of_type t16 D = dbind (take_u16 D) (\<lambda>D n. V (unat n) D)"
      "\<And>D. visit_of_type t32 D = dbind (take_u32 D) (\<lambda>D n. V (unat n) D)"
      "\<And>D. visit_of_type t64 D = dbind (take_u64 D) (\<lambda>D n. V (unat n) D)"
    and out: "\<And>C bs rest n. next_visit (de_at C bs) = (de_at C rest, AOk vis) \<Longrightarrow>
      de_any u (Suc n) (de_at C bs) = (de_at C rest, AOk v)"
  shows "serializes u d [] v"
proof -
  let ?n = "length data"
  consider "?n \<le> 0xFF" | "0xFF < ?n" "?n \<le> 0xFFFF" | "0xFFFF < ?n" "?n \<le> 0xFFFFFFFF" | "0xFFFFFFFF < ?n" by linarith
  then show ?thesis
  proof cases
    case 1
    then have "unat (of_nat ?n :: 8 word) = ?n" by (simp add: unat_of_nat)
    then show ?thesis
      by (intro serializes_leaf [where t = t8 and r = "[of_nat ?n] @ data"] out)
        (use 1 ts [of t8] in \<open>simp_all add: ser push_correct_size_type_def next_visit_at visit V\<close>)
  next
    case 2
    then have "unat (of_nat ?n :: 16 word) = ?n" by (simp add: unat_of_nat)
    then show ?thesis
      by (intro serializes_leaf [where t = t16 and r = "le_bytes 2 ?n @ data"] out)
        (use 2 ts [of t16] len in \<open>simp_all add: ser push_correct_size_type_def next_visit_at visit V take_len_at\<close>)
  next
    case 3
    then have "unat (of_nat ?n :: 32 word) = ?n" by (simp add: unat_of_nat)
    then show ?thesis
      by (intro serializes_leaf [where t = t32 and r = "le_bytes 4 ?n @ data"] out)
        (use 3 ts [of t32] len in \<open>simp_all add: ser push_correct_size_type_def next_visit_at visit V take_len_at\<close>)
  next
    case 4
    then have "unat (of_nat ?n :: 64 word) = ?n" using len by (simp add: unat_of_nat)
    then show ?thesis
      by (intro serializes_leaf [where t = t64 and r = "le_bytes 8 ?n @ data"] out)
        (use 4 ts [of t64] len in \<open>simp_all add: ser push_correct_size_type_def next_visit_at visit V take_len_at\<close>)
  qed
qed

lemma visit_str_at: "utf8_valid s \<Longrightarrow> visit_str (length s) (de_at C (s @ rest)) = (de_at C rest, AOk (VisStr s))"
  by (simp add: visit_str_def take_str_def take_bytes_at)

lemma visit_bytes_at: "visit_bytes (length s) (de_at C (s @ rest)) = (de_at C rest, AOk (VisBytes s))"
  by (simp add: visit_bytes_def take_bytes_at)

lemma serializes_str: "text_ok s \<Longrightarrow> serializes u (SStr s) [] (VString s)"
  by (rule serializes_sized [where V = visit_str and vis = "VisStr s" and data = s])
    (auto simp: text_ok_def serialize_str_def visit_str_at visit_of_type_def de_any.simps)

lemma serializes_bytes: "length s < usize_limit \<Longrightarrow> serializes u (SBytes s) [] (VBytes s)"
  by (rule serializes_sized [where V = visit_bytes and vis = "VisBytes s" and data = s])
    (auto simp: serialize_bytes_def visit_bytes_at visit_of_type_def de_any.simps)

lemma serializes_collect_str:
  assumes "text_ok s"
  shows "serializes u (SCollectStr (Some s)) [] (VString s)"
proof -
  show ?thesis
    by (rule serializes_leaf [where t = TString64 and r = "le_bytes 8 (length s) @ s"])
      (use assms in \<open>simp_all add: text_ok_def collect_str_state de_any.simps next_visit_at visit_of_type_def take_len_at visit_str_at unat_of_nat\<close>)
qed

lemmas leaf_simps = de_any.simps next_visit_at visit_of_type_def serialize_bool_def serialize_int_def serialize_float_def
  serialize_char_def serialize_unit_def serialize_unit_variant_def variant_value_def

lemma serializes_int: "serializes u (SInt n) [] (VInteger n)"
proof (cases n)
  case (I8 v)
  show ?thesis unfolding I8 by (rule serializes_leaf [where t = TI8 and r = "[v]"]) (simp_all add: leaf_simps)
next
  case (U8 v)
  show ?thesis unfolding U8 by (rule serializes_leaf [where t = TU8 and r = "[v]"]) (simp_all add: leaf_simps)
next
  case (I16 v)
  show ?thesis unfolding I16 by (rule serializes_leaf [where t = TI16 and r = "le_bytes 2 (unat v)"]) (simp_all add: leaf_simps)
next
  case (U16 v)
  show ?thesis unfolding U16 by (rule serializes_leaf [where t = TU16 and r = "le_bytes 2 (unat v)"]) (simp_all add: leaf_simps)
next
  case (I32 v)
  show ?thesis unfolding I32 by (rule serializes_leaf [where t = TI32 and r = "le_bytes 4 (unat v)"]) (simp_all add: leaf_simps)
next
  case (U32 v)
  show ?thesis unfolding U32 by (rule serializes_leaf [where t = TU32 and r = "le_bytes 4 (unat v)"]) (simp_all add: leaf_simps)
next
  case (I64 v)
  show ?thesis unfolding I64 by (rule serializes_leaf [where t = TI64 and r = "le_bytes 8 (unat v)"]) (simp_all add: leaf_simps)
next
  case (U64 v)
  show ?thesis unfolding U64 by (rule serializes_leaf [where t = TU64 and r = "le_bytes 8 (unat v)"]) (simp_all add: leaf_simps)
next
  case (I128 v)
  show ?thesis unfolding I128 by (rule serializes_leaf [where t = TI128 and r = "le_bytes 16 (unat v)"]) (simp_all add: leaf_simps)
next
  case (U128 v)
  show ?thesis unfolding U128 by (rule serializes_leaf [where t = TU128 and r = "le_bytes 16 (unat v)"]) (simp_all add: leaf_simps)
qed

lemma serializes_basic:
  "serializes u (SBool b) [] (VBool b)" "serializes u (SFloat f) [] (VFloat f)"
  "char_valid c \<Longrightarrow> serializes u (SChar c) [] (VChar c)"
  "serializes u SUnit [] VNull" "serializes u SNone [] VNull" "serializes u SUnitStruct [] VNull"
  "i \<noteq> SERIALIZE_ENUM_VARIANT \<Longrightarrow> serializes u (SUnitVariant i) [] (VEnumVariant i VNull)"
proof -
  show "serializes u (SBool b) [] (VBool b)"
    by (rule serializes_leaf [where t = "if b then TTrue else TFalse" and r = "[]"]) (simp_all add: leaf_simps)
  show "serializes u (SFloat f) [] (VFloat f)"
  proof (cases f)
    case (F32 v)
    show ?thesis unfolding F32 by (rule serializes_leaf [where t = TF32 and r = "le_bytes 4 (unat v)"]) (simp_all add: leaf_simps)
  next
    case (F64 v)
    show ?thesis unfolding F64 by (rule serializes_leaf [where t = TF64 and r = "le_bytes 8 (unat v)"]) (simp_all add: leaf_simps)
  qed
  show "char_valid c \<Longrightarrow> serializes u (SChar c) [] (VChar c)"
    by (rule serializes_leaf [where t = TChar and r = "le_bytes 4 (unat c)"]) (simp_all add: leaf_simps)
  show "serializes u SUnit [] VNull" "serializes u SNone [] VNull" "serializes u SUnitStruct [] VNull"
    by (rule serializes_leaf [where t = TNull and r = "[]"], simp_all add: leaf_simps)+
  show "i \<noteq> SERIALIZE_ENUM_VARIANT \<Longrightarrow> serializes u (SUnitVariant i) [] (VEnumVariant i VNull)"
    by (rule serializes_leaf [where t = TVariant and r = "le_bytes 4 (unat i)"]) (simp_all add: leaf_simps)
qed

text \<open>A sequence and a map between their opening and closing bytes.\<close>

lemma serializes_seq:
  assumes "\<And>d v. d \<in> set ds \<Longrightarrow> to_value d = AOk v \<Longrightarrow> serializes u d (caps_of d) v"
    and vs: "collect_values ds [] = AOk vs"
  shows "serializes u (SSeq ds) (concat (map caps_of ds)) (VSequence vs)"
  unfolding serializes_def
proof (intro allI impI)
  fix N :: nat and caps :: "64 word list" and body :: "byte list"
  let ?cs = "concat (map caps_of ds)"
  assume room: "length caps + length ?cs \<le> N" "length caps + length ?cs < 65536"
  obtain bs where bs: "fold_a ser ds (ser_state N caps (body @ [dt_byte TSequenceStart])) =
      AOk (ser_state N (caps @ ?cs) ((body @ [dt_byte TSequenceStart]) @ bs))"
    and rd: "\<And>C rest n. take (length ?cs) (drop (length caps) C) = ?cs \<Longrightarrow> 2 * length bs + 1 < n \<Longrightarrow>
      dbind (check_if_finished TSequenceEnd (de_at C (bs @ dt_byte TSequenceEnd # rest))) (\<lambda>D fin. de_seq u n fin [] D) =
        (de_at C rest, AOk (VSequence vs))"
    using ser_elements [OF assms(1) vs refl room, of "body @ [dt_byte TSequenceStart]"] by blast
  let ?bs = "dt_byte TSequenceStart # bs @ [dt_byte TSequenceEnd]"
  have "de_any u n (de_at C (?bs @ rest)) = (de_at C rest, AOk (VSequence vs))"
    if C: "take (length ?cs) (drop (length caps) C) = ?cs" and n: "2 * length ?bs < n" for C rest n
  proof -
    obtain m where m: "n = Suc m" "2 * length bs + 1 < m" using n by (cases n) simp_all
    have vis: "next_visit (de_at C (dt_byte TSequenceStart # bs @ dt_byte TSequenceEnd # rest)) =
        dbind (check_if_finished TSequenceEnd (de_at C (bs @ dt_byte TSequenceEnd # rest))) (\<lambda>D fin. (D, AOk (VisSeq fin)))"
      by (simp add: next_visit_at visit_of_type_def)
    obtain D r where c: "check_if_finished TSequenceEnd (de_at C (bs @ dt_byte TSequenceEnd # rest)) = (D, r)" by fastforce
    show ?thesis using rd [OF C m(2), of rest] vis by (cases r) (simp_all add: m(1) de_any.simps c)
  qed
  then have "reads u (length caps) ?cs ?bs (VSequence vs)"
    by (auto simp: reads_def starts_value_def)
  with bs show "\<exists>bs. ser (SSeq ds) (ser_state N caps body) = AOk (ser_state N (caps @ ?cs) (body @ bs)) \<and>
      reads u (length caps) ?cs bs (VSequence vs)"
    by (intro exI [of _ ?bs]) (simp add: end_seq_def)
qed

lemma serializes_map:
  assumes "\<And>p v. p \<in> set es \<Longrightarrow> to_value (fst p) = AOk v \<Longrightarrow> serializes u (fst p) (caps_of (fst p)) v"
    and "\<And>p v. p \<in> set es \<Longrightarrow> to_value (snd p) = AOk v \<Longrightarrow> serializes u (snd p) (caps_of (snd p)) v"
    and vs: "collect_map es [] = AOk vs"
  shows "serializes u (SMap es) (caps_of (SMap es)) (VMap vs)"
  unfolding serializes_def caps_of.simps
proof (intro allI impI)
  fix N :: nat and caps :: "64 word list" and body :: "byte list"
  let ?cs = "concat (map (\<lambda>p. caps_of (fst p) @ caps_of (snd p)) es)"
  assume room: "length caps + length ?cs \<le> N" "length caps + length ?cs < 65536"
  obtain bs where bs: "ser_pairs es (ser_state N caps (body @ [dt_byte TMapStart])) =
      AOk (ser_state N (caps @ ?cs) ((body @ [dt_byte TMapStart]) @ bs))"
    and rd: "\<And>C rest n. take (length ?cs) (drop (length caps) C) = ?cs \<Longrightarrow> 2 * length bs + 1 < n \<Longrightarrow>
      dbind (check_if_finished TMapEnd (de_at C (bs @ dt_byte TMapEnd # rest))) (\<lambda>D fin. de_map u n fin [] D) =
        (de_at C rest, AOk (VMap vs))"
    using ser_pair_elements [OF assms(1,2) vs refl room, of "body @ [dt_byte TMapStart]"] by blast
  let ?bs = "dt_byte TMapStart # bs @ [dt_byte TMapEnd]"
  have "de_any u n (de_at C (?bs @ rest)) = (de_at C rest, AOk (VMap vs))"
    if C: "take (length ?cs) (drop (length caps) C) = ?cs" and n: "2 * length ?bs < n" for C rest n
  proof -
    obtain m where m: "n = Suc m" "2 * length bs + 1 < m" using n by (cases n) simp_all
    have vis: "next_visit (de_at C (dt_byte TMapStart # bs @ dt_byte TMapEnd # rest)) =
        dbind (check_if_finished TMapEnd (de_at C (bs @ dt_byte TMapEnd # rest))) (\<lambda>D fin. (D, AOk (VisMap fin)))"
      by (simp add: next_visit_at visit_of_type_def)
    obtain D r where c: "check_if_finished TMapEnd (de_at C (bs @ dt_byte TMapEnd # rest)) = (D, r)" by fastforce
    show ?thesis using rd [OF C m(2), of rest] vis by (cases r) (simp_all add: m(1) de_any.simps c)
  qed
  then have "reads u (length caps) ?cs ?bs (VMap vs)"
    by (auto simp: reads_def starts_value_def)
  with bs show "\<exists>bs. ser (SMap es) (ser_state N caps body) = AOk (ser_state N (caps @ ?cs) (body @ bs)) \<and>
      reads u (length caps) ?cs bs (VMap vs)"
    by (intro exI [of _ ?bs]) (simp add: end_map_def)
qed

text \<open>A struct is a map whose keys are the names of the fields.\<close>

abbreviation as_map :: "(byte list \<times> ser_data) list \<Rightarrow> (ser_data \<times> ser_data) list" where
  "as_map fs \<equiv> map (\<lambda>p. (SCollectStr (Some (fst p)), snd p)) fs"

lemma fold_a_map: "fold_a f (map g xs) s = fold_a (\<lambda>x. f (g x)) xs s"
proof (induction xs arbitrary: s)
  case (Cons x xs)
  then show ?case by (auto intro!: abind_cong)
qed simp

lemma struct_as_map:
  "ser (SStruct fs) s = ser (SMap (as_map fs)) s" "to_value (SStruct fs) = to_value (SMap (as_map fs))"
  "caps_of (SStruct fs) = caps_of (SMap (as_map fs))"
  by (simp_all add: fold_a_map comp_def)

lemma serializes_cong: "(\<And>s. ser d s = ser d' s) \<Longrightarrow> serializes u d cs v \<longleftrightarrow> serializes u d' cs v"
  by (simp add: serializes_def)

definition u64_visitor_ok :: "(visit \<Rightarrow> 64 word option) \<Rightarrow> bool" where
  "u64_visitor_ok u \<longleftrightarrow> (\<forall>n. u (VisInt (U64 n)) = Some n)"

lemma serializes_capability:
  assumes u: "u64_visitor_ok u" and c: "find_capability d = AOk c" and id: "CapId_try_from (unat c) = Some i"
  shows "serializes u (SNewtypeVariant SERIALIZE_ENUM_VARIANT d) [c] (VCapability i)"
  unfolding serializes_def
proof (intro allI impI)
  fix N :: nat and caps :: "64 word list" and body :: "byte list"
  assume room: "length caps + length [c] \<le> N" "length caps + length [c] < 65536"
  define k where "k = (of_nat (length caps) :: 16 word)"
  have k: "unat k = length caps" using room(2) by (simp add: k_def unat_of_nat)
  have "unat (of_nat (Suc (length caps)) :: 16 word) = Suc (length caps)"
    using room(2) by (simp only: unat_of_nat) simp
  then have ne: "(of_nat (Suc (length caps)) :: 16 word) \<noteq> 0" by (metis nat.distinct(1) unat_0)
  let ?bs = "dt_byte TCapability # le_bytes 2 (length caps)"
  have "ser (SNewtypeVariant SERIALIZE_ENUM_VARIANT d) (ser_state N caps body) = AOk (ser_state N (caps @ [c]) (body @ ?bs))"
    using ne room push_capability_state [of caps N c "body @ ?bs"]
    by (simp add: serialize_capability_def Let_def c k [unfolded k_def])
  moreover have "reads u (length caps) [c] ?bs (VCapability i)"
    unfolding reads_def
  proof (intro conjI allI impI)
    show "starts_value ?bs" by (auto simp: starts_value_def)
    fix C :: "64 word list" and rest n
    assume C: "take (length [c]) (drop (length caps) C) = [c]" and n: "2 * length ?bs < n"
    then obtain m where m: "n = Suc m" by (cases n) simp_all
    obtain cs where cs: "drop (length caps) C = c # cs" using C by (cases "drop (length caps) C") simp_all
    have "length caps < length C" using arg_cong [OF cs, of length] by simp
    then have C': "length caps < length C" "C ! length caps = c" using hd_drop_conv_nth [of "length caps" C] cs by simp_all
    show "de_any u n (de_at C (?bs @ rest)) = (de_at C rest, AOk (VCapability i))"
      using u C' id room(2) by (simp add: m leaf_simps take_len_at k [unfolded k_def] u64_visitor_ok_def cap_value_def)
  qed
  ultimately show "\<exists>bs. ser (SNewtypeVariant SERIALIZE_ENUM_VARIANT d) (ser_state N caps body) =
      AOk (ser_state N (caps @ [c]) (body @ bs)) \<and> reads u (length caps) [c] bs (VCapability i)" by blast
qed

lemma serializes_variant:
  assumes "serializes u d cs v" and "i \<noteq> SERIALIZE_ENUM_VARIANT"
    and "\<And>s. ser d' s = ser d (variant_value i s)"
  shows "serializes u d' cs (VEnumVariant i v)"
  by (rule serializes_wrap [OF assms(1), where t = TVariantValue and r = "le_bytes 4 (unat i)"])
    (use assms(2,3) in \<open>simp_all add: leaf_simps\<close>)

lemma serializes_struct:
  assumes "\<And>p. p \<in> set fs \<Longrightarrow> text_ok (fst p)"
    and "\<And>p v. p \<in> set fs \<Longrightarrow> to_value (snd p) = AOk v \<Longrightarrow> serializes u (snd p) (caps_of (snd p)) v"
    and "to_value (SStruct fs) = AOk v"
  shows "serializes u (SStruct fs) (caps_of (SStruct fs)) v"
proof -
  obtain m where m: "collect_map (as_map fs) [] = AOk m" "v = VMap m"
    using assms(3) unfolding struct_as_map(2) by (auto simp: abind_AOk_iff)
  have "serializes u (SMap (as_map fs)) (caps_of (SMap (as_map fs))) (VMap m)"
  proof (rule serializes_map [OF _ _ m(1)])
    fix p v
    assume "p \<in> set (as_map fs)"
    then obtain q where q: "q \<in> set fs" "p = (SCollectStr (Some (fst q)), snd q)" by auto
    show "serializes u (fst p) (caps_of (fst p)) v" if "to_value (fst p) = AOk v"
      using that serializes_collect_str [OF assms(1) [OF q(1)]] by (simp add: q(2))
    show "serializes u (snd p) (caps_of (snd p)) v" if "to_value (snd p) = AOk v"
      using that assms(2) [OF q(1)] by (simp add: q(2))
  qed
  then show ?thesis unfolding m(2) struct_as_map(3) by (subst serializes_cong [OF struct_as_map(1)])
qed

lemma ser_correct:
  assumes u: "u64_visitor_ok u"
  shows "wf_data d \<Longrightarrow> to_value d = AOk v \<Longrightarrow> serializes u d (caps_of d) v"
proof (induction d arbitrary: v)
  case (SSome d)
  then obtain w where w: "to_value d = AOk w" "v = VSome w" by (auto simp: abind_AOk_iff)
  show ?case unfolding w(2) caps_of.simps
    by (rule serializes_wrap [OF SSome.IH [OF _ w(1)], where t = TSome and r = "[]"]) (use SSome.prems(1) in \<open>simp_all add: leaf_simps\<close>)
next
  case (SNewtypeStruct d)
  then obtain w where w: "to_value d = AOk w" "v = VNewtype w" by (auto simp: abind_AOk_iff)
  show ?case unfolding w(2) caps_of.simps
    by (rule serializes_wrap [OF SNewtypeStruct.IH [OF _ w(1)], where t = TNewtype and r = "[]"])
      (use SNewtypeStruct.prems(1) in \<open>simp_all add: leaf_simps\<close>)
next
  case (SNewtypeVariant i d)
  show ?case
  proof (cases "i = SERIALIZE_ENUM_VARIANT")
    case True
    then obtain c k where "find_capability d = AOk c" "CapId_try_from (unat c) = Some k" "v = VCapability k"
      using SNewtypeVariant.prems(2) by (auto simp: abind_AOk_iff a_ok_or_def split: option.splits)
    with True serializes_capability [OF u] show ?thesis by simp
  next
    case False
    then obtain w where w: "to_value d = AOk w" "v = VEnumVariant i w" using SNewtypeVariant.prems(2) by (auto simp: abind_AOk_iff)
    have "serializes u d (caps_of d) w" using SNewtypeVariant.IH [OF _ w(1)] SNewtypeVariant.prems(1) False by simp
    then have "serializes u (SNewtypeVariant i d) (caps_of d) (VEnumVariant i w)"
      by (rule serializes_variant) (use False in simp_all)
    then show ?thesis using False w(2) by simp
  qed
next
  case (SSeq ds)
  then show ?case using serializes_seq [of ds u] by (fastforce simp: abind_AOk_iff list_all_iff)
next
  case (STuple ds)
  then have "serializes u (SSeq ds) (caps_of (STuple ds)) v"
    using serializes_seq [of ds u] by (fastforce simp: abind_AOk_iff list_all_iff)
  then show ?case by (subst serializes_cong [of _ "SSeq ds"]) simp_all
next
  case (STupleStruct ds)
  then have "serializes u (SSeq ds) (caps_of (STupleStruct ds)) v"
    using serializes_seq [of ds u] by (fastforce simp: abind_AOk_iff list_all_iff)
  then show ?case by (subst serializes_cong [of _ "SSeq ds"]) simp_all
next
  case (STupleVariant i ds)
  then obtain vs where vs: "collect_values ds [] = AOk vs" "v = VEnumVariant i (VSequence vs)" by (auto simp: abind_AOk_iff)
  have "serializes u (SSeq ds) (caps_of (STupleVariant i ds)) (VSequence vs)"
    using serializes_seq [of ds u vs] STupleVariant vs(1) by (fastforce simp: list_all_iff)
  then show ?case unfolding vs(2) by (rule serializes_variant) (use STupleVariant.prems(1) in simp_all)
next
  case (SMap es)
  then obtain m where m: "collect_map es [] = AOk m" "v = VMap m" by (auto simp: abind_AOk_iff)
  show ?case unfolding m(2)
  proof (rule serializes_map [OF _ _ m(1)])
    fix p v
    assume p: "p \<in> set es"
    have "wf_data (fst p)" "wf_data (snd p)" using SMap.prems(1) p by (auto simp: list_all_iff)
    with SMap.IH [OF p] show "to_value (fst p) = AOk v \<Longrightarrow> serializes u (fst p) (caps_of (fst p)) v"
      "to_value (snd p) = AOk v \<Longrightarrow> serializes u (snd p) (caps_of (snd p)) v"
      by (simp_all add: fsts.simps snds.simps)
  qed
next
  case (SStruct fs)
  show ?case
    by (rule serializes_struct [OF _ _ SStruct.prems(2)])
      (use SStruct in \<open>auto simp: list_all_iff snds.simps\<close>)
next
  case (SStructVariant i fs)
  then obtain w where w: "to_value (SStruct fs) = AOk w" "v = VEnumVariant i w" by (auto simp: abind_AOk_iff)
  have "serializes u (SStruct fs) (caps_of (SStruct fs)) w"
    by (rule serializes_struct [OF _ _ w(1)]) (use SStructVariant in \<open>auto simp: list_all_iff snds.simps\<close>)
  then have "serializes u (SStructVariant i fs) (caps_of (SStruct fs)) (VEnumVariant i w)"
    by (rule serializes_variant) (use SStructVariant.prems(1) in simp_all)
  then show ?case by (simp add: w(2))
next
  case (SCollectStr x)
  then obtain s where "x = Some s" "v = VString s" by (cases x) auto
  with SCollectStr.prems(1) show ?case by (simp add: serializes_collect_str)
qed (auto intro: serializes_basic serializes_int serializes_str serializes_bytes)

subsection \<open>Whole messages\<close>

lemma fold_count:
  fixes k :: "'a \<Rightarrow> nat"
  assumes "\<And>x n. x \<in> set xs \<Longrightarrow> n + k x < L \<Longrightarrow> f x n = AOk (n + k x)" and "n + sum_list (map k xs) < L"
  shows "fold_a f xs n = AOk (n + sum_list (map k xs))"
  using assms
proof (induction xs arbitrary: n)
  case (Cons x xs)
  have "f x n = AOk (n + k x)" by (rule Cons.prems(1)) (use Cons.prems(2) in simp_all)
  moreover have "fold_a f xs (n + k x) = AOk (n + k x + sum_list (map k xs))"
    by (rule Cons.IH) (use Cons.prems in simp_all)
  ultimately show ?case by (simp add: add.assoc)
qed simp

lemma fold_a_all_ok: "fold_a f xs s = AOk r \<Longrightarrow> x \<in> set xs \<Longrightarrow> \<exists>s r. f x s = AOk r"
  by (induction xs arbitrary: s) (auto simp: abind_AOk_iff)

lemma count_seq:
  assumes "\<And>d v n. d \<in> set ds \<Longrightarrow> to_value d = AOk v \<Longrightarrow> n + length (caps_of d) < usize_limit \<Longrightarrow>
      count_caps d n = AOk (n + length (caps_of d))"
    and "collect_values ds acc = AOk vs" and "n + length (concat (map caps_of ds)) < usize_limit"
  shows "fold_a count_caps ds n = AOk (n + length (concat (map caps_of ds)))"
proof -
  have "\<exists>v. to_value d = AOk v" if "d \<in> set ds" for d
    using fold_a_all_ok [OF assms(2) that] by (auto simp: abind_AOk_iff)
  then have "fold_a count_caps ds n = AOk (n + sum_list (map (\<lambda>d. length (caps_of d)) ds))"
    by (intro fold_count [where L = usize_limit]) (use assms(1,3) in \<open>auto simp: length_concat comp_def\<close>)
  then show ?thesis by (simp add: length_concat comp_def)
qed

lemma count_fields:
  assumes "\<And>p v n. p \<in> set fs \<Longrightarrow> to_value (snd p) = AOk v \<Longrightarrow> n + length (caps_of (snd p)) < usize_limit \<Longrightarrow>
      count_caps (snd p) n = AOk (n + length (caps_of (snd p)))"
    and "to_value (SStruct fs) = AOk v" and "n + length (concat (map (\<lambda>p. caps_of (snd p)) fs)) < usize_limit"
  shows "fold_a (\<lambda>p n. count_caps (snd p) n) fs n = AOk (n + length (concat (map (\<lambda>p. caps_of (snd p)) fs)))"
proof -
  obtain m where m: "fold_a (\<lambda>p m. abind (to_value (snd p)) (\<lambda>v. AOk (bt_insert (VString (fst p)) v m))) fs [] = AOk m"
    using assms(2) by (auto simp: abind_AOk_iff)
  have ok: "count_caps (snd p) n = AOk (n + length (caps_of (snd p)))"
    if p: "p \<in> set fs" "n + length (caps_of (snd p)) < usize_limit" for p n
  proof -
    obtain v where "to_value (snd p) = AOk v" using fold_a_all_ok [OF m p(1)] by (auto simp: abind_AOk_iff)
    from assms(1) [OF p(1) this p(2)] show ?thesis .
  qed
  have "fold_a (\<lambda>p n. count_caps (snd p) n) fs n = AOk (n + sum_list (map (\<lambda>p. length (caps_of (snd p))) fs))"
    by (rule fold_count [where L = usize_limit, OF ok]) (use assms(3) in \<open>simp_all add: length_concat comp_def\<close>)
  then show ?thesis by (simp add: length_concat comp_def)
qed

lemma count_pairs:
  assumes "\<And>p v n. p \<in> set es \<Longrightarrow> to_value (fst p) = AOk v \<Longrightarrow> n + length (caps_of (fst p)) < usize_limit \<Longrightarrow>
      count_caps (fst p) n = AOk (n + length (caps_of (fst p)))"
    and "\<And>p v n. p \<in> set es \<Longrightarrow> to_value (snd p) = AOk v \<Longrightarrow> n + length (caps_of (snd p)) < usize_limit \<Longrightarrow>
      count_caps (snd p) n = AOk (n + length (caps_of (snd p)))"
    and "collect_map es m = AOk m'" and "n + length (concat (map (\<lambda>p. caps_of (fst p) @ caps_of (snd p)) es)) < usize_limit"
  shows "fold_a (\<lambda>p n. abind (count_caps (fst p) n) (\<lambda>n. count_caps (snd p) n)) es n =
    AOk (n + length (concat (map (\<lambda>p. caps_of (fst p) @ caps_of (snd p)) es)))"
proof -
  have ok: "\<exists>v. to_value (fst p) = AOk v" "\<exists>v. to_value (snd p) = AOk v" if "p \<in> set es" for p
    using fold_a_all_ok [OF assms(3) that] by (auto simp: abind_AOk_iff)
  have "abind (count_caps (fst p) n) (\<lambda>n. count_caps (snd p) n) = AOk (n + (length (caps_of (fst p)) + length (caps_of (snd p))))"
    if "p \<in> set es" "n + (length (caps_of (fst p)) + length (caps_of (snd p))) < usize_limit" for p n
  proof -
    have "count_caps (fst p) n = AOk (n + length (caps_of (fst p)))"
      using ok(1) [OF that(1)] assms(1) [OF that(1)] that(2) by auto
    then show ?thesis using ok(2) [OF that(1)] assms(2) [OF that(1)] that(2) by (auto simp: add.assoc)
  qed
  then have "fold_a (\<lambda>p n. abind (count_caps (fst p) n) (\<lambda>n. count_caps (snd p) n)) es n =
      AOk (n + sum_list (map (\<lambda>p. length (caps_of (fst p)) + length (caps_of (snd p))) es))"
    by (rule fold_count [where L = usize_limit]) (use assms(4) in \<open>simp_all add: length_concat comp_def\<close>)
  then show ?thesis by (simp add: length_concat comp_def)
qed

lemma count_correct:
  "to_value d = AOk v \<Longrightarrow> n + length (caps_of d) < usize_limit \<Longrightarrow> count_caps d n = AOk (n + length (caps_of d))"
proof (induction d arbitrary: n v)
  case (SNewtypeVariant i d)
  then show ?case by (cases "i = SERIALIZE_ENUM_VARIANT") (auto simp: abind_AOk_iff)
next
  case (SMap es)
  then obtain m where m: "collect_map es [] = AOk m" by (auto simp: abind_AOk_iff)
  have room: "n + length (concat (map (\<lambda>p. caps_of (fst p) @ caps_of (snd p)) es)) < usize_limit" using SMap.prems(2) by simp
  show ?case unfolding count_caps.simps caps_of.simps
    by (rule count_pairs [OF _ _ m room]; rule SMap.IH) (auto simp: fsts.simps snds.simps)
next
  case (SStruct fs)
  have room: "n + length (concat (map (\<lambda>p. caps_of (snd p)) fs)) < usize_limit" using SStruct.prems(2) by simp
  show ?case unfolding count_caps.simps caps_of.simps
    by (rule count_fields [OF _ SStruct.prems(1) room]; rule SStruct.IH) (auto simp: snds.simps)
next
  case (SStructVariant i fs)
  obtain w where w: "to_value (SStruct fs) = AOk w" using SStructVariant.prems(1) by (auto simp: abind_AOk_iff)
  have room: "n + length (concat (map (\<lambda>p. caps_of (snd p)) fs)) < usize_limit" using SStructVariant.prems(2) by simp
  show ?case unfolding count_caps.simps caps_of.simps
    by (rule count_fields [OF _ w room]; rule SStructVariant.IH) (auto simp: snds.simps)
next
  case (SSeq ds)
  then show ?case using count_seq [of ds] by (auto simp: abind_AOk_iff)
next
  case (STuple ds)
  then show ?case using count_seq [of ds] by (auto simp: abind_AOk_iff)
next
  case (STupleStruct ds)
  then show ?case using count_seq [of ds] by (auto simp: abind_AOk_iff)
next
  case (STupleVariant i ds)
  then show ?case using count_seq [of ds] by (auto simp: abind_AOk_iff)
qed (auto simp: abind_AOk_iff)

lemma read_words_caps: "read_words (length cs) (cap_words cs @ rest) = cs"
  by (induction cs) (simp_all add: word_le_bytes)

lemma de_any_skips_filler:
  "de_any u n (de_at C (replicate k (dt_byte TFiller) @ bs)) = de_any u n (de_at C bs) \<or> n = 0"
  by (cases n) (simp_all add: de_any.simps next_visit_def skip_filler_replicate)

lemma to_bytes_correct:
  assumes u: "u64_visitor_ok u" and d: "wf_data d" "to_value d = AOk v"
    and N: "length (caps_of d) \<le> N" "length (caps_of d) < 65536" "8 * N < usize_limit"
  shows "\<exists>bs. to_bytes d N = AOk bs \<and> from_bytes u bs = AOk v"
proof -
  let ?cs = "caps_of d"
  have "serializes u d ?cs v" by (rule ser_correct [OF u d])
  then obtain bs where bs: "ser d (ser_state N [] []) = AOk (ser_state N ?cs bs)" "reads u 0 ?cs bs v"
    by (rule serializesE [where caps = "[]" and body = "[]" and N = N]) (use N in simp_all)
  let ?pad = "replicate (8 * (N - length ?cs)) (dt_byte TFiller)"
  let ?msg = "le_bytes 8 (length ?cs) @ cap_words ?cs @ ?pad @ bs"
  have out: "to_bytes d N = AOk ?msg"
    using N(3) bs(1) by (simp add: to_bytes_def Serializer_new_state mult.commute) (simp add: ser_state_def)
  have D: "Deserializer_from_bytes ?msg = AOk (de_at ?cs (?pad @ bs))"
    using N(2) by (simp add: Deserializer_from_bytes_def from_le_bytes read_words_caps)
  have "de_any u (2 * length ?msg + 1) (de_at ?cs (bs @ [])) = (de_at ?cs [], AOk v)"
    by (rule readsD(2) [OF bs(2)]) simp_all
  then have "de_any u (2 * length ?msg + 1) (de_at ?cs (?pad @ bs)) = (de_at ?cs [], AOk v)"
    using de_any_skips_filler [of u "2 * length ?msg + 1" ?cs "8 * (N - length ?cs)" bs] by simp
  then have "from_bytes u ?msg = AOk v" unfolding from_bytes_def D by simp
  with out show ?thesis by blast
qed

subsection \<open>Values as data\<close>

lemma fold_rebuild_list:
  assumes "\<And>x. x \<in> set xs \<Longrightarrow> f x = AOk x"
  shows "fold_a (\<lambda>x acc. abind (f x) (\<lambda>v. AOk (acc @ [v]))) xs acc = AOk (acc @ xs)"
  using assms by (induction xs arbitrary: acc) simp_all

lemma fold_rebuild_map:
  fixes es :: "(Value \<times> Value) list"
  assumes "\<And>p. p \<in> set es \<Longrightarrow> f (fst p) = AOk (fst p) \<and> f (snd p) = AOk (snd p)" and "bt_sorted (acc @ es)"
  shows "fold_a (\<lambda>p m. abind (f (fst p)) (\<lambda>k. abind (f (snd p)) (\<lambda>v. AOk (bt_insert k v m)))) es acc = AOk (acc @ es)"
  using assms
proof (induction es arbitrary: acc)
  case (Cons p es)
  have "bt_insert (fst p) (snd p) acc = acc @ [p]"
    using Cons.prems(2) bt_insert_last [of acc "fst p" "snd p"] by (auto simp: sorted_wrt_append)
  then show ?case using Cons.IH [of "acc @ [p]"] Cons.prems by simp
qed simp

lemma Value_serialize_ok: "wf_value v \<Longrightarrow> wf_data (Value_serialize v) \<and> to_value (Value_serialize v) = AOk v"
proof (induction v)
  case (VSequence vs)
  have "fold_a (\<lambda>x acc. abind (to_value (Value_serialize x)) (\<lambda>v. AOk (acc @ [v]))) vs [] = AOk ([] @ vs)"
    by (rule fold_rebuild_list) (use VSequence in \<open>auto simp: list_all_iff\<close>)
  then show ?case using VSequence by (simp add: fold_a_map list_all_iff)
next
  case (VMap es)
  have p: "wf_data (Value_serialize (fst p)) \<and> to_value (Value_serialize (fst p)) = AOk (fst p)"
    "wf_data (Value_serialize (snd p)) \<and> to_value (Value_serialize (snd p)) = AOk (snd p)" if "p \<in> set es" for p
    using VMap.IH [OF that] VMap.prems that by (auto simp: list_all_iff fsts.simps snds.simps)
  have "fold_a (\<lambda>p m. abind (to_value (Value_serialize (fst p))) (\<lambda>k. abind (to_value (Value_serialize (snd p)))
      (\<lambda>v. AOk (bt_insert k v m)))) es [] = AOk ([] @ es)"
    by (rule fold_rebuild_map) (use VMap.prems p in auto)
  then show ?case using p by (simp add: fold_a_map list_all_iff)
next
  case (VCapability c)
  then have "unat (of_nat c :: 64 word) = c" by (simp add: unat_of_nat)
  with VCapability show ?case by (simp add: find_capability_def cap_serialize_def get_capability_def)
qed (auto simp: text_ok_def)

lemma de_value_ok:
  assumes u: "u64_visitor_ok u"
  shows "wf_value v \<Longrightarrow> de_value u v = AOk v"
proof (induction v)
  case (VSequence vs)
  have "fold_a (\<lambda>x acc. abind (de_value u x) (\<lambda>v. AOk (acc @ [v]))) vs [] = AOk ([] @ vs)"
    by (rule fold_rebuild_list) (use VSequence in \<open>auto simp: list_all_iff\<close>)
  then show ?case by simp
next
  case (VMap es)
  have "fold_a (\<lambda>p m. abind (de_value u (fst p)) (\<lambda>k. abind (de_value u (snd p)) (\<lambda>v. AOk (bt_insert k v m)))) es [] = AOk ([] @ es)"
    by (rule fold_rebuild_map) (use VMap in \<open>auto simp: list_all_iff fsts.simps snds.simps\<close>)
  then show ?case by simp
next
  case (VCapability c)
  then have "unat (of_nat c :: 64 word) = c" by (simp add: unat_of_nat)
  with VCapability u show ?case by (simp add: u64_visitor_ok_def cap_value_def)
qed auto

subsection \<open>Arbitrary input\<close>

text \<open>
  What holds of every reading function: it consumes input from the front, keeps the capability
  table, neither panics nor runs out of fuel, and what it returns satisfies \<open>P\<close>.
\<close>

abbreviation de_len :: "Deserializer \<Rightarrow> nat" where
  "de_len D \<equiv> length (de_input D)"

definition de_spec :: "Deserializer \<Rightarrow> (Deserializer \<Rightarrow> 'a \<Rightarrow> bool) \<Rightarrow> 'a de_result \<Rightarrow> bool" where
  "de_spec D P m \<longleftrightarrow> de_len (fst m) \<le> de_len D \<and> snd m \<noteq> APanic \<and> snd m \<noteq> AFuel \<and>
     (\<forall>x. snd m = AOk x \<longrightarrow> P (fst m) x)"

lemma de_spec_result [simp]:
  "de_spec D P (D', AOk x) \<longleftrightarrow> de_len D' \<le> de_len D \<and> P D' x"
  "de_spec D P (D', AErr e) \<longleftrightarrow> de_len D' \<le> de_len D" "\<not> de_spec D P (D', APanic)" "\<not> de_spec D P (D', AFuel)"
  by (auto simp: de_spec_def)

lemma de_spec_dbind:
  assumes "de_spec D Q m" and "\<And>D' x. de_len D' \<le> de_len D \<Longrightarrow> Q D' x \<Longrightarrow> de_spec D' P (f D' x)"
  shows "de_spec D P (dbind m f)"
proof (cases m)
  case (Pair D' r)
  show ?thesis
  proof (cases r)
    case (AOk x)
    then have *: "de_len D' \<le> de_len D" "Q D' x" using assms(1) Pair by simp_all
    have "de_spec D' P (f D' x)" by (rule assms(2) [OF *])
    then show ?thesis using AOk Pair *(1) by (auto simp: de_spec_def)
  qed (use assms(1) Pair in simp_all)
qed

lemma de_spec_mono: "de_spec D P m \<Longrightarrow> (\<And>D' x. de_len D' \<le> de_len D \<Longrightarrow> P D' x \<Longrightarrow> Q D' x) \<Longrightarrow> de_spec D Q m"
  by (auto simp: de_spec_def)

lemma take_bytes_spec: "de_spec D (\<lambda>D' bs. length bs = n \<and> de_len D' + n = de_len D) (take_bytes n D)"
  by (simp add: take_bytes_def)

lemma take_word_spec:
  "de_spec D (\<lambda>D' _. de_len D' < de_len D) (take_u8 D)" "de_spec D (\<lambda>D' _. de_len D' < de_len D) (take_u16 D)"
  "de_spec D (\<lambda>D' _. de_len D' < de_len D) (take_u32 D)" "de_spec D (\<lambda>D' _. de_len D' < de_len D) (take_u64 D)"
  "de_spec D (\<lambda>D' _. de_len D' < de_len D) (take_u128 D)"
proof -
  show "de_spec D (\<lambda>D' _. de_len D' < de_len D) (take_u8 D)" by (simp add: take_u8_def split: list.splits)
  show "de_spec D (\<lambda>D' _. de_len D' < de_len D) (take_u16 D)" "de_spec D (\<lambda>D' _. de_len D' < de_len D) (take_u32 D)"
    "de_spec D (\<lambda>D' _. de_len D' < de_len D) (take_u64 D)" "de_spec D (\<lambda>D' _. de_len D' < de_len D) (take_u128 D)"
    unfolding take_u16_def take_u32_def take_u64_def take_u128_def by (rule de_spec_dbind [OF take_bytes_spec], simp)+
qed

lemma take_type_spec: "de_spec D (\<lambda>D' _. de_len D' < de_len D) (take_data_type D)"
  unfolding take_data_type_def
  by (rule de_spec_dbind [OF take_word_spec(1)]) (auto simp: a_ok_or_def split: option.splits)

lemma check_spec: "de_spec D (\<lambda>_ _. True) (check_if_finished e D)"
  by (cases "de_input D")
    (auto simp: check_if_finished_def peek_data_type_def take_data_type_def take_u8_def a_ok_or_def split: option.splits)

primrec wf_visit :: "visit \<Rightarrow> bool" where
  "wf_visit VisUnit = True"
| "wf_visit (VisBool b) = True"
| "wf_visit (VisInt i) = True"
| "wf_visit (VisFloat f) = True"
| "wf_visit (VisChar c) = char_valid c"
| "wf_visit (VisStr s) = (utf8_valid s \<and> length s < usize_limit)"
| "wf_visit (VisBytes s) = (length s < usize_limit)"
| "wf_visit VisNewtype = True"
| "wf_visit VisSome = True"
| "wf_visit (VisSeq fin) = True"
| "wf_visit (VisMap fin) = True"
| "wf_visit (VisEnum d) = True"
| "wf_visit (VisCap c) = True"

lemma visit_str_spec: "de_len D < usize_limit \<Longrightarrow> de_spec D (\<lambda>_. wf_visit) (visit_str n D)"
  unfolding visit_str_def take_str_def
  by (intro de_spec_dbind [where Q = "\<lambda>D' bs. utf8_valid bs \<and> length bs < usize_limit"] de_spec_dbind [OF take_bytes_spec]) auto

lemma visit_bytes_spec: "de_len D < usize_limit \<Longrightarrow> de_spec D (\<lambda>_. wf_visit) (visit_bytes n D)"
  unfolding visit_bytes_def by (rule de_spec_dbind [OF take_bytes_spec]) auto

lemma words_shrink:
  assumes "de_spec D (\<lambda>D' _. de_len D' < de_len D) m" and "\<And>D' x. de_len D' < de_len D \<Longrightarrow> de_spec D' P (f D' x)"
  shows "de_spec D P (dbind m f)"
  by (rule de_spec_dbind [OF assms(1)]) (use assms(2) in simp)

lemma visit_of_type_spec:
  assumes "t \<noteq> TFiller" and len: "de_len D < usize_limit"
  shows "de_spec D (\<lambda>_. wf_visit) (visit_of_type t D)"
proof -
  have check: "de_spec D (\<lambda>_. wf_visit) (dbind (check_if_finished e D) (\<lambda>D fin. (D, AOk (g fin))))" if "\<And>b. wf_visit (g b)" for e g
    by (rule de_spec_dbind [OF check_spec]) (use that in simp)
  show ?thesis
    by (cases t)
      (use assms in \<open>auto simp: visit_of_type_def intro!: words_shrink [OF take_word_spec(1)] words_shrink [OF take_word_spec(2)] words_shrink [OF take_word_spec(3)]
        words_shrink [OF take_word_spec(4)] words_shrink [OF take_word_spec(5)] check visit_str_spec visit_bytes_spec\<close>)
qed

lemma skip_filler_spec:
  "skip_filler bs = (bs', r) \<Longrightarrow> length bs' \<le> length bs \<and> r \<noteq> APanic \<and> r \<noteq> AFuel \<and>
     (r = AOk () \<longrightarrow> (\<exists>t r'. bs' = dt_byte t # r' \<and> t \<noteq> TFiller))"
proof (induction bs rule: skip_filler.induct)
  case (2 b bs)
  have "dt_byte t = b" if "DataType_try_from b = Some t" for t
    using that by (auto simp: DataType_try_from_def find_Some_iff)
  then show ?case using 2 by (fastforce split: option.splits if_splits)
qed auto

lemma next_visit_spec:
  assumes len: "de_len D < usize_limit"
  shows "de_spec D (\<lambda>D' vis. de_len D' < de_len D \<and> wf_visit vis) (next_visit D)"
proof -
  obtain bs r where s: "skip_filler (de_input D) = (bs, r)" by fastforce
  note sp = skip_filler_spec [OF s]
  show ?thesis
  proof (cases r)
    case (AOk x)
    then obtain t r' where bs: "bs = dt_byte t # r'" "t \<noteq> TFiller" using sp by auto
    let ?D = "D\<lparr>de_input := r'\<rparr>"
    have run: "next_visit D = visit_of_type t ?D"
      using s AOk bs by (simp add: next_visit_def take_data_type_def take_u8_def)
    have "de_spec ?D (\<lambda>_. wf_visit) (visit_of_type t ?D)"
      by (rule visit_of_type_spec [OF bs(2)]) (use sp len bs(1) in simp)
    then show ?thesis unfolding run using sp bs(1) by (auto simp: de_spec_def)
  qed (use s sp in \<open>simp_all add: next_visit_def\<close>)
qed

lemma de_u64_spec:
  assumes "de_len D < usize_limit"
  shows "de_spec D (\<lambda>_ _. True) (de_u64 u has_data D)"
  unfolding de_u64_def
  by (auto intro!: de_spec_dbind [OF next_visit_spec [OF assms]] simp: a_ok_or_def split: option.splits)

lemma cap_value_spec: "de_spec D (\<lambda>_. wf_value) (D, cap_value c)"
  using unsigned_less [of c, where ?'a = nat]
  by (auto simp: cap_value_def CapId_try_from_def split: option.splits)

lemma wf_bt_insert:
  assumes "wf_value (VMap m)" and "wf_value k" and "wf_value v"
  shows "wf_value (VMap (bt_insert k v m))"
proof -
  have "wf_value (fst p) \<and> wf_value (snd p)" if "p \<in> set (bt_insert k v m)" for p
    using bt_insert_entries [OF that] assms by (auto simp: list_all_iff)
  then show ?thesis using assms(1) bt_insert_sorted [of m k v] by (auto simp: list_all_iff)
qed

lemma de_spec_weaken: "de_spec D' P m \<Longrightarrow> de_len D' \<le> de_len D \<Longrightarrow> de_spec D P m"
  by (auto simp: de_spec_def)

text \<open>With enough fuel every input is read completely or rejected.\<close>

lemma de_total:
  "de_len D < usize_limit \<Longrightarrow> 2 * de_len D < n \<Longrightarrow> de_spec D (\<lambda>D' v. de_len D' < de_len D \<and> wf_value v) (de_any u n D)"
  "de_len D < usize_limit \<Longrightarrow> 2 * de_len D + 1 < n \<Longrightarrow> list_all wf_value acc \<Longrightarrow>
     de_spec D (\<lambda>_. wf_value) (de_seq u n fin acc D)"
  "de_len D < usize_limit \<Longrightarrow> 2 * de_len D + 1 < n \<Longrightarrow> wf_value (VMap m) \<Longrightarrow>
     de_spec D (\<lambda>_. wf_value) (de_map u n fin m D)"
proof (induction n arbitrary: D acc m fin)
  case (Suc n)
  {
    case 1
    have vis: "de_spec D (\<lambda>D' v. de_len D' < de_len D \<and> wf_visit v) (next_visit D)" by (rule next_visit_spec [OF 1(1)])
    show ?case unfolding de_any.simps
    proof (rule de_spec_dbind [OF vis])
      fix D' v
      assume *: "de_len D' \<le> de_len D" "de_len D' < de_len D \<and> wf_visit v"
      have lim: "de_len D' < usize_limit" "2 * de_len D' < n" "2 * de_len D' + 1 < n" using * 1 by simp_all
      have sub: "de_spec D' (\<lambda>E v. de_len E < de_len D' \<and> wf_value v) (de_any u n D')" by (rule Suc.IH(1) [OF lim(1,2)])
      show "de_spec D' (\<lambda>D' v. de_len D' < de_len D \<and> wf_value v)
        (case v of
         VisUnit \<Rightarrow> (D', AOk VNull)
       | VisBool b \<Rightarrow> (D', AOk (VBool b))
       | VisInt i \<Rightarrow> (D', AOk (VInteger i))
       | VisFloat f \<Rightarrow> (D', AOk (VFloat f))
       | VisChar c \<Rightarrow> (D', AOk (VChar c))
       | VisStr s \<Rightarrow> (D', AOk (VString s))
       | VisBytes b \<Rightarrow> (D', AOk (VBytes b))
       | VisNewtype \<Rightarrow> dbind (de_any u n D') (\<lambda>D v. (D, AOk (VNewtype v)))
       | VisSome \<Rightarrow> dbind (de_any u n D') (\<lambda>D v. (D, AOk (VSome v)))
       | VisSeq fin \<Rightarrow> de_seq u n fin [] D'
       | VisMap fin \<Rightarrow> de_map u n fin [] D'
       | VisEnum has_data \<Rightarrow>
           dbind (take_u32 D') (\<lambda>D i.
             if i = SERIALIZE_ENUM_VARIANT then dbind (de_u64 u has_data D) (\<lambda>D c. (D, cap_value c))
             else if has_data then dbind (de_any u n D) (\<lambda>D v. (D, AOk (VEnumVariant i v)))
             else (D, AOk (VEnumVariant i VNull)))
       | VisCap c \<Rightarrow> (D', abind (a_ok_or (u (VisInt (U64 c))) DeserializeMessage) cap_value))"
      proof (cases v)
        case (VisSeq fin)
        have "de_spec D' (\<lambda>_. wf_value) (de_seq u n fin [] D')" by (rule Suc.IH(2) [OF lim(1,3)]) simp
        then show ?thesis using * by (auto simp: VisSeq de_spec_def)
      next
        case (VisMap fin)
        have "de_spec D' (\<lambda>_. wf_value) (de_map u n fin [] D')" by (rule Suc.IH(3) [OF lim(1,3)]) simp
        then show ?thesis using * by (auto simp: VisMap de_spec_def)
      next
        case (VisEnum has_data)
        have "de_spec D' (\<lambda>D' v. de_len D' < de_len D \<and> wf_value v)
          (dbind (take_u32 D') (\<lambda>D i.
             if i = SERIALIZE_ENUM_VARIANT then dbind (de_u64 u has_data D) (\<lambda>D c. (D, cap_value c))
             else if has_data then dbind (de_any u n D) (\<lambda>D v. (D, AOk (VEnumVariant i v)))
             else (D, AOk (VEnumVariant i VNull))))" (is "de_spec _ ?P _")
        proof (rule words_shrink [OF take_word_spec(3)])
          fix E i
          assume E: "de_len E < de_len D'"
          then have lim': "de_len E < usize_limit" "2 * de_len E < n" using lim by simp_all
          have cap: "de_spec E ?P (dbind (de_u64 u has_data E) (\<lambda>D c. (D, cap_value c)))"
            using cap_value_spec E * by (intro de_spec_dbind [OF de_u64_spec [OF lim'(1)]]) (fastforce simp: de_spec_def)
          have "de_spec E ?P (dbind (de_any u n E) (\<lambda>D v. (D, AOk (VEnumVariant i v))))" if "i \<noteq> SERIALIZE_ENUM_VARIANT"
            by (rule de_spec_dbind [OF Suc.IH(1) [OF lim']]) (use that E * in auto)
          with cap E * show "de_spec E ?P
            (if i = SERIALIZE_ENUM_VARIANT then dbind (de_u64 u has_data E) (\<lambda>D c. (D, cap_value c))
             else if has_data then dbind (de_any u n E) (\<lambda>D v. (D, AOk (VEnumVariant i v)))
             else (E, AOk (VEnumVariant i VNull)))" by auto
        qed
        then show ?thesis by (simp add: VisEnum)
      next
        case (VisCap c)
        have "de_spec D' (\<lambda>D' v. de_len D' < de_len D \<and> wf_value v) (D', cap_value x)" for x
          using cap_value_spec [of D' x] * by (auto simp: de_spec_def)
        then show ?thesis by (cases "u (VisInt (U64 c))") (simp_all add: VisCap)
      next
        case VisNewtype
        have "de_spec D' (\<lambda>D' v. de_len D' < de_len D \<and> wf_value v) (dbind (de_any u n D') (\<lambda>D v. (D, AOk (VNewtype v))))"
          by (rule de_spec_dbind [OF sub]) (use * in auto)
        then show ?thesis by (simp add: VisNewtype)
      next
        case VisSome
        have "de_spec D' (\<lambda>D' v. de_len D' < de_len D \<and> wf_value v) (dbind (de_any u n D') (\<lambda>D v. (D, AOk (VSome v))))"
          by (rule de_spec_dbind [OF sub]) (use * in auto)
        then show ?thesis by (simp add: VisSome)
      qed (use * in simp_all)
    qed
  next
    case 2
    have sub: "de_spec D (\<lambda>D' v. de_len D' < de_len D \<and> wf_value v) (de_any u n D)"
      by (rule Suc.IH(1) [OF 2(1)]) (use 2(2) in simp)
    obtain D1 r where r: "de_any u n D = (D1, r)" by fastforce
    have err: "de_spec D1 (\<lambda>_. wf_value) (dbind (check_if_finished TSequenceEnd D1) (\<lambda>D2 _. (D2, AErr e)))" for e
      by (rule de_spec_dbind [OF check_spec]) simp
    show ?case
    proof (cases fin)
      case False
      show ?thesis
      proof (cases r)
        case (AOk x)
        then have x: "de_len D1 < de_len D" "wf_value x" using sub r by simp_all
        have "de_spec D1 (\<lambda>_. wf_value)
            (dbind (check_if_finished TSequenceEnd D1) (\<lambda>D2 fin. de_seq u n fin (acc @ [x]) D2))"
          by (rule de_spec_dbind [OF check_spec]) (use x 2 in \<open>auto intro!: Suc.IH(2)\<close>)
        then show ?thesis using False r AOk x(1) by (auto simp: de_seq.simps intro: de_spec_weaken)
      qed (use sub r False err in \<open>auto simp: de_seq.simps intro: de_spec_weaken\<close>)
    qed (use 2(3) in \<open>simp add: de_seq.simps\<close>)
  next
    case 3
    have sub: "de_spec D (\<lambda>D' v. de_len D' < de_len D \<and> wf_value v) (de_any u n D)"
      by (rule Suc.IH(1) [OF 3(1)]) (use 3(2) in simp)
    have "de_spec D (\<lambda>_. wf_value)
      (dbind (de_any u n D) (\<lambda>D1 k.
          case de_any u n D1 of
            (D2, AOk v) \<Rightarrow> dbind (check_if_finished TMapEnd D2) (\<lambda>D3 fin. de_map u n fin (bt_insert k v m) D3)
          | (D2, AErr e) \<Rightarrow> dbind (check_if_finished TMapEnd D2) (\<lambda>D3 _. (D3, AErr e))
          | (D2, r) \<Rightarrow> (D2, r)))"
    proof (rule de_spec_dbind [OF sub])
      fix D1 k
      assume k: "de_len D1 \<le> de_len D" "de_len D1 < de_len D \<and> wf_value k"
      have sub1: "de_spec D1 (\<lambda>D' v. de_len D' < de_len D1 \<and> wf_value v) (de_any u n D1)"
        by (rule Suc.IH(1)) (use 3(1,2) k in simp_all)
      obtain D2 r where r: "de_any u n D1 = (D2, r)" by fastforce
      have err: "de_spec D2 (\<lambda>_. wf_value) (dbind (check_if_finished TMapEnd D2) (\<lambda>D2 _. (D2, AErr e)))" for e
        by (rule de_spec_dbind [OF check_spec]) simp
      show "de_spec D1 (\<lambda>_. wf_value)
        (case de_any u n D1 of
            (D2, AOk v) \<Rightarrow> dbind (check_if_finished TMapEnd D2) (\<lambda>D3 fin. de_map u n fin (bt_insert k v m) D3)
          | (D2, AErr e) \<Rightarrow> dbind (check_if_finished TMapEnd D2) (\<lambda>D3 _. (D3, AErr e))
          | (D2, r) \<Rightarrow> (D2, r))"
      proof (cases r)
        case (AOk v)
        then have v: "de_len D2 < de_len D1" "wf_value v" using sub1 r by simp_all
        have wf: "wf_value (VMap (bt_insert k v m))" by (rule wf_bt_insert) (use 3(3) k v in simp_all)
        have "de_spec D2 (\<lambda>_. wf_value)
            (dbind (check_if_finished TMapEnd D2) (\<lambda>D3 fin. de_map u n fin (bt_insert k v m) D3))"
          by (rule de_spec_dbind [OF check_spec], rule Suc.IH(3) [OF _ _ wf]) (use v k 3 in simp_all)
        then show ?thesis using r AOk v(1) by (auto intro: de_spec_weaken)
      qed (use sub1 r err in \<open>auto intro: de_spec_weaken\<close>)
    qed
    then show ?case using 3(3) by (simp add: de_map.simps)
  }
qed simp_all

subsection \<open>Properties\<close>

text \<open>
  C7.  Two ways from data to a value agree: writing a message and reading it back gives what
  \<open>Value::from_serialize\<close> builds directly, for everything that implements \<open>Serialize\<close>, with at
  most 65535 capabilities in it; the number of capabilities is counted correctly.  The
  implementation of \<open>u64\<close> in serde is only assumed to accept the number it is given.
\<close>

theorem aser_routes_agree:
  assumes "u64_visitor_ok u" and "wf_data d" and "Value_from_serialize d = AOk v" and "length (caps_of d) < 65536"
  shows "\<exists>bs. to_bytes_count_cap d = AOk bs \<and> from_bytes u bs = Value_from_serialize d \<and>
    count_capabilties d = AOk (length (caps_of d))"
proof -
  have v: "to_value d = AOk v" using assms(3) by (simp add: Value_from_serialize_def)
  have n: "count_capabilties d = AOk (length (caps_of d))"
    using count_correct [OF v, of 0] assms(4) by (simp add: count_capabilties_def)
  obtain bs where "to_bytes d (length (caps_of d)) = AOk bs" "from_bytes u bs = AOk v"
    using to_bytes_correct [OF assms(1,2) v le_refl assms(4)] assms(4) by auto
  then show ?thesis using n assms(3) by (simp add: to_bytes_count_cap_def)
qed

definition plain_u64 :: "visit \<Rightarrow> 64 word option" where
  "plain_u64 vis = (case vis of VisInt (U64 n) \<Rightarrow> Some n | _ \<Rightarrow> None)"

lemma plain_u64_ok: "u64_visitor_ok plain_u64"
  by (simp add: u64_visitor_ok_def plain_u64_def)

definition example_data :: ser_data where
  "example_data = SStruct [([0x69, 0x64], SNewtypeVariant SERIALIZE_ENUM_VARIANT (SInt (U64 0x40))), ([0x6E], SSeq [SInt (I8 (- 1)), SNone])]"

lemma example_cap: "CapId_try_from 0x40 = Some 0x40"
  by (simp add: CapId_try_from_def get_bits_5_10 CapType_from_def)

lemma example_data_facts:
  "wf_data example_data" "caps_of example_data = [0x40]"
  "to_value example_data = AOk (VMap [(VString [0x69, 0x64], VCapability 0x40), (VString [0x6E], VSequence [VInteger (I8 (- 1)), VNull])])"
  by (simp_all add: example_data_def text_ok_def find_capability_def cap_serialize_def get_capability_def example_cap
      less_Value_def bytes_cmp_def cmp_def then_cmp_def)

theorem aser_routes_agree_witness:
  "\<exists>bs. to_bytes_count_cap example_data = AOk bs \<and>
     from_bytes plain_u64 bs = AOk (VMap [(VString [0x69, 0x64], VCapability 0x40), (VString [0x6E], VSequence [VInteger (I8 (- 1)), VNull])])"
  using aser_routes_agree [OF plain_u64_ok example_data_facts(1)] example_data_facts(2,3) by (auto simp: Value_from_serialize_def)

text \<open>
  C13.  Every well-formed value survives: it is what is read from its message, what
  \<open>Value::from_serialize\<close> makes of it, and what \<open>into_deserialize\<close> makes of it.
\<close>

theorem value_roundtrip:
  assumes "u64_visitor_ok u" and "wf_value v" and "length (caps_of (Value_serialize v)) < 65536"
  shows "(\<exists>bs. to_bytes_count_cap (Value_serialize v) = AOk bs \<and> from_bytes u bs = AOk v) \<and>
    Value_from_serialize (Value_serialize v) = AOk v \<and> Value_into_deserialize u v = AOk v"
proof -
  note s = Value_serialize_ok [OF assms(2)]
  have n: "count_capabilties (Value_serialize v) = AOk (length (caps_of (Value_serialize v)))"
    using count_correct [of "Value_serialize v" v 0] s assms(3) by (simp add: count_capabilties_def)
  obtain bs where "to_bytes (Value_serialize v) (length (caps_of (Value_serialize v))) = AOk bs" "from_bytes u bs = AOk v"
    using to_bytes_correct [OF assms(1) conjunct1 [OF s] conjunct2 [OF s] le_refl assms(3)] assms(3) by auto
  then show ?thesis
    using n s de_value_ok [OF assms(1,2)] by (simp add: to_bytes_count_cap_def Value_from_serialize_def Value_into_deserialize_def)
qed

theorem value_roundtrip_witness:
  "\<exists>bs. to_bytes_count_cap (Value_serialize (VEnumVariant 3 (VSequence [VCapability 0x40, VString [0x61]]))) = AOk bs \<and>
     from_bytes plain_u64 bs = AOk (VEnumVariant 3 (VSequence [VCapability 0x40, VString [0x61]]))"
  using value_roundtrip [OF plain_u64_ok, of "VEnumVariant 3 (VSequence [VCapability 0x40, VString [0x61]])"]
  by (simp add: example_cap SERIALIZE_ENUM_VARIANT_def find_capability_def cap_serialize_def get_capability_def)

text \<open>
  C14.  Reading is total on arbitrary bytes: it ends, and what it returns is a well-formed value
  (strings are UTF-8, characters are scalar values, maps have strictly ascending keys, capability
  ids have a valid type, the reserved variant number does not occur).  It panics exactly for a
  header that claims \<open>2 ^ 61\<close> capabilities or more, when the size of the table overflows.
\<close>

theorem from_bytes_well_typed:
  assumes "length bs < usize_limit"
  shows "(case from_bytes u bs of
      AOk v \<Rightarrow> wf_value v
    | AErr e \<Rightarrow> True
    | APanic \<Rightarrow> 8 \<le> length bs \<and> 2 ^ 61 \<le> from_le (take 8 bs)
    | AFuel \<Rightarrow> False) \<and>
    (8 \<le> length bs \<and> 2 ^ 61 \<le> from_le (take 8 bs) \<longrightarrow> from_bytes u bs = APanic)"
proof (cases "Deserializer_from_bytes bs")
  case (AOk D)
  then have D: "de_len D \<le> length bs" "\<not> 2 ^ 61 \<le> from_le (take 8 bs)"
    by (auto simp: Deserializer_from_bytes_def Let_def split: if_splits)
  obtain D' r where r: "de_any u (2 * length bs + 1) D = (D', r)" by fastforce
  have "de_spec D (\<lambda>D' v. de_len D' < de_len D \<and> wf_value v) (de_any u (2 * length bs + 1) D)"
    by (rule de_total(1)) (use D(1) assms in simp_all)
  with r AOk D(2) show ?thesis by (cases r) (simp_all add: from_bytes_def)
qed (auto simp: from_bytes_def Deserializer_from_bytes_def Let_def split: if_splits)

theorem from_bytes_well_typed_witness: "from_bytes plain_u64 [0, 0, 0, 0, 0, 0, 0, 0x20] = APanic"
  using from_bytes_well_typed [of "[0, 0, 0, 0, 0, 0, 0, 0x20]" plain_u64] by simp

lemma fold_a_append: "fold_a f (xs @ ys) s = abind (fold_a f xs s) (fold_a f ys)"
proof (induction xs arbitrary: s)
  case (Cons x xs)
  then show ?case by (cases "f x s") simp_all
qed simp

lemma collect_replicate:
  assumes "to_value d = AOk v"
  shows "collect_values (replicate k d) acc = AOk (acc @ replicate k v)"
proof (induction k arbitrary: acc)
  case (Suc k)
  then show ?case using assms by (simp add: replicate_append_same)
qed simp

text \<open>
  C38.  The 65536th capability of a message makes the serializer panic, although it was counted
  and has room in the table: its index is truncated to 16 bits before 1 is subtracted.
\<close>

theorem capability_index_overflow:
  assumes "u64_visitor_ok u" and "list_all wf_data ds" and "collect_values ds [] = AOk vs"
    and "length (concat (map caps_of ds)) = 65535" and "find_capability d = AOk c" and "CapId_try_from (unat c) = Some i"
  shows "to_bytes_count_cap (SSeq (ds @ [SNewtypeVariant SERIALIZE_ENUM_VARIANT d])) = APanic"
proof -
  let ?last = "SNewtypeVariant SERIALIZE_ENUM_VARIANT d" and ?cs = "concat (map caps_of ds)"
  have "to_value (SSeq (ds @ [?last])) = AOk (VSequence (vs @ [VCapability i]))"
    using assms(3,5,6) by (simp add: fold_a_append)
  from count_correct [OF this, of 0]
  have n: "count_capabilties (SSeq (ds @ [?last])) = AOk 65536"
    using assms(4,5) by (simp add: count_capabilties_def)
  have each: "serializes u x (caps_of x) v" if "x \<in> set ds" "to_value x = AOk v" for x v
    using ser_correct [OF assms(1) _ that(2)] assms(2) that(1) by (simp add: list_all_iff)
  obtain bs where bs: "fold_a ser ds (ser_state 65536 [] [dt_byte TSequenceStart]) = AOk (ser_state 65536 ?cs ([dt_byte TSequenceStart] @ bs))"
    using ser_elements [OF each assms(3) refl, of "[]" 65536 "[dt_byte TSequenceStart]"] assms(4) by auto
  have "ser ?last (ser_state 65536 ?cs body) = APanic" for body
    by (simp add: serialize_capability_def Let_def assms(4))
  then have "ser (SSeq (ds @ [?last])) (ser_state 65536 [] []) = APanic"
    using bs by (simp add: fold_a_append)
  then show ?thesis by (simp add: to_bytes_count_cap_def n to_bytes_def Serializer_new_state)
qed

theorem capability_index_overflow_witness:
  "to_bytes_count_cap (SSeq (replicate 65535 (SNewtypeVariant SERIALIZE_ENUM_VARIANT (SInt (U64 0x40))) @
     [SNewtypeVariant SERIALIZE_ENUM_VARIANT (SInt (U64 0x40))])) = APanic"
proof -
  let ?c = "SNewtypeVariant SERIALIZE_ENUM_VARIANT (SInt (U64 0x40))"
  have f: "find_capability (SInt (U64 0x40)) = AOk 0x40" by (simp add: find_capability_def cap_serialize_def get_capability_def)
  have v: "to_value ?c = AOk (VCapability 0x40)" by (simp add: f example_cap)
  have wf: "list_all wf_data (replicate 65535 ?c)" by (simp add: list_all_iff)
  have len: "length (concat (map caps_of (replicate 65535 ?c))) = 65535"
    by (simp add: length_concat f map_replicate sum_list_replicate)
  have id: "CapId_try_from (unat (0x40 :: 64 word)) = Some 0x40" by (simp add: example_cap)
  show ?thesis by (rule capability_index_overflow [OF plain_u64_ok wf collect_replicate [OF v] len f id])
qed

end
