(* ===== verification/Spec2Isabelle.thy ===== *)
theory Spec2Isabelle
  imports Capability_Space Page_Frames Vec_Map Sched_Progress Aser_Roundtrip
begin

text \<open>
  A verification library for Aurora OS, a capability based microkernel in Rust.
\<close>

end
